(* ===== verification/Prelude.thy ===== *)
theory Prelude
  imports Complex_Main "HOL-Library.Word"
begin

text \<open>
  Shared vocabulary of the development: names for Rust's machine types, the numeric
  operations of Rust's standard library that the sources call (\<open>clamp\<close>,
  \<open>rem_euclid\<close>, the saturating float-to-integer casts, truncating division), the
  \<open>HashMap::retain\<close> operation on maps, generic lemmas on lists and maps, and the
  invariant interface that every stateful component interprets.

  Rust's unsigned integers whose wrap-around or bit layout matters are words of their
  width; \<open>i32\<close> values are integers with the wrap-around written out (\<open>wrap_i32\<close>);
  indexes and counters that only count are natural numbers. Finite \<open>f64\<close> values are
  real numbers: rounding is idealised away, and NaN and the infinities are left to the
  parts of the code that reject them.
\<close>

unbundle bit_operations_syntax

type_synonym u8 = "8 word"
type_synonym u16 = "16 word"
type_synonym u32 = "32 word"
type_synonym u64 = "64 word"
type_synonym bytes = "u8 list"

text \<open>Facts that unfold the model's small helpers, for \<open>simp add:\<close>.\<close>

named_theorems rust_defs

subsection \<open>Integers\<close>

definition wrap_i32 :: "int \<Rightarrow> int" where
  "wrap_i32 x = (x + 2 ^ 31) mod 2 ^ 32 - 2 ^ 31"

definition trunc_div :: "int \<Rightarrow> int \<Rightarrow> int" where
  "trunc_div a b = sgn a * sgn b * (\<bar>a\<bar> div \<bar>b\<bar>)"

definition trunc_mod :: "int \<Rightarrow> int \<Rightarrow> int" where
  "trunc_mod a b = a - b * trunc_div a b"

lemma wrap_i32_id: "- (2 ^ 31) \<le> x \<Longrightarrow> x < 2 ^ 31 \<Longrightarrow> wrap_i32 x = x"
  by (simp add: wrap_i32_def)

lemma wrap_i32_range: "- (2 ^ 31) \<le> wrap_i32 x \<and> wrap_i32 x < 2 ^ 31"
  by (simp add: wrap_i32_def)

lemma trunc_div_nonneg: "0 \<le> a \<Longrightarrow> 0 < b \<Longrightarrow> trunc_div a b = a div b"
  by (cases "a = 0") (auto simp: trunc_div_def)

lemma trunc_div_neg: "a < 0 \<Longrightarrow> 0 < b \<Longrightarrow> trunc_div a b = - ((- a) div b)"
  by (simp add: trunc_div_def)

lemma trunc_div_exact: "0 < b \<Longrightarrow> trunc_div (b * k) b = k"
  by (cases "0 \<le> k") (auto simp: trunc_div_nonneg trunc_div_neg mult_less_0_iff
      zero_le_mult_iff simp flip: mult_minus_right)

subsection \<open>Reals: the operations of \<open>f64\<close> the sources use\<close>

definition clamp :: "real \<Rightarrow> real \<Rightarrow> real \<Rightarrow> real" where
  "clamp x lo hi = (if x < lo then lo else if hi < x then hi else x)"

definition rem_euclid :: "real \<Rightarrow> real \<Rightarrow> real" where
  "rem_euclid x m = x - m * of_int \<lfloor>x / m\<rfloor>"

text \<open>Rust's \<open>%\<close> on floats keeps the sign of the dividend (C's \<open>fmod\<close>).\<close>

definition fmod :: "real \<Rightarrow> real \<Rightarrow> real" where
  "fmod x m = (if 0 \<le> x / m then x - m * of_int \<lfloor>x / m\<rfloor> else x - m * of_int \<lceil>x / m\<rceil>)"

definition trunc_real :: "real \<Rightarrow> int" where
  "trunc_real x = (if 0 \<le> x then \<lfloor>x\<rfloor> else \<lceil>x\<rceil>)"

text \<open>\<open>f64::round\<close>: half away from zero.\<close>

definition round_real :: "real \<Rightarrow> int" where
  "round_real x = (if 0 \<le> x then \<lfloor>x + 1 / 2\<rfloor> else \<lceil>x - 1 / 2\<rceil>)"

text \<open>A float-to-integer \<open>as\<close> cast truncates and saturates at the type's bounds.\<close>

definition saturate :: "int \<Rightarrow> int \<Rightarrow> int \<Rightarrow> int" where
  "saturate lo hi x = max lo (min hi x)"

definition as_i16 :: "real \<Rightarrow> int" where
  "as_i16 x = saturate (- (2 ^ 15)) (2 ^ 15 - 1) (trunc_real x)"

definition as_i32 :: "real \<Rightarrow> int" where
  "as_i32 x = saturate (- (2 ^ 31)) (2 ^ 31 - 1) (trunc_real x)"

definition as_i64 :: "real \<Rightarrow> int" where
  "as_i64 x = saturate (- (2 ^ 63)) (2 ^ 63 - 1) (trunc_real x)"

definition as_u64 :: "real \<Rightarrow> nat" where
  "as_u64 x = nat (saturate 0 (2 ^ 64 - 1) (trunc_real x))"

lemma clamp_bounds: "lo \<le> hi \<Longrightarrow> lo \<le> clamp x lo hi \<and> clamp x lo hi \<le> hi"
  by (simp add: clamp_def)

lemma clamp_id: "lo \<le> x \<Longrightarrow> x \<le> hi \<Longrightarrow> clamp x lo hi = x"
  by (simp add: clamp_def)

lemma rem_euclid_range: "0 < m \<Longrightarrow> 0 \<le> rem_euclid x m \<and> rem_euclid x m < m"
  using floor_divide_lower [of m x] floor_divide_upper [of m x]
  by (simp add: rem_euclid_def algebra_simps)

lemma fmod_nonneg: "0 \<le> x \<Longrightarrow> 0 < m \<Longrightarrow> fmod x m = rem_euclid x m"
  by (simp add: fmod_def rem_euclid_def)

lemma rem_euclid_id: "0 \<le> x \<Longrightarrow> x < m \<Longrightarrow> rem_euclid x m = x"
proof -
  assume "0 \<le> x" "x < m"
  then have "\<lfloor>x / m\<rfloor> = 0"
    by (simp add: floor_eq_iff)
  then show ?thesis
    by (simp add: rem_euclid_def)
qed

lemma rem_euclid_shift: "m \<noteq> 0 \<Longrightarrow> rem_euclid (x + m * of_int k) m = rem_euclid x m"
proof -
  assume "m \<noteq> 0"
  then have "\<lfloor>(x + m * of_int k) / m\<rfloor> = \<lfloor>x / m\<rfloor> + k"
    by (simp add: add_divide_distrib)
  then show ?thesis
    by (simp add: rem_euclid_def algebra_simps)
qed

subsection \<open>Words by their bits\<close>

declare push_bit_Suc [simp del] drop_bit_Suc [simp del]

lemma word_less_bitD: "x < 2 ^ k \<Longrightarrow> bit x i \<Longrightarrow> i < k" for x :: "'a::len word"
  by (metis bit_and_iff bit_mask_iff less_mask_eq)

lemma word_less_bitI: "k < LENGTH('a) \<Longrightarrow> (\<And>i. bit x i \<Longrightarrow> i < k) \<Longrightarrow> x < 2 ^ k"
  for x :: "'a::len word"
proof -
  assume k: "k < LENGTH('a)" and b: "\<And>i. bit x i \<Longrightarrow> i < k"
  have "x = take_bit k x"
    by (rule bit_word_eqI) (auto simp: bit_simps dest: b)
  then have "uint x < 2 ^ k"
    by (metis take_bit_int_less_exp unsigned_take_bit_eq)
  with k show ?thesis
    by (simp add: word_2p_lem word_size)
qed

text \<open>The bit rules alone, for a first \<open>simp only:\<close> pass before the literals are evaluated.\<close>

lemmas bit_only = bit_and_iff bit_or_iff bit_xor_iff bit_push_bit_iff bit_drop_bit_eq
  comp_apply bit_unsigned_iff bit_mask_iff bit_1_iff bit_0_eq bot_apply

subsection \<open>Hash maps\<close>

text \<open>\<open>HashMap::retain\<close>: keep the entries the predicate accepts.\<close>

definition retain :: "('k \<Rightarrow> 'v \<Rightarrow> bool) \<Rightarrow> ('k \<rightharpoonup> 'v) \<Rightarrow> ('k \<rightharpoonup> 'v)" where
  "retain P m = (\<lambda>k. case m k of None \<Rightarrow> None | Some v \<Rightarrow> if P k v then Some v else None)"

lemma retain_eq_Some [simp]: "retain P m k = Some v \<longleftrightarrow> m k = Some v \<and> P k v"
  by (auto simp: retain_def split: option.splits)

lemma retain_empty [simp]: "retain P Map.empty = Map.empty"
  by (simp add: retain_def)

lemma retain_eq_None: "retain P m k = None \<longleftrightarrow> (\<forall>v. m k = Some v \<longrightarrow> \<not> P k v)"
  by (auto simp: retain_def split: option.splits)

lemma retain_upd: "retain P (m(k \<mapsto> v)) = (if P k v then (retain P m)(k \<mapsto> v) else (retain P m)(k := None))"
  by (auto simp: retain_def fun_eq_iff)

lemma retain_upd_None [simp]: "retain P (m(k := None)) = (retain P m)(k := None)"
  by (auto simp: retain_def fun_eq_iff)

lemma dom_retain: "dom (retain P m) = {k. \<exists>v. m k = Some v \<and> P k v}"
  by (auto simp: dom_def)

lemma dom_retain_subset: "dom (retain P m) \<subseteq> dom m"
  by (auto simp: dom_retain)

lemma retain_le: "retain P m \<subseteq>\<^sub>m m"
  by (auto simp: map_le_def)

lemma finite_dom_retain [simp]: "finite (dom m) \<Longrightarrow> finite (dom (retain P m))"
  by (rule finite_subset [OF dom_retain_subset])

lemma retain_retain: "retain P (retain Q m) = retain (\<lambda>k v. P k v \<and> Q k v) m"
  by (rule ext) (simp add: retain_def split: option.split)

subsection \<open>Lists\<close>

lemma map_foldl_invariant:
  "P a \<Longrightarrow> (\<And>a x. x \<in> set xs \<Longrightarrow> P a \<Longrightarrow> P (f a x)) \<Longrightarrow> P (foldl f a xs)"
  by (induction xs arbitrary: a) auto

text \<open>\<open>Iterator::max_by_key\<close> keeps the last of equal maxima, \<open>min_by_key\<close> the first of equal minima.\<close>

fun max_by_key :: "('a \<Rightarrow> 'b::linorder) \<Rightarrow> 'a list \<Rightarrow> 'a option" where
  "max_by_key f [] = None"
| "max_by_key f (x # xs) =
     (case max_by_key f xs of None \<Rightarrow> Some x | Some y \<Rightarrow> if f y < f x then Some x else Some y)"

fun min_by_key :: "('a \<Rightarrow> 'b::linorder) \<Rightarrow> 'a list \<Rightarrow> 'a option" where
  "min_by_key f [] = None"
| "min_by_key f (x # xs) =
     (case min_by_key f xs of None \<Rightarrow> Some x | Some y \<Rightarrow> if f y < f x then Some y else Some x)"

lemma by_key_None: "max_by_key f xs = None \<longleftrightarrow> xs = []" "min_by_key f xs = None \<longleftrightarrow> xs = []"
  by (cases xs; auto split: option.splits)+

lemma max_by_key_Some:
  "max_by_key f xs = Some x \<Longrightarrow> x \<in> set xs \<and> (\<forall>y \<in> set xs. f y \<le> f x)"
  by (induction xs arbitrary: x) (auto split: option.splits if_splits simp: not_less by_key_None intro: order_trans less_imp_le)

lemma min_by_key_Some:
  "min_by_key f xs = Some x \<Longrightarrow> x \<in> set xs \<and> (\<forall>y \<in> set xs. f x \<le> f y)"
  by (induction xs arbitrary: x) (auto split: option.splits if_splits simp: not_less by_key_None intro: order_trans less_imp_le)

subsection \<open>The invariant interface\<close>

text \<open>
  A component that is driven by events: its step function and a predicate that every
  step keeps. A run over any sequence of events then keeps it as well.
\<close>

locale kept_by_steps =
  fixes step :: "'s \<Rightarrow> 'e \<Rightarrow> 's" and inv :: "'s \<Rightarrow> bool"
  assumes step_keeps: "inv s \<Longrightarrow> inv (step s e)"
begin

lemma run_keeps: "inv s \<Longrightarrow> inv (foldl step s es)"
  by (rule map_foldl_invariant) (auto intro: step_keeps)

lemma prefix_keeps: "inv s \<Longrightarrow> es = xs @ ys \<Longrightarrow> inv (foldl step s xs)"
  by (rule run_keeps)

end

end
