(* ===== verification/Crc.thy ===== *)
theory Crc
  imports Prelude
begin

text \<open>
  The Mode S CRC-24 of \<^verbatim>\<open>crates/mb-modes/src/lib.rs\<close>. The code keeps the
  register in a \<open>u32\<close> and never clears what the shifts push above bit 23; the low 24
  bits are the textbook linear feedback register, which is shown first (\<open>lfsr\<close>) and
  carries the error-detection theorems.
\<close>

unbundle bit_operations_syntax

definition CRC24_POLY :: u32 where
  "CRC24_POLY = 0xFFF409"

text \<open>The body of the inner loop, and the loop over one byte's eight bits.\<close>

definition crc_bit :: "u32 \<Rightarrow> u32" where
  "crc_bit crc =
     (let c = push_bit 1 crc
      in if c AND 0x1000000 \<noteq> 0 then c XOR CRC24_POLY else c)"

definition crc_byte :: "u32 \<Rightarrow> u8 \<Rightarrow> u32" where
  "crc_byte crc byte = (crc_bit ^^ 8) (crc XOR push_bit 16 (ucast byte))"

definition crc24 :: "bytes \<Rightarrow> u32" where
  "crc24 data = foldl crc_byte 0 data AND 0xFFFFFF"

text \<open>The three bytes a frame builder appends for a 24-bit value.\<close>

definition be24 :: "u32 \<Rightarrow> bytes" where
  "be24 p = [ucast (drop_bit 16 p), ucast (drop_bit 8 p), ucast p]"

text \<open>Evaluation on concrete bytes.\<close>

lemma funpow_8: "(f ^^ 8) x = f (f (f (f (f (f (f (f x)))))))"
  by (simp add: numeral_eq_Suc)

lemmas crc_eval = crc24_def crc_byte_def crc_bit_def funpow_8 CRC24_POLY_def be24_def

subsection \<open>The 24-bit register\<close>

type_synonym u24 = "24 word"

definition lfsr :: "u24 \<Rightarrow> u24" where
  "lfsr c = (if bit c 23 then push_bit 1 c XOR 0xFFF409 else push_bit 1 c)"

definition lfsr_byte :: "u24 \<Rightarrow> u8 \<Rightarrow> u24" where
  "lfsr_byte c b = (lfsr ^^ 8) (c XOR push_bit 16 (ucast b))"

definition lfsr_bytes :: "u24 \<Rightarrow> bytes \<Rightarrow> u24" where
  "lfsr_bytes c bs = foldl lfsr_byte c bs"

text \<open>The register is a ring homomorphism for XOR, and never loses information.\<close>

lemma lfsr_0 [simp]: "lfsr 0 = 0"
  by (simp add: lfsr_def)

lemma lfsr_xor: "lfsr (a XOR b) = lfsr a XOR lfsr b"
  by (simp add: lfsr_def bit_xor_iff push_bit_xor xor.assoc xor.left_commute xor.commute)

lemma lfsr_eq_0: "lfsr c = 0 \<longleftrightarrow> c = 0"
proof
  assume z: "lfsr c = 0"
  have top: "\<not> bit c 23"
  proof
    assume "bit c 23"
    with z have "bit (push_bit 1 c XOR (0xFFF409 :: u24)) 0 = bit (0 :: u24) 0"
      by (simp add: lfsr_def)
    then show False
      by (simp add: bit_simps)
  qed
  with z have p: "push_bit 1 c = 0"
    by (simp add: lfsr_def)
  show "c = 0"
  proof (rule bit_word_eqI)
    fix n :: nat
    assume n: "n < LENGTH(24)"
    show "bit c n \<longleftrightarrow> bit (0 :: u24) n"
    proof (cases "n = 23")
      case True
      with top show ?thesis by simp
    next
      case False
      with n have "bit (push_bit 1 c) (Suc n) = bit c n"
        by (simp add: bit_simps)
      with p show ?thesis by simp
    qed
  qed
qed simp

lemma lfsr_pow_0 [simp]: "(lfsr ^^ n) 0 = 0"
  by (induction n) auto

lemma lfsr_pow_xor: "(lfsr ^^ n) (a XOR b) = (lfsr ^^ n) a XOR (lfsr ^^ n) b"
  by (induction n) (auto simp: lfsr_xor)

lemma lfsr_pow_eq_0: "(lfsr ^^ n) c = 0 \<longleftrightarrow> c = 0"
  by (induction n) (auto simp: lfsr_eq_0)

lemma lfsr_pow_shift:
  "n \<le> 24 \<Longrightarrow> (\<And>i. 24 - n \<le> i \<Longrightarrow> \<not> bit c i) \<Longrightarrow> (lfsr ^^ n) c = push_bit n c"
proof (induction n)
  case 0
  then show ?case by simp
next
  case (Suc n)
  then have "(lfsr ^^ n) c = push_bit n c"
    by auto
  moreover have "\<not> bit (push_bit n c) 23"
    using Suc.prems by (auto simp: bit_simps)
  ultimately show ?case
    by (simp add: lfsr_def [of "push_bit n c"] push_bit_push_bit)
qed

lemma lfsr_byte_xor: "lfsr_byte (a XOR c) (x XOR y) = lfsr_byte a x XOR lfsr_byte c y"
  by (simp add: lfsr_byte_def unsigned_xor_eq push_bit_xor flip: lfsr_pow_xor)
    (simp add: ac_simps)

lemma lfsr_byte_0 [simp]: "lfsr_byte 0 0 = 0"
  by (simp add: lfsr_byte_def)

lemma lfsr_bytes_simps [simp]:
  "lfsr_bytes c [] = c"
  "lfsr_bytes c (b # bs) = lfsr_bytes (lfsr_byte c b) bs"
  "lfsr_bytes c (bs @ cs) = lfsr_bytes (lfsr_bytes c bs) cs"
  by (simp_all add: lfsr_bytes_def)

lemma lfsr_bytes_xor:
  "length xs = length ys \<Longrightarrow>
   lfsr_bytes (a XOR c) (map2 (XOR) xs ys) = lfsr_bytes a xs XOR lfsr_bytes c ys"
  by (induction xs ys arbitrary: a c rule: list_induct2) (simp_all add: lfsr_byte_xor)

lemma lfsr_bytes_zeros: "lfsr_bytes c (replicate n 0) = (lfsr ^^ (8 * n)) c"
proof (induction n arbitrary: c)
  case (Suc n)
  have "(lfsr ^^ (8 * n)) ((lfsr ^^ 8) c) = (lfsr ^^ (8 * n + 8)) c"
    by (simp only: funpow_add o_apply)
  also have "8 * n + 8 = 8 * Suc n"
    by simp
  finally have "(lfsr ^^ (8 * n)) ((lfsr ^^ 8) c) = (lfsr ^^ (8 * Suc n)) c" .
  with Suc show ?case
    by (simp add: lfsr_byte_def del: mult_Suc_right)
qed simp

subsection \<open>The code's \<open>u32\<close> register refines it\<close>

lemma crc_bit_refines: "ucast (crc_bit c) = lfsr (ucast c)"
proof -
  have "push_bit 1 c AND 0x1000000 \<noteq> 0 \<longleftrightarrow> bit (ucast c :: u24) 23"
    by (simp add: and_exp_eq_0_iff_not_bit [of _ 24, simplified] bit_simps)
  moreover have "ucast (push_bit 1 c) = push_bit 1 (ucast c :: u24)"
    by (rule bit_word_eqI) (auto simp: bit_simps)
  ultimately show ?thesis
    by (simp add: crc_bit_def lfsr_def Let_def CRC24_POLY_def unsigned_xor_eq)
qed

lemma crc_pow_refines: "ucast ((crc_bit ^^ n) c) = (lfsr ^^ n) (ucast c)"
  by (induction n) (auto simp: crc_bit_refines)

lemma crc_byte_refines: "ucast (crc_byte c b) = lfsr_byte (ucast c) b"
proof -
  have "ucast (push_bit 16 (ucast b :: u32)) = push_bit 16 (ucast b :: u24)"
    by (rule bit_word_eqI) (auto simp: bit_simps)
  then show ?thesis
    by (simp add: crc_byte_def lfsr_byte_def crc_pow_refines unsigned_xor_eq)
qed

lemma foldl_crc_byte_refines: "ucast (foldl crc_byte c bs) = lfsr_bytes (ucast c) bs"
  by (induction bs arbitrary: c) (simp_all add: crc_byte_refines)

lemma ucast_ucast_24: "ucast (ucast (c :: u32) :: u24) = c AND 0xFFFFFF"
proof -
  have "ucast (ucast c :: u24) = c AND mask 24"
    by (rule bit_word_eqI) (auto simp: bit_simps)
  then show ?thesis
    by (simp add: mask_eq_exp_minus_1)
qed

lemma crc24_lfsr: "crc24 data = ucast (lfsr_bytes 0 data)"
proof -
  have "crc24 data = ucast (ucast (foldl crc_byte 0 data) :: u24)"
    by (simp only: crc24_def ucast_ucast_24)
  then show ?thesis
    by (simp add: foldl_crc_byte_refines)
qed

lemma ucast_inj_24: "ucast (a :: u24) = (ucast b :: u32) \<longleftrightarrow> a = b"
proof
  assume "ucast a = (ucast b :: u32)"
  then have "ucast (ucast a :: u32) = (ucast (ucast b :: u32) :: u24)"
    by simp
  then show "a = b"
    by (simp add: ucast_up_ucast_id is_up)
qed simp

lemma crc24_eq_0: "crc24 data = 0 \<longleftrightarrow> lfsr_bytes 0 data = 0"
  using ucast_inj_24 [of "lfsr_bytes 0 data" 0] by (simp add: crc24_lfsr)

lemma crc24_24bit: "crc24 data AND 0xFFFFFF = crc24 data"
  by (simp add: crc24_def and.assoc)

subsection \<open>Parity\<close>

text \<open>Feeding three bytes moves them through the register: the state is the XOR of the two.\<close>

definition pack24 :: "bytes \<Rightarrow> u24" where
  "pack24 bs = foldl (\<lambda>c b. push_bit 8 c OR ucast b) 0 bs"

lemma lfsr_byte_feed:
  "(lfsr ^^ 8) (ucast (x :: u8)) = push_bit 8 (ucast x)"
  "(lfsr ^^ 8) (push_bit 8 (ucast x)) = push_bit 16 (ucast (x :: u8))"
  by (subst lfsr_pow_shift, auto simp: bit_simps push_bit_push_bit dest: bit_imp_le_length)+

lemma lfsr_bytes_3:
  "lfsr_bytes c [x, y, z] = (lfsr ^^ 24) (c XOR pack24 [x, y, z])"
proof -
  have p: "pack24 [x, y, z] = push_bit 16 (ucast x) XOR push_bit 8 (ucast y) XOR ucast z"
    by (simp add: pack24_def push_bit_or push_bit_push_bit)
      (rule bit_word_eqI, auto simp: bit_simps dest: bit_imp_le_length)
  have split: "(lfsr ^^ 24) w = (lfsr ^^ 8) ((lfsr ^^ 8) ((lfsr ^^ 8) w))" for w
    by (simp flip: funpow_add comp_apply [of "lfsr ^^ _"])
  show ?thesis
    by (simp only: split p lfsr_pow_xor lfsr_byte_feed lfsr_bytes_simps lfsr_byte_def)
      (simp only: ac_simps)
qed

lemma unpack24:
  "ucast (drop_bit 16 (pack24 [x, y, z])) = x"
  "ucast (drop_bit 8 (pack24 [x, y, z])) = y"
  "ucast (pack24 [x, y, z]) = z"
  by (rule bit_word_eqI, auto simp: pack24_def bit_simps dest: bit_imp_le_length)+

lemma pack24_inj: "pack24 [x, y, z] = pack24 [x', y', z'] \<longleftrightarrow> x = x' \<and> y = y' \<and> z = z'"
  using unpack24 [of x y z] unpack24 [of x' y' z'] by auto

lemma pack24_eq_0: "pack24 [x, y, z] = 0 \<longleftrightarrow> x = 0 \<and> y = 0 \<and> z = 0"
  using pack24_inj [of x y z 0 0 0] by (simp add: pack24_def)

lemma xor_eq_0_iff: "a XOR b = 0 \<longleftrightarrow> a = b" for a b :: "'a::len word"
  by (auto simp: bit_eq_iff bit_simps)

lemma pack24_be24: "pack24 (be24 (ucast c)) = c"
  by (simp add: pack24_def be24_def)
    (rule bit_word_eqI, auto simp: bit_simps dest: bit_imp_le_length)

text \<open>
  The remainder over a frame with its three trailing bytes is zero exactly when those
  bytes are the CRC of what precedes them.
\<close>

lemma crc24_seal_iff: "length p = 3 \<Longrightarrow> crc24 (d @ p) = 0 \<longleftrightarrow> p = be24 (crc24 d)"
proof -
  assume "length p = 3"
  then obtain x y z where p: "p = [x, y, z]"
    by (auto simp: numeral_3_eq_3 length_Suc_conv)
  let ?s = "lfsr_bytes 0 d"
  have "crc24 (d @ p) = 0 \<longleftrightarrow> ?s XOR pack24 p = 0"
    unfolding crc24_eq_0 p lfsr_bytes_simps(3) lfsr_bytes_3 by (rule lfsr_pow_eq_0)
  also have "\<dots> \<longleftrightarrow> pack24 p = pack24 (be24 (crc24 d))"
    unfolding crc24_lfsr pack24_be24 xor_eq_0_iff by auto
  also have "\<dots> \<longleftrightarrow> p = be24 (crc24 d)"
    by (simp add: be24_def p pack24_inj)
  finally show ?thesis .
qed

lemma crc24_xor:
  "length xs = length ys \<Longrightarrow> crc24 (map2 (XOR) xs ys) = crc24 xs XOR crc24 ys"
  using lfsr_bytes_xor [of xs ys 0 0] by (simp add: crc24_lfsr unsigned_xor_eq)

lemma lfsr_burst:
  "e \<noteq> [0, 0, 0] \<Longrightarrow> length e = 3 \<Longrightarrow> lfsr_bytes 0 (replicate i 0 @ e @ replicate j 0) \<noteq> 0"
proof -
  assume nz: "e \<noteq> [0, 0, 0]" and "length e = 3"
  then obtain x y z where e: "e = [x, y, z]"
    by (auto simp: numeral_3_eq_3 length_Suc_conv)
  with nz have "pack24 e \<noteq> 0"
    by (simp add: pack24_eq_0)
  then show ?thesis
    unfolding e lfsr_bytes_simps(3) lfsr_bytes_zeros lfsr_pow_0 lfsr_bytes_3
    by (simp add: lfsr_pow_eq_0 del: lfsr_bytes_simps)
qed

text \<open>A corrupted window of three consecutive bytes is always caught.\<close>

lemma crc24_burst:
  assumes ok: "crc24 f = 0" and e: "length e = 3" "e \<noteq> [0, 0, 0]" and i: "i + 3 \<le> length f"
  shows "crc24 (map2 (XOR) f (replicate i 0 @ e @ replicate (length f - i - 3) 0)) \<noteq> 0"
proof -
  let ?e = "replicate i 0 @ e @ replicate (length f - i - 3) 0"
  have "length f = length ?e"
    using e i by simp
  then have "crc24 (map2 (XOR) f ?e) = crc24 f XOR crc24 ?e"
    by (rule crc24_xor)
  with ok have "crc24 (map2 (XOR) f ?e) = crc24 ?e"
    by simp
  with lfsr_burst [OF e(2,1)] show ?thesis
    by (simp only: crc24_eq_0) simp
qed

subsection \<open>The interface the frame code relies on\<close>

text \<open>
  What the frame builders and parsers need of the checksum: it is a 24-bit value, and
  a frame checks out exactly when its last three bytes are the checksum of the rest.
\<close>

locale parity_code =
  fixes crc :: "bytes \<Rightarrow> u32"
  assumes crc_24bit: "crc d AND 0xFFFFFF = crc d"
    and crc_seal: "length p = 3 \<Longrightarrow> crc (d @ p) = 0 \<longleftrightarrow> p = be24 (crc d)"
begin

lemma length_be24: "length (be24 v) = 3"
  by (simp add: be24_def)

lemma sealed_checks: "crc (d @ be24 (crc d)) = 0"
  by (simp add: crc_seal length_be24)

lemma check_iff_parity:
  "3 \<le> length f \<Longrightarrow>
   crc f = 0 \<longleftrightarrow> drop (length f - 3) f = be24 (crc (take (length f - 3) f))"
  using crc_seal [of "drop (length f - 3) f" "take (length f - 3) f"] by simp

text \<open>Two frames with the same body that both check out are the same frame.\<close>

lemma checked_frames_agree:
  "crc (d @ p) = 0 \<Longrightarrow> crc (d @ q) = 0 \<Longrightarrow> length p = 3 \<Longrightarrow> length q = 3 \<Longrightarrow> p = q"
  by (simp add: crc_seal)

lemma join_be24: "push_bit 16 (ucast (ucast (drop_bit 16 v) :: u8) :: u32)
    OR push_bit 8 (ucast (ucast (drop_bit 8 v) :: u8)) OR ucast (ucast v :: u8) = v AND 0xFFFFFF"
proof -
  have "push_bit 16 (ucast (ucast (drop_bit 16 v) :: u8) :: u32)
    OR push_bit 8 (ucast (ucast (drop_bit 8 v) :: u8)) OR ucast (ucast v :: u8) = v AND mask 24"
    by (rule bit_word_eqI, case_tac "16 \<le> n") (auto simp: bit_simps)
  then show ?thesis
    by (simp add: mask_eq_exp_minus_1)
qed

end

interpretation crc24: parity_code crc24
  by unfold_locales (simp_all add: crc24_24bit crc24_seal_iff)

subsection \<open>Properties\<close>

text \<open>
  C22. The remainder over a whole frame is zero exactly when its three trailing bytes are
  the big-endian CRC of the bytes before them, so the receiver's one check over all bytes
  and the sender's appended parity are the same condition.
\<close>

theorem crc24_whole_frame_iff_parity:
  "length p = 3 \<Longrightarrow> crc24 (d @ p) = 0 \<longleftrightarrow> p = be24 (crc24 d)"
  by (rule crc24_seal_iff)

theorem crc24_whole_frame_iff_parity_witness:
  "crc24 ([0x5D, 0x3C, 0x64, 0x44] @ [0, 0, 1]) \<noteq> 0 \<and>
   crc24 ([0x5D, 0x3C, 0x64, 0x44] @ be24 (crc24 [0x5D, 0x3C, 0x64, 0x44])) = 0"
proof -
  have "be24 (crc24 [0x5D, 0x3C, 0x64, 0x44]) \<noteq> [0, 0, 1]"
    by (simp add: crc_eval)
  then show ?thesis
    using crc24_whole_frame_iff_parity [of "[0, 0, 1]" "[0x5D, 0x3C, 0x64, 0x44]"]
      crc24_whole_frame_iff_parity [of "be24 (crc24 [0x5D, 0x3C, 0x64, 0x44])" "[0x5D, 0x3C, 0x64, 0x44]"]
    by (auto simp: be24_def)
qed

end
