(* ===== verification/Altitude.thy ===== *)
theory Altitude
  imports Prelude
begin

text \<open>
  The altitude fields of \<^verbatim>\<open>crates/mb-modes/src/alt.rs\<close>: AC12 (DF17) and AC13
  (DF4), the 25-foot path. Altitudes are \<open>i32\<close> values, so the addition wraps and the
  division truncates towards zero; the field is a \<open>u16\<close>.
\<close>

unbundle bit_operations_syntax

definition alt_n :: "int \<Rightarrow> int" where
  "alt_n alt_ft = trunc_div (wrap_i32 (alt_ft + 1000)) 25"

definition ac12 :: "int \<Rightarrow> u16 option" where
  "ac12 alt_ft =
     (let n = alt_n alt_ft
      in if \<not> (0 \<le> n \<and> n \<le> 2047) then None
         else let n = (word_of_int n :: u16)
              in Some (push_bit 1 (n AND 0x7F0) OR 0x010 OR (n AND 0x00F)))"

definition ac13 :: "int \<Rightarrow> u16 option" where
  "ac13 alt_ft =
     (let n = alt_n alt_ft
      in if \<not> (0 \<le> n \<and> n \<le> 2047) then None
         else let n = (word_of_int n :: u16)
              in Some (push_bit 2 (n AND 0x7E0) OR push_bit 1 (n AND 0x010) OR 0x010 OR (n AND 0x00F)))"

definition quantize_25ft :: "real \<Rightarrow> int" where
  "quantize_25ft alt_ft =
     wrap_i32 (wrap_i32 (as_i32 (of_int (round_real ((alt_ft + 1000) / 25))) * 25) - 1000)"

definition ac12_decode :: "u16 \<Rightarrow> int option" where
  "ac12_decode field =
     (if field AND 0x010 = 0 then None
      else let n = drop_bit 1 (field AND 0xFE0) OR (field AND 0x00F)
           in Some (25 * uint n - 1000))"

definition ac13_decode :: "u16 \<Rightarrow> int option" where
  "ac13_decode field =
     (if field AND 0x040 \<noteq> 0 \<or> field AND 0x010 = 0 then None
      else let n = drop_bit 2 (field AND 0x1F80) OR drop_bit 1 (field AND 0x020) OR (field AND 0x00F)
           in Some (25 * uint n - 1000))"

subsection \<open>The field layouts are injective\<close>

definition ac12_pack :: "u16 \<Rightarrow> u16" where
  "ac12_pack n = push_bit 1 (n AND 0x7F0) OR 0x010 OR (n AND 0x00F)"

definition ac13_pack :: "u16 \<Rightarrow> u16" where
  "ac13_pack n = push_bit 2 (n AND 0x7E0) OR push_bit 1 (n AND 0x010) OR 0x010 OR (n AND 0x00F)"

lemma lits_16:
  "(0x7F0 :: u16) = push_bit 4 (mask 7)" "(0xFE0 :: u16) = push_bit 5 (mask 7)"
  "(0x00F :: u16) = mask 4" "(0x7E0 :: u16) = push_bit 5 (mask 6)"
  "(0x1F80 :: u16) = push_bit 7 (mask 6)" "(0x010 :: u16) = push_bit 4 1"
  "(0x020 :: u16) = push_bit 5 1" "(0x040 :: u16) = push_bit 6 1"
  by (simp_all add: mask_eq_exp_minus_1)

lemma bit_lits_16:
  "bit (0x7F0 :: u16) i \<longleftrightarrow> 4 \<le> i \<and> i < 11"
  "bit (0xFE0 :: u16) i \<longleftrightarrow> 5 \<le> i \<and> i < 12"
  "bit (0x00F :: u16) i \<longleftrightarrow> i < 4"
  "bit (0x010 :: u16) i \<longleftrightarrow> i = 4"
  "bit (0x020 :: u16) i \<longleftrightarrow> i = 5"
  "bit (0x040 :: u16) i \<longleftrightarrow> i = 6"
  "bit (0x7E0 :: u16) i \<longleftrightarrow> 5 \<le> i \<and> i < 11"
  "bit (0x1F80 :: u16) i \<longleftrightarrow> 7 \<le> i \<and> i < 13"
  unfolding lits_16 bit_push_bit_iff bit_mask_iff bit_1_iff by auto

lemma and_bit_eq_0:
  "w AND 0x010 = 0 \<longleftrightarrow> \<not> bit w 4" "w AND 0x040 = 0 \<longleftrightarrow> \<not> bit w 6" for w :: u16
  using and_exp_eq_0_iff_not_bit [of w 4] and_exp_eq_0_iff_not_bit [of w 6] by simp_all

lemma ac12_unpack:
  assumes n: "n < 2 ^ 11"
  shows "drop_bit 1 (ac12_pack n AND 0xFE0) OR (ac12_pack n AND 0x00F) = n"
proof (rule bit_word_eqI)
  fix i assume "i < LENGTH(16)"
  then show "bit (drop_bit 1 (ac12_pack n AND 0xFE0) OR (ac12_pack n AND 0x00F)) i = bit n i"
    using word_less_bitD [OF n, of i] by (simp only: ac12_pack_def bit_only bit_lits_16) auto
qed

lemma ac13_unpack:
  assumes n: "n < 2 ^ 11"
  shows "drop_bit 2 (ac13_pack n AND 0x1F80) OR drop_bit 1 (ac13_pack n AND 0x020)
    OR (ac13_pack n AND 0x00F) = n"
proof (rule bit_word_eqI)
  fix i assume "i < LENGTH(16)"
  then show "bit (drop_bit 2 (ac13_pack n AND 0x1F80) OR drop_bit 1 (ac13_pack n AND 0x020)
    OR (ac13_pack n AND 0x00F)) i = bit n i"
    using word_less_bitD [OF n, of i]
    by (simp only: ac13_pack_def bit_only bit_lits_16) (cases "i = 4"; simp; fastforce)
qed

lemma ac12_pack_shape: "bit (ac12_pack n) 4" "ac12_pack n < 2 ^ 12"
  by (simp add: ac12_pack_def bit_only bit_lits_16)
    (rule word_less_bitI, simp, simp only: ac12_pack_def bit_only bit_lits_16, fastforce)

lemma ac13_pack_shape: "bit (ac13_pack n) 4" "\<not> bit (ac13_pack n) 6" "ac13_pack n < 2 ^ 13"
    apply (simp only: ac13_pack_def bit_only bit_lits_16, simp)
   apply (simp only: ac13_pack_def bit_only bit_lits_16, simp)
  apply (rule word_less_bitI, simp, simp only: ac13_pack_def bit_only bit_lits_16, fastforce)
  done

lemma alt_n_word: "0 \<le> n \<Longrightarrow> n \<le> 2047 \<Longrightarrow> (word_of_int n :: u16) < 2 ^ 11 \<and> uint (word_of_int n :: u16) = n"
  by (simp add: word_less_def uint_word_of_int)

subsection \<open>Branches of the encoders\<close>

lemma ac12_Some_iff:
  "ac12 a = Some f \<longleftrightarrow> 0 \<le> alt_n a \<and> alt_n a \<le> 2047 \<and> f = ac12_pack (word_of_int (alt_n a))"
  by (auto simp: ac12_def ac12_pack_def Let_def)

lemma ac13_Some_iff:
  "ac13 a = Some f \<longleftrightarrow> 0 \<le> alt_n a \<and> alt_n a \<le> 2047 \<and> f = ac13_pack (word_of_int (alt_n a))"
  by (auto simp: ac13_def ac13_pack_def Let_def)

lemma ac12_decode_pack: "n < 2 ^ 11 \<Longrightarrow> ac12_decode (ac12_pack n) = Some (25 * uint n - 1000)"
  by (simp only: ac12_decode_def and_bit_eq_0 ac12_pack_shape ac12_unpack Let_def simp_thms if_False)

lemma ac13_decode_pack: "n < 2 ^ 11 \<Longrightarrow> ac13_decode (ac13_pack n) = Some (25 * uint n - 1000)"
  by (simp only: ac13_decode_def and_bit_eq_0 ac13_pack_shape ac13_unpack Let_def simp_thms if_False)

lemma ac12_decoded: "ac12 a = Some f \<Longrightarrow> ac12_decode f = Some (25 * alt_n a - 1000) \<and> f < 2 ^ 12"
  using alt_n_word [of "alt_n a"] ac12_pack_shape(2) by (auto simp: ac12_Some_iff ac12_decode_pack)

lemma ac13_decoded: "ac13 a = Some f \<Longrightarrow> ac13_decode f = Some (25 * alt_n a - 1000) \<and> f < 2 ^ 13"
  using alt_n_word [of "alt_n a"] ac13_pack_shape(3) by (auto simp: ac13_Some_iff ac13_decode_pack)

lemma alt_n_in_range:
  assumes "- (2 ^ 31) \<le> a" "a < 2 ^ 31"
  shows "0 \<le> alt_n a \<and> alt_n a \<le> 2047 \<longleftrightarrow> -1024 \<le> a \<and> a \<le> 50199"
proof (cases "a + 1000 < 2 ^ 31")
  case True
  with assms have w: "wrap_i32 (a + 1000) = a + 1000"
    by (simp add: wrap_i32_id)
  show ?thesis
    by (cases "0 \<le> a + 1000") (auto simp: alt_n_def w trunc_div_nonneg trunc_div_neg)
next
  case False
  have "(a + 1000 + 2 ^ 31) mod 2 ^ 32 = (a + 1000 - 2 ^ 31 + 2 ^ 32) mod 2 ^ 32"
    by simp
  also have "\<dots> = a + 1000 - 2 ^ 31"
    unfolding mod_add_self2 using assms False by (intro mod_pos_pos_trivial) simp_all
  finally have "(a + 1000 + 2 ^ 31) mod 2 ^ 32 = a + 1000 - 2 ^ 31" .
  then have w: "wrap_i32 (a + 1000) = a + 1000 - 2 ^ 32"
    by (simp add: wrap_i32_def)
  with assms False show ?thesis
    by (simp add: alt_n_def w trunc_div_neg)
qed

subsection \<open>Properties\<close>

lemma on_grid:
  assumes "-1024 \<le> a" "a \<le> 50199"
  shows "25 * alt_n a - 1000 = max (-1000) (a - (a + 1000) mod 25)"
proof -
  have w: "wrap_i32 (a + 1000) = a + 1000"
    using assms by (simp add: wrap_i32_id)
  have d: "25 * ((a + 1000) div 25) = a + 1000 - (a + 1000) mod 25"
    using mult_div_mod_eq [of 25 "a + 1000"] by linarith
  show ?thesis
  proof (cases "0 \<le> a + 1000")
    case True
    then have "0 \<le> (a + 1000) div 25"
      by (simp add: pos_imp_zdiv_nonneg_iff)
    then show ?thesis
      using d True by (simp add: alt_n_def w trunc_div_nonneg)
  next
    case False
    have "0 \<le> (a + 1000) mod 25"
      by simp
    then show ?thesis
      using assms False by (simp add: alt_n_def w trunc_div_neg)
  qed
qed

text \<open>
  C23. Altitude round trip, for every \<open>i32\<close> the encoders can be given, the wrap-around of
  \<open>alt_ft + 1000\<close> included: exactly the altitudes from -1024 ft to 50199 ft are accepted. The
  AC12 field then fits in 12 bits and the AC13 field in 13, and decoding either gives the
  altitude rounded down to the 25-foot grid, so an altitude on the grid gives itself; below
  -1000 ft, where the grid ends, the truncating division rounds up to -1000 ft instead.
\<close>

theorem altitude_roundtrip:
  assumes "- (2 ^ 31) \<le> a" "a < 2 ^ 31"
  shows "(case ac12 a of
      None \<Rightarrow> a < -1024 \<or> 50199 < a
    | Some f \<Rightarrow> -1024 \<le> a \<and> a \<le> 50199 \<and> f < 2 ^ 12 \<and> ac12_decode f = Some (max (-1000) (a - (a + 1000) mod 25))) \<and>
    (case ac13 a of
      None \<Rightarrow> a < -1024 \<or> 50199 < a
    | Some f \<Rightarrow> -1024 \<le> a \<and> a \<le> 50199 \<and> f < 2 ^ 13 \<and> ac13_decode f = Some (max (-1000) (a - (a + 1000) mod 25)))"
proof -
  have n: "0 \<le> alt_n a \<and> alt_n a \<le> 2047 \<longleftrightarrow> -1024 \<le> a \<and> a \<le> 50199"
    by (rule alt_n_in_range [OF assms])
  have "ac12 a = None \<longleftrightarrow> \<not> (-1024 \<le> a \<and> a \<le> 50199)" "ac13 a = None \<longleftrightarrow> \<not> (-1024 \<le> a \<and> a \<le> 50199)"
    using n by (auto simp: ac12_def ac13_def Let_def)
  then show ?thesis
    using on_grid [of a] ac12_decoded [of a] ac13_decoded [of a] by (auto split: option.split)
qed

theorem altitude_roundtrip_witness:
  "ac12 38013 = Some 0xC38 \<and> ac12_decode 0xC38 = Some 38000 \<and> ac13 38013 = Some 0x1838 \<and> ac13_decode 0x1838 = Some 38000"
proof -
  have f: "ac12 38013 = Some 0xC38" "ac13 38013 = Some 0x1838"
    by (simp_all add: ac12_def ac13_def alt_n_def wrap_i32_def trunc_div_def)
  with altitude_roundtrip [of 38013] show ?thesis
    by (simp add: f)
qed

text \<open>
  Below the encodable range the division does not floor. An altitude between -1024 ft
  and -1001 ft is accepted and transmitted as -1000 ft, although \<open>alt_ft = 25 * N - 1000\<close>
  has no such \<open>N\<close> and flooring would refuse it.
\<close>

theorem ac12_truncates_below_range:
  assumes "-1024 \<le> a" "a \<le> -1001"
  shows "ac12 a = ac12 (-1000) \<and> (a + 1000) div 25 < 0"
proof -
  have "alt_n a = 0"
    using assms by (simp add: alt_n_def wrap_i32_id trunc_div_neg)
  moreover have "alt_n (-1000) = 0"
    by (simp add: alt_n_def wrap_i32_id trunc_div_nonneg)
  ultimately show ?thesis
    using assms by (simp add: ac12_def)
qed

theorem ac12_truncates_below_range_witness: "ac12 (-1010) = ac12 (-1000) \<and> ac12 (-1010) = Some 0x010"
proof -
  have "ac12 (-1000) = Some 0x010"
    by (simp add: ac12_def alt_n_def wrap_i32_def trunc_div_def)
  with ac12_truncates_below_range [of "-1010"] show ?thesis
    by simp
qed

end
