(* ===== verification/Cpr.thy ===== *)
theory Cpr
  imports Prelude
begin

text \<open>
  Compact Position Reporting, airborne format: \<^verbatim>\<open>crates/mb-modes/src/cpr.rs\<close>.
  Latitudes and longitudes are real numbers (degrees), the 17-bit encoded values are
  \<open>u32\<close> in the code and natural numbers here, always reduced modulo \<open>2 ^ 17\<close> by the
  encoder and masked to 17 bits by the frame parser.
\<close>

definition NZ :: real where "NZ = 15"
definition TWO17 :: real where "TWO17 = 131072"

definition nl :: "real \<Rightarrow> nat" where
  "nl lat_deg =
     (let lat = \<bar>lat_deg\<bar>
      in if lat < 10.47047130 then 59
         else if lat > 87 then 1
         else let a = 1 - cos (pi / (2 * NZ));
                  b = (cos (pi * lat / 180)) ^ 2;
                  x = 1 - a / b
              in if \<not> (-1 \<le> x \<and> x \<le> 1) then 1
                 else let n = 2 * pi / arccos x
                      in min 59 (max 1 (nat \<lfloor>n\<rfloor>)))"

definition modp :: "real \<Rightarrow> real \<Rightarrow> real" where
  "modp x m = (let r = fmod x m in if r < 0 then r + m else r)"

text \<open>One coordinate of the encoder: the 17-bit fraction of a zone of the given width.\<close>

definition cpr_frac :: "real \<Rightarrow> real \<Rightarrow> nat" where
  "cpr_frac v width = as_u64 (of_int \<lfloor>TWO17 * modp v width / width + 1 / 2\<rfloor>) mod 2 ^ 17"

definition cpr_dlat :: "bool \<Rightarrow> real" where
  "cpr_dlat oddf = 360 / (4 * NZ - (if oddf then 1 else 0))"

text \<open>The latitude at which the encoder evaluates the zone count.\<close>

definition encode_rlat :: "real \<Rightarrow> bool \<Rightarrow> real" where
  "encode_rlat lat_deg oddf =
     (let dlat = cpr_dlat oddf; yz = cpr_frac lat_deg dlat
      in dlat * (of_nat yz / TWO17 + of_int \<lfloor>lat_deg / dlat\<rfloor>))"

definition cpr_nlon :: "nat \<Rightarrow> bool \<Rightarrow> nat" where
  "cpr_nlon nl_here oddf = (if oddf then max (nl_here - 1) 1 else max nl_here 1)"

definition encode_airborne :: "real \<Rightarrow> real \<Rightarrow> bool \<Rightarrow> nat \<times> nat" where
  "encode_airborne lat_deg lon_deg oddf =
     (let yz = cpr_frac lat_deg (cpr_dlat oddf);
          nlon = cpr_nlon (nl (encode_rlat lat_deg oddf)) oddf;
          xz = cpr_frac lon_deg (360 / of_nat nlon)
      in (yz, xz))"

definition wrap_above :: "real \<Rightarrow> real \<Rightarrow> real" where
  "wrap_above limit v = (if v \<ge> limit then v - 360 else v)"

definition decode_rlat :: "nat \<Rightarrow> nat \<Rightarrow> real \<times> real" where
  "decode_rlat yz_e yz_o =
     (let j = of_int \<lfloor>(59 * of_nat yz_e - 60 * of_nat yz_o) / TWO17 + 1 / 2\<rfloor>;
          rlat_e = 360 / 60 * (modp j 60 + of_nat yz_e / TWO17);
          rlat_o = 360 / 59 * (modp j 59 + of_nat yz_o / TWO17)
      in (wrap_above 270 rlat_e, wrap_above 270 rlat_o))"

definition global_decode_airborne :: "nat \<times> nat \<Rightarrow> nat \<times> nat \<Rightarrow> bool \<Rightarrow> (real \<times> real) option" where
  "global_decode_airborne evenf oddf recent_odd =
     (let (yz_e, xz_e) = evenf; (yz_o, xz_o) = oddf; (rlat_e, rlat_o) = decode_rlat yz_e yz_o
      in if \<bar>rlat_e\<bar> > 90 \<or> \<bar>rlat_o\<bar> > 90 then None
         else if nl rlat_e \<noteq> nl rlat_o then None
         else let nl_v = real (nl rlat_e);
                  m = of_int \<lfloor>(of_nat xz_e * (nl_v - 1) - of_nat xz_o * nl_v) / TWO17 + 1 / 2\<rfloor>;
                  (lat, lon) =
                    (if recent_odd
                     then let ni = max (nl_v - 1) 1
                          in (rlat_o, 360 / ni * (modp m ni + of_nat xz_o / TWO17))
                     else let ni = max nl_v 1
                          in (rlat_e, 360 / ni * (modp m ni + of_nat xz_e / TWO17)))
              in Some (lat, wrap_above 180 lon))"

subsection \<open>Positive modulo\<close>

lemma modp_rem_euclid: "0 < m \<Longrightarrow> modp x m = rem_euclid x m"
proof (cases "0 \<le> x / m")
  case True
  assume "0 < m"
  with True rem_euclid_range [of m x] show ?thesis
    by (simp add: modp_def fmod_def rem_euclid_def Let_def)
next
  case False
  assume m: "0 < m"
  have fl: "\<lfloor>x / m\<rfloor> = (if x < m * of_int \<lceil>x / m\<rceil> then \<lceil>x / m\<rceil> - 1 else \<lceil>x / m\<rceil>)"
  proof -
    have "x < m * of_int \<lceil>x / m\<rceil> \<longleftrightarrow> x / m < of_int \<lceil>x / m\<rceil>"
      using m by (simp add: pos_divide_less_eq mult.commute)
    then show ?thesis
      by (auto; linarith)
  qed
  show ?thesis
    using m False by (simp add: modp_def fmod_def rem_euclid_def Let_def fl algebra_simps)
qed

lemma modp_of_int: "0 < m \<Longrightarrow> modp (of_int j) (of_int m) = of_int (j mod m)"
  by (simp add: modp_rem_euclid rem_euclid_def floor_divide_of_int_eq minus_div_mult_eq_mod [symmetric]
      algebra_simps flip: of_int_mult of_int_diff)

subsection \<open>One coordinate\<close>

text \<open>
  The encoder's fraction is the nearest grid index of the coordinate, reduced to 17 bits:
  no information but the zone is lost.
\<close>

definition grid_index :: "real \<Rightarrow> real \<Rightarrow> int" where
  "grid_index v width = \<lfloor>2 ^ 17 * v / width + 1 / 2\<rfloor>"

lemma as_u64_of_int: "0 \<le> k \<Longrightarrow> k < 2 ^ 64 \<Longrightarrow> int (as_u64 (of_int k)) = k"
  by (simp add: as_u64_def trunc_real_def saturate_def)

lemma cpr_frac_grid: "0 < width \<Longrightarrow> int (cpr_frac v width) = grid_index v width mod 2 ^ 17"
proof -
  assume w: "0 < width"
  let ?z = "\<lfloor>v / width\<rfloor>"
  have "TWO17 * modp v width / width + 1 / 2 = 2 ^ 17 * v / width + 1 / 2 + of_int (- (2 ^ 17 * ?z))"
    using w by (simp add: TWO17_def modp_rem_euclid rem_euclid_def diff_divide_distrib right_diff_distrib)
  then have f: "\<lfloor>TWO17 * modp v width / width + 1 / 2\<rfloor> = grid_index v width - 2 ^ 17 * ?z"
    by (simp only: grid_index_def flip: floor_add_int)
  have r: "0 \<le> modp v width / width" "modp v width / width < 1"
    using rem_euclid_range [OF w, of v] w by (simp_all add: modp_rem_euclid)
  then have "0 \<le> \<lfloor>TWO17 * modp v width / width + 1 / 2\<rfloor>" "\<lfloor>TWO17 * modp v width / width + 1 / 2\<rfloor> < 2 ^ 64"
    by (simp_all add: TWO17_def floor_less_iff flip: times_divide_eq_right)
  then have "int (as_u64 (of_int \<lfloor>TWO17 * modp v width / width + 1 / 2\<rfloor>)) = grid_index v width - 2 ^ 17 * ?z"
    by (simp only: as_u64_of_int f)
  then show ?thesis
    by (simp add: cpr_frac_def zmod_int mod_diff_eq mod_mult_self4 flip: mod_diff_right_eq)
qed

lemma grid_index_near: "0 < width \<Longrightarrow> \<bar>of_int (grid_index v width) * width / 2 ^ 17 - v\<bar> \<le> width / 2 ^ 18"
proof -
  assume w: "0 < width"
  let ?g = "of_int (grid_index v width) :: real"
  have "?g \<le> 2 ^ 17 * v / width + 1 / 2" "2 ^ 17 * v / width - 1 / 2 \<le> ?g"
    unfolding grid_index_def by linarith+
  then have "?g * width \<le> 2 ^ 17 * v + width / 2" "2 ^ 17 * v - width / 2 \<le> ?g * width"
    using w by (simp_all add: field_simps)
  then show ?thesis
    unfolding abs_le_iff by (intro conjI) (simp_all add: mult.commute [of width])
qed

lemma cpr_frac_less: "cpr_frac v width < 2 ^ 17"
  by (simp add: cpr_frac_def)

subsection \<open>The zone index of a pair\<close>

text \<open>
  A pair of encodings of one coordinate, with \<open>p\<close> zones in the even and \<open>q = p - 1\<close>
  in the odd message, determines both zone numbers: the combination the decoder rounds is
  within \<open>(p + q) / 2\<close> units of a multiple of \<open>2 ^ 17\<close>.
\<close>

lemma grid_indexes_agree:
  assumes "0 < p" "0 < q"
  shows "\<bar>of_int q * of_int (grid_index v (360 / of_int p)) - of_int p * of_int (grid_index v (360 / of_int q))\<bar>
    \<le> (of_int p + of_int q) / (2 :: real)"
proof -
  let ?e = "2 ^ 17 * v / (360 / of_int p) :: real" and ?o = "2 ^ 17 * v / (360 / of_int q) :: real"
  have e: "\<bar>of_int (grid_index v (360 / of_int p)) - ?e\<bar> \<le> 1 / 2"
    and o: "\<bar>of_int (grid_index v (360 / of_int q)) - ?o\<bar> \<le> 1 / 2"
    unfolding grid_index_def by linarith+
  have "\<bar>of_int q * (of_int (grid_index v (360 / of_int p)) - ?e)\<bar> \<le> of_int q * (1 / 2)"
    unfolding abs_mult using e assms by (intro mult_mono) auto
  moreover have "\<bar>of_int p * (of_int (grid_index v (360 / of_int q)) - ?o)\<bar> \<le> of_int p * (1 / 2)"
    unfolding abs_mult using o assms by (intro mult_mono) auto
  moreover have "of_int q * ?e = of_int p * ?o"
    by simp
  moreover have "\<bar>a - b\<bar> \<le> (y + x) / 2"
    if "\<bar>a - c\<bar> \<le> x * (1 / 2)" "\<bar>b - d\<bar> \<le> y * (1 / 2)" "c = d" for a b c d x y :: real
    using that unfolding abs_le_iff by simp
  ultimately show ?thesis
    by (simp only: right_diff_distrib)
qed

definition zone_index :: "int \<Rightarrow> int \<Rightarrow> int \<Rightarrow> int \<Rightarrow> int" where
  "zone_index p q ye yo = \<lfloor>(of_int q * of_int ye - of_int p * of_int yo) / (2 ^ 17) + 1 / (2 :: real)\<rfloor>"

lemma half_cell: "\<bar>x\<bar> < 2 ^ 16 \<Longrightarrow> \<lfloor>x / 2 ^ 17 + 1 / (2 :: real)\<rfloor> = 0"
  by (rule floor_unique) (simp_all add: abs_less_iff)

lemma zone_index_pair:
  assumes "\<bar>real_of_int (q * Ne - p * No)\<bar> < 2 ^ 16"
  shows "zone_index p q (Ne mod 2 ^ 17) (No mod 2 ^ 17) = p * (No div 2 ^ 17) - q * (Ne div 2 ^ 17)"
proof -
  let ?j = "p * (No div 2 ^ 17) - q * (Ne div 2 ^ 17)"
  have "Ne mod 2 ^ 17 = Ne - 2 ^ 17 * (Ne div 2 ^ 17)" "No mod 2 ^ 17 = No - 2 ^ 17 * (No div 2 ^ 17)"
    by (simp_all only: minus_mult_div_eq_mod)
  moreover have "q * a - p * b = q * A - p * B + M * (p * db - q * da)"
    if "a = A - M * da" "b = B - M * db" for a b A B M da db
    unfolding that by (simp add: algebra_simps)
  ultimately have "q * (Ne mod 2 ^ 17) - p * (No mod 2 ^ 17) = q * Ne - p * No + 2 ^ 17 * ?j"
    by metis
  then have "real_of_int (q * (Ne mod 2 ^ 17) - p * (No mod 2 ^ 17)) = real_of_int (q * Ne - p * No) + 2 ^ 17 * real_of_int ?j"
    by (simp only: of_int_add of_int_mult of_int_power of_int_numeral)
  then have "(of_int q * of_int (Ne mod 2 ^ 17) - of_int p * of_int (No mod 2 ^ 17)) / 2 ^ 17 + 1 / 2
      = real_of_int (q * Ne - p * No) / 2 ^ 17 + 1 / 2 + real_of_int ?j"
    by (simp add: add_divide_distrib flip: of_int_mult of_int_diff)
  then have "zone_index p q (Ne mod 2 ^ 17) (No mod 2 ^ 17) = \<lfloor>real_of_int (q * Ne - p * No) / 2 ^ 17 + 1 / 2\<rfloor> + ?j"
    unfolding zone_index_def by (simp only: floor_add_int)
  moreover have "\<lfloor>real_of_int (q * Ne - p * No) / 2 ^ 17 + 1 / 2\<rfloor> = 0"
    using assms half_cell by blast
  ultimately show ?thesis
    by simp
qed

lemma mod_times_2p17: "0 < z \<Longrightarrow> N mod (2 ^ 17 * z) = 2 ^ 17 * (N div 2 ^ 17 mod z) + N mod (2 ^ 17 :: int)"
  by (simp add: zmod_zmult2_eq)

lemma one_turn:
  assumes z: "0 < z"
  shows "360 / of_int z * (of_int (N div 2 ^ 17 mod z) + of_int (N mod 2 ^ 17) / 2 ^ 17)
    = rem_euclid (of_int N * (360 / of_int z) / 2 ^ 17) (360 :: real)"
proof -
  have "of_int N * (360 / of_int z) / 2 ^ 17 / 360 = (of_int N / of_int (2 ^ 17 * z) :: real)"
    by simp
  then have "\<lfloor>of_int N * (360 / of_int z) / 2 ^ 17 / (360 :: real)\<rfloor> = N div (2 ^ 17 * z)"
    by (simp only: floor_divide_of_int_eq)
  then have "rem_euclid (of_int N * (360 / of_int z) / 2 ^ 17) 360
      = 360 / (2 ^ 17 * of_int z) * of_int (N - 2 ^ 17 * z * (N div (2 ^ 17 * z)))"
    unfolding rem_euclid_def using z by (simp add: field_simps)
  also have "N - 2 ^ 17 * z * (N div (2 ^ 17 * z)) = N mod (2 ^ 17 * z)"
    by (simp only: minus_mult_div_eq_mod)
  also have "360 / (2 ^ 17 * of_int z) * of_int (N mod (2 ^ 17 * z))
      = (360 / of_int z * (of_int (N div 2 ^ 17 mod z) + of_int (N mod 2 ^ 17) / 2 ^ 17) :: real)"
    unfolding mod_times_2p17 [OF z] using z by (simp add: field_simps)
  finally show ?thesis ..
qed
text \<open>
  So the decoder's even and odd coordinates are the encoders' grid points, reduced to one
  turn.
\<close>

lemma decode_coordinate:
  fixes v :: real and p q :: int
  assumes p: "0 < p" "0 < q" "p = q + 1" and b: "(of_int p + of_int q) / 2 < (2 ^ 16 :: real)"
  defines "Ne \<equiv> grid_index v (360 / of_int p)" and "No \<equiv> grid_index v (360 / of_int q)"
  defines "j \<equiv> zone_index p q (Ne mod 2 ^ 17) (No mod 2 ^ 17)"
  shows "360 / of_int p * (modp (of_int j) (of_int p) + of_int (Ne mod 2 ^ 17) / 2 ^ 17)
      = rem_euclid (of_int Ne * (360 / of_int p) / 2 ^ 17) 360"
    and "360 / of_int q * (modp (of_int j) (of_int q) + of_int (No mod 2 ^ 17) / 2 ^ 17)
      = rem_euclid (of_int No * (360 / of_int q) / 2 ^ 17) 360"
proof -
  have "\<bar>real_of_int (q * Ne - p * No)\<bar> < 2 ^ 16"
    using grid_indexes_agree [OF p(1,2), of v] b unfolding Ne_def No_def
    by (simp only: of_int_mult of_int_diff)
  then have j: "j = p * (No div 2 ^ 17) - q * (Ne div 2 ^ 17)"
    unfolding j_def by (rule zone_index_pair)
  have "j = Ne div 2 ^ 17 + p * (No div 2 ^ 17 - Ne div 2 ^ 17)"
    using p(3) by (simp add: j algebra_simps)
  then have jp: "j mod p = Ne div 2 ^ 17 mod p"
    by (simp only: mod_mult_self2)
  have "j = No div 2 ^ 17 + q * (No div 2 ^ 17 - Ne div 2 ^ 17)"
    using p(3) by (simp add: j algebra_simps)
  then have jq: "j mod q = No div 2 ^ 17 mod q"
    by (simp only: mod_mult_self2)
  show "360 / of_int p * (modp (of_int j) (of_int p) + of_int (Ne mod 2 ^ 17) / 2 ^ 17)
      = rem_euclid (of_int Ne * (360 / of_int p) / 2 ^ 17) 360"
    using p(1,2) by (simp only: modp_of_int jp one_turn)
  show "360 / of_int q * (modp (of_int j) (of_int q) + of_int (No mod 2 ^ 17) / 2 ^ 17)
      = rem_euclid (of_int No * (360 / of_int q) / 2 ^ 17) 360"
    using p(1,2) by (simp only: modp_of_int jq one_turn)
qed

subsection \<open>Wrapping to the published range\<close>

lemma wrap_above_rem:
  assumes "limit - 360 \<le> s" "s < limit" "0 \<le> limit" "limit \<le> 360"
  shows "wrap_above limit (rem_euclid s 360) = s"
proof (cases "0 \<le> s")
  case True
  with assms show ?thesis
    by (simp add: rem_euclid_id wrap_above_def)
next
  case False
  with assms have "rem_euclid (s + 360 * of_int 1) 360 = s + 360"
    by (intro trans [OF rem_euclid_id]) simp_all
  then have "rem_euclid s 360 = s + 360"
    by (simp add: rem_euclid_shift del: of_int_1)
  with assms show ?thesis
    by (simp add: wrap_above_def)
qed

lemma wrap_above_turns: "\<exists>k :: int. wrap_above limit (rem_euclid s 360) = s + 360 * of_int k"
proof -
  have "rem_euclid s 360 = s + 360 * of_int (- \<lfloor>s / 360\<rfloor>)"
    by (simp add: rem_euclid_def)
  moreover have "rem_euclid s 360 - 360 = s + 360 * of_int (- \<lfloor>s / 360\<rfloor> - 1)"
    by (simp add: rem_euclid_def)
  ultimately show ?thesis
    unfolding wrap_above_def by metis
qed

subsection \<open>Latitude\<close>

definition grid_lat :: "real \<Rightarrow> bool \<Rightarrow> real" where
  "grid_lat lat oddf = of_int (grid_index lat (cpr_dlat oddf)) * cpr_dlat oddf / 2 ^ 17"

lemma cpr_dlat_simps: "cpr_dlat False = 360 / 60" "cpr_dlat True = 360 / 59"
  by (simp_all add: cpr_dlat_def NZ_def)

lemma cpr_dlat_pos: "0 < cpr_dlat oddf"
  by (cases oddf) (simp_all add: cpr_dlat_simps)

lemma grid_lat_near: "\<bar>grid_lat lat oddf - lat\<bar> \<le> cpr_dlat oddf / 2 ^ 18"
  unfolding grid_lat_def by (rule grid_index_near [OF cpr_dlat_pos])

lemma grid_lat_range:
  assumes "\<bar>lat\<bar> \<le> 90"
  shows "\<bar>grid_lat lat oddf\<bar> \<le> 90"
proof -
  have "\<bar>grid_index lat (360 / 60)\<bar> \<le> 15 * 2 ^ 17" "\<bar>grid_index lat (360 / 59)\<bar> \<le> 1933312"
    using assms unfolding grid_index_def abs_le_iff by (simp_all add: floor_le_iff le_floor_iff) linarith+
  then show ?thesis
    by (cases oddf) (simp_all add: grid_lat_def cpr_dlat_simps abs_le_iff)
qed

text \<open>The decoder recovers both grid latitudes exactly.\<close>

lemma real_cpr_frac: "0 < w \<Longrightarrow> real (cpr_frac v w) = of_int (grid_index v w mod 2 ^ 17)"
  by (metis cpr_frac_grid of_int_of_nat_eq)

lemma TWO17_pow: "TWO17 = 2 ^ 17"
  by (simp add: TWO17_def)

lemma decode_rlat_grid:
  assumes "\<bar>lat\<bar> \<le> 90"
  shows "decode_rlat (cpr_frac lat (cpr_dlat False)) (cpr_frac lat (cpr_dlat True))
    = (grid_lat lat False, grid_lat lat True)"
proof -
  have pos: "0 < (360 :: real) / 60" "0 < (360 :: real) / 59"
    by simp_all
  have "(0 :: int) < 60" "(0 :: int) < 59" "(60 :: int) = 59 + 1" "(of_int 60 + of_int 59) / 2 < (2 ^ 16 :: real)"
    by simp_all
  note dc = decode_coordinate [OF this, of lat, unfolded zone_index_def of_int_numeral]
  have "wrap_above 270 (rem_euclid (grid_lat lat f) 360) = grid_lat lat f" for f
    using grid_lat_range [OF assms, of f] by (intro wrap_above_rem) (simp_all add: abs_le_iff)
  note w = this [of False, unfolded grid_lat_def cpr_dlat_simps] this [of True, unfolded grid_lat_def cpr_dlat_simps]
  show ?thesis
    unfolding decode_rlat_def Let_def cpr_dlat_simps TWO17_pow grid_lat_def
      real_cpr_frac [OF pos(1)] real_cpr_frac [OF pos(2)] dc w ..
qed

text \<open>
  The encoder evaluates the zone count at that same grid latitude, unless rounding carried
  the 17-bit fraction into the next zone.
\<close>

definition carry_free :: "real \<Rightarrow> bool \<Rightarrow> bool" where
  "carry_free lat oddf \<longleftrightarrow> grid_index lat (cpr_dlat oddf) div 2 ^ 17 = \<lfloor>lat / cpr_dlat oddf\<rfloor>"

lemma real_div_mod: "real_of_int N = of_int M * of_int (N div M) + of_int (N mod M)"
  by (metis mult_div_mod_eq of_int_add of_int_mult)

lemma grid_lat_split:
  "grid_lat lat oddf = cpr_dlat oddf * (of_int (grid_index lat (cpr_dlat oddf) mod 2 ^ 17) / 2 ^ 17
    + of_int (grid_index lat (cpr_dlat oddf) div 2 ^ 17))"
proof -
  let ?N = "grid_index lat (cpr_dlat oddf)"
  have "real_of_int ?N = 2 ^ 17 * of_int (?N div 2 ^ 17) + of_int (?N mod 2 ^ 17)"
    using real_div_mod [of ?N "2 ^ 17"] by (simp only: of_int_power of_int_numeral)
  then show ?thesis
    unfolding grid_lat_def by (simp add: field_simps)
qed

lemma encode_rlat_split:
  "encode_rlat lat oddf = cpr_dlat oddf * (of_int (grid_index lat (cpr_dlat oddf) mod 2 ^ 17) / 2 ^ 17
    + of_int \<lfloor>lat / cpr_dlat oddf\<rfloor>)"
  unfolding encode_rlat_def Let_def TWO17_pow real_cpr_frac [OF cpr_dlat_pos] ..

lemma encode_rlat_grid: "carry_free lat oddf \<Longrightarrow> encode_rlat lat oddf = grid_lat lat oddf"
  by (simp add: carry_free_def encode_rlat_split grid_lat_split)

lemma grid_index_zone:
  assumes w: "0 < w"
  shows "grid_index v w div 2 ^ 17 = (if v / w - of_int \<lfloor>v / w\<rfloor> < 1 - 1 / 2 ^ 18 then \<lfloor>v / w\<rfloor> else \<lfloor>v / w\<rfloor> + 1)"
proof -
  define z f where "z = \<lfloor>v / w\<rfloor>" and "f = v / w - of_int \<lfloor>v / w\<rfloor>"
  have f: "0 \<le> f" "f < 1"
    unfolding f_def by linarith+
  have "2 ^ 17 * v / w + 1 / 2 = 2 ^ 17 * f + 1 / 2 + of_int (2 ^ 17 * z)"
    by (simp add: f_def z_def algebra_simps)
  then have "grid_index v w = \<lfloor>2 ^ 17 * f + 1 / 2\<rfloor> + 2 ^ 17 * z"
    unfolding grid_index_def by (simp only: floor_add_int)
  then have g: "grid_index v w div 2 ^ 17 = \<lfloor>2 ^ 17 * f + 1 / 2\<rfloor> div 2 ^ 17 + z"
    by simp
  have "\<lfloor>2 ^ 17 * f + 1 / 2\<rfloor> div 2 ^ 17 = (if f < 1 - 1 / 2 ^ 18 then 0 else 1)"
  proof (cases "f < 1 - 1 / 2 ^ 18")
    case True
    then have "\<lfloor>2 ^ 17 * f + 1 / 2\<rfloor> div 2 ^ 17 = 0"
      using f by (intro div_pos_pos_trivial) (simp_all add: floor_less_iff)
    with True show ?thesis
      by simp
  next
    case False
    then have "\<lfloor>2 ^ 17 * f + 1 / 2\<rfloor> = 2 ^ 17"
      using f by (intro floor_unique) simp_all
    with False show ?thesis
      by simp
  qed
  with g show ?thesis
    unfolding f_def z_def by simp
qed

lemma carry_free_iff:
  "carry_free lat oddf \<longleftrightarrow> lat / cpr_dlat oddf - of_int \<lfloor>lat / cpr_dlat oddf\<rfloor> < 1 - 1 / 2 ^ 18"
  unfolding carry_free_def grid_index_zone [OF cpr_dlat_pos] by simp

subsection \<open>Longitude\<close>

lemma nl_range: "1 \<le> nl lat \<and> nl lat \<le> 59"
  by (simp add: nl_def Let_def)

lemma nl_equator: "\<bar>lat\<bar> \<le> 10 \<Longrightarrow> nl lat = 59"
  by (simp add: nl_def)

lemma nl_abs: "nl \<bar>lat\<bar> = nl lat"
  by (simp add: nl_def)

definition grid_lon :: "real \<Rightarrow> nat \<Rightarrow> real" where
  "grid_lon lon n = of_int (grid_index lon (360 / of_nat n)) * (360 / of_nat n) / 2 ^ 17"

lemma grid_lon_near: "0 < n \<Longrightarrow> \<bar>grid_lon lon n - lon\<bar> \<le> 360 / of_nat n / 2 ^ 18"
  unfolding grid_lon_def by (rule grid_index_near) simp

text \<open>The decoder's longitude before wrapping, for a zone count and a choice of message.\<close>

definition decode_lon :: "nat \<Rightarrow> nat \<Rightarrow> nat \<Rightarrow> bool \<Rightarrow> real" where
  "decode_lon n xz_e xz_o recent_odd =
     (let m = of_int \<lfloor>((real n - 1) * of_nat xz_e - real n * of_nat xz_o) / TWO17 + 1 / 2\<rfloor>
      in if recent_odd
         then let ni = max (real n - 1) 1 in 360 / ni * (modp m ni + of_nat xz_o / TWO17)
         else let ni = max (real n) 1 in 360 / ni * (modp m ni + of_nat xz_e / TWO17))"

lemma global_decode_unfold:
  "global_decode_airborne (yz_e, xz_e) (yz_o, xz_o) r =
     (let (rlat_e, rlat_o) = decode_rlat yz_e yz_o
      in if \<bar>rlat_e\<bar> > 90 \<or> \<bar>rlat_o\<bar> > 90 \<or> nl rlat_e \<noteq> nl rlat_o then None
         else Some (if r then rlat_o else rlat_e, wrap_above 180 (decode_lon (nl rlat_e) xz_e xz_o r)))"
  by (simp add: global_decode_airborne_def decode_lon_def Let_def mult.commute split: prod.split)

lemma decode_lon_grid:
  assumes n: "1 \<le> n" "n \<le> 59"
  shows "decode_lon n (cpr_frac lon (360 / of_nat (cpr_nlon n False)))
      (cpr_frac lon (360 / of_nat (cpr_nlon n True))) r
    = rem_euclid (grid_lon lon (cpr_nlon n r)) 360"
proof (cases "n = 1")
  case True
  have "modp (of_int j) 1 = 0" for j
    using modp_of_int [of 1 j] by simp
  moreover have "360 * (real (cpr_frac lon 360) / 2 ^ 17) = rem_euclid (grid_lon lon 1) 360"
    using one_turn [of 1 "grid_index lon 360"] by (simp add: grid_lon_def real_cpr_frac)
  ultimately show ?thesis
    using True by (simp add: decode_lon_def cpr_nlon_def TWO17_pow Let_def)
next
  case False
  with n have q: "2 \<le> n"
    by simp
  let ?p = "int n" and ?q = "int n - 1"
  have "0 < ?p" "0 < ?q" "?p = ?q + 1" "(of_int ?p + of_int ?q) / 2 < (2 ^ 16 :: real)"
    using q n by simp_all
  note dc = decode_coordinate [OF this, of lon, unfolded zone_index_def]
  have w: "cpr_nlon n False = n" "cpr_nlon n True = n - 1" "real (n - 1) = real n - 1"
    "max (real n) 1 = real n" "max (real n - 1) 1 = real n - 1"
    using q by (auto simp: cpr_nlon_def)
  have pe: "0 < 360 / real n" and po: "0 < 360 / (real n - 1)"
    using q by simp_all
  have c: "real_of_int ?p = real n" "real_of_int ?q = real n - 1"
    by simp_all
  show ?thesis
    by (cases r) (simp_all only: decode_lon_def Let_def if_True if_False w TWO17_pow grid_lon_def
        real_cpr_frac [OF pe] real_cpr_frac [OF po] dc [unfolded c])
qed

lemma part_of_turn:
  fixes a b n :: real
  assumes "0 \<le> a" "a \<le> n - 1" "0 \<le> b" "b < 1" "1 \<le> n"
  shows "0 \<le> 360 / n * (a + b) \<and> 360 / n * (a + b) < 360"
  using assms by (simp add: field_simps)

lemma decode_lon_range:
  assumes "1 \<le> n" "xz_e < 2 ^ 17" "xz_o < 2 ^ 17"
  shows "0 \<le> decode_lon n xz_e xz_o r \<and> decode_lon n xz_e xz_o r < 360"
proof -
  have turn: "0 \<le> 360 / of_int ni * (modp (of_int m) (of_int ni) + of_nat x / TWO17) \<and>
      360 / of_int ni * (modp (of_int m) (of_int ni) + of_nat x / TWO17) < (360 :: real)"
    if ni: "1 \<le> ni" and x: "x < 2 ^ 17" for ni m :: int and x
  proof -
    have "m mod ni \<le> ni - 1" "0 \<le> m mod ni"
      using ni by simp_all
    then have "real_of_int (m mod ni) \<le> of_int (ni - 1)" "0 \<le> real_of_int (m mod ni)"
      by linarith+
    then have mm: "0 \<le> modp (of_int m) (of_int ni)" "modp (of_int m) (of_int ni) \<le> of_int ni - 1"
      using ni by (simp_all add: modp_of_int)
    have xx: "0 \<le> real x / TWO17" "real x / TWO17 < 1"
      using x by (simp_all add: TWO17_def)
    show ?thesis
      using ni by (intro part_of_turn mm xx) simp_all
  qed
  have "max (real n) 1 = of_int (max (int n) 1)" "max (real n - 1) 1 = of_int (max (int n - 1) 1)"
    by simp_all
  with turn [of "max (int n) 1"] turn [of "max (int n - 1) 1"] assms show ?thesis
    unfolding decode_lon_def Let_def by (cases r) auto
qed

lemma cpr_pair_decodes:
  assumes lat: "\<bar>lat\<bar> \<le> 90" and cf: "carry_free lat False" "carry_free lat True"
  shows "case global_decode_airborne (encode_airborne lat lon False) (encode_airborne lat lon True) r of
      None \<Rightarrow> nl (grid_lat lat False) \<noteq> nl (grid_lat lat True)
    | Some (lat', lon') \<Rightarrow>
        \<bar>lat' - lat\<bar> \<le> cpr_dlat r / 2 ^ 18 \<and>
        (\<exists>k :: int. \<bar>lon' - (lon + 360 * of_int k)\<bar> \<le> 360 / of_nat (cpr_nlon (nl lat') r) / 2 ^ 18)"
proof (cases "nl (grid_lat lat False) = nl (grid_lat lat True)")
  case False
  then show ?thesis
    by (simp add: encode_airborne_def global_decode_unfold decode_rlat_grid [OF lat] Let_def)
next
  case True
  let ?n = "nl (grid_lat lat True)"
  have dec: "global_decode_airborne (encode_airborne lat lon False) (encode_airborne lat lon True) r
      = Some (grid_lat lat r, wrap_above 180 (rem_euclid (grid_lon lon (cpr_nlon ?n r)) 360))"
    using grid_lat_range [OF lat] nl_range [of "grid_lat lat True"] True
    by (simp add: encode_airborne_def global_decode_unfold decode_rlat_grid [OF lat] Let_def
        encode_rlat_grid cf decode_lon_grid not_less)
  obtain k :: int where k: "wrap_above 180 (rem_euclid (grid_lon lon (cpr_nlon ?n r)) 360)
      = grid_lon lon (cpr_nlon ?n r) + 360 * of_int k"
    using wrap_above_turns by blast
  have "0 < cpr_nlon ?n r"
    by (simp add: cpr_nlon_def max_def)
  then have "\<bar>grid_lon lon (cpr_nlon ?n r) + 360 * of_int k - (lon + 360 * of_int k)\<bar>
      \<le> 360 / of_nat (cpr_nlon ?n r) / 2 ^ 18"
    using grid_lon_near [of "cpr_nlon ?n r" lon] by simp
  moreover have "nl (grid_lat lat r) = ?n"
    using True by (cases r) simp_all
  ultimately show ?thesis
    unfolding dec k using grid_lat_near [of lat r] by (auto intro: exI [of _ k])
qed

lemma nl_grid_lat_1: "nl (grid_lat 1 f) = 59"
proof -
  have "cpr_dlat f / 2 ^ 18 \<le> 1"
    by (cases f) (simp_all add: cpr_dlat_simps)
  then have "\<bar>grid_lat 1 f\<bar> \<le> 10"
    using grid_lat_near [of 1 f] by linarith
  then show ?thesis
    by (rule nl_equator)
qed

subsection \<open>Properties\<close>

text \<open>
  CPR round trip. Encode one position in the even and the odd format and decode the
  pair, with either message as the recent one. Either the two grid latitudes lie in bands
  with different zone counts, and the pair is refused; or the decoded latitude is within
  half a latitude cell of the true one and the decoded longitude within half a longitude
  cell, up to whole turns.
\<close>

theorem cpr_roundtrip:
  assumes lat: "\<bar>lat\<bar> \<le> 90" and cf: "carry_free lat False" "carry_free lat True"
  shows "case global_decode_airborne (encode_airborne lat lon False) (encode_airborne lat lon True) r of
      None \<Rightarrow> nl (grid_lat lat False) \<noteq> nl (grid_lat lat True)
    | Some (lat', lon') \<Rightarrow>
        \<bar>lat' - lat\<bar> \<le> cpr_dlat r / 2 ^ 18 \<and>
        (\<exists>k :: int. \<bar>lon' - (lon + 360 * of_int k)\<bar> \<le> 360 / of_nat (cpr_nlon (nl lat') r) / 2 ^ 18)"
  using assms by (rule cpr_pair_decodes)

theorem cpr_roundtrip_witness:
  "\<exists>lat lon. global_decode_airborne (encode_airborne 1 2 False) (encode_airborne 1 2 True) False = Some (lat, lon)
    \<and> \<bar>lat - 1\<bar> \<le> 6 / 2 ^ 18"
proof -
  have cf: "carry_free 1 False" "carry_free 1 True"
    by (simp_all add: carry_free_iff cpr_dlat_simps)
  show ?thesis
    using cpr_roundtrip [OF _ cf, where lon = 2 and r = False] nl_grid_lat_1 by (auto simp: cpr_dlat_simps split: option.splits)
qed

text \<open>
  Range of a decoded position: whatever 17-bit values arrive, a decoded latitude is
  in [-90, 90] and a decoded longitude in [-180, 180).
\<close>

theorem global_decode_range:
  assumes "global_decode_airborne (yz_e, xz_e) (yz_o, xz_o) r = Some (lat, lon)"
    and "xz_e < 2 ^ 17" "xz_o < 2 ^ 17"
  shows "\<bar>lat\<bar> \<le> 90 \<and> -180 \<le> lon \<and> lon < 180"
proof -
  obtain rlat_e rlat_o where rl: "decode_rlat yz_e yz_o = (rlat_e, rlat_o)"
    by fastforce
  with assms(1) have b: "\<bar>rlat_e\<bar> \<le> 90" "\<bar>rlat_o\<bar> \<le> 90" "lat = (if r then rlat_o else rlat_e)"
    "lon = wrap_above 180 (decode_lon (nl rlat_e) xz_e xz_o r)"
    by (auto simp: global_decode_unfold split: if_splits)
  then show ?thesis
    using decode_lon_range [of "nl rlat_e", OF _ assms(2,3), of r] nl_range [of rlat_e]
    by (auto simp: wrap_above_def)
qed

theorem global_decode_range_witness:
  "global_decode_airborne (0, 0) (0, 0) True = Some (0, 0) \<and> \<bar>0 :: real\<bar> \<le> 90 \<and> -180 \<le> (0 :: real) \<and> (0 :: real) < 180"
proof -
  have "modp 0 m = 0" for m
    by (simp add: modp_def fmod_def)
  then have d: "global_decode_airborne (0, 0) (0, 0) True = Some (0, 0)"
    by (simp add: global_decode_unfold decode_rlat_def decode_lon_def wrap_above_def Let_def)
  show ?thesis
    using d global_decode_range [OF d] by simp
qed

text \<open>
  The encoder's zone latitude is off by a whole zone in a sliver below every zone
  boundary: where rounding carries the fraction past its 17 bits, the encoder picks the
  zone count at a latitude one zone south of the one the decoder reconstructs, although
  it is meant to be evaluated at exactly that one.
\<close>

theorem encode_rlat_sliver:
  assumes "1 - 1 / 2 ^ 18 \<le> lat / cpr_dlat oddf - of_int \<lfloor>lat / cpr_dlat oddf\<rfloor>"
  shows "encode_rlat lat oddf = grid_lat lat oddf - cpr_dlat oddf"
proof -
  have "grid_index lat (cpr_dlat oddf) div 2 ^ 17 = \<lfloor>lat / cpr_dlat oddf\<rfloor> + 1"
    using assms unfolding grid_index_zone [OF cpr_dlat_pos] by simp
  then show ?thesis
    unfolding encode_rlat_split grid_lat_split by (simp add: algebra_simps)
qed

theorem encode_rlat_sliver_witness:
  "encode_rlat (12 - 1 / 2 ^ 17) False = 6 \<and> grid_lat (12 - 1 / 2 ^ 17) False = 12"
proof -
  have fl: "\<lfloor>(12 - 1 / 2 ^ 17) / (6 :: real)\<rfloor> = 1"
    by (rule floor_unique) simp_all
  have "\<lfloor>2 ^ 17 * (12 - 1 / 2 ^ 17) / 6 + 1 / (2 :: real)\<rfloor> = 2 ^ 18"
    by (rule floor_unique) simp_all
  then have g: "grid_lat (12 - 1 / 2 ^ 17) False = 12"
    by (simp add: grid_lat_def grid_index_def cpr_dlat_simps)
  have "encode_rlat (12 - 1 / 2 ^ 17) False = grid_lat (12 - 1 / 2 ^ 17) False - cpr_dlat False"
    by (rule encode_rlat_sliver) (use fl in \<open>simp add: cpr_dlat_simps\<close>)
  with g show ?thesis
    by (simp add: cpr_dlat_simps)
qed

end
