(* ===== verification/Geo.thy ===== *)
theory Geo
  imports Prelude
begin

text \<open>
  The shared vocabulary of \<^verbatim>\<open>crates/mb-core/src/lib.rs\<close>: ICAO addresses with
  their hexadecimal form, and WGS84 geodesy. Angles are degrees at the interfaces, as in
  the code. \<open>atan2\<close> is the standard library's two-argument arc tangent.
\<close>

unbundle bit_operations_syntax

subsection \<open>ICAO addresses\<close>

datatype icao = Icao (icao_val: u32)

definition hex_digit :: "nat \<Rightarrow> char" where
  "hex_digit d = (if d < 10 then char_of (48 + d) else char_of (87 + d))"

text \<open>\<open>format!("{:06x}", v)\<close> for a value of at most 24 bits: six lower-case digits.\<close>

fun hex_fixed :: "nat \<Rightarrow> nat \<Rightarrow> string" where
  "hex_fixed 0 v = []"
| "hex_fixed (Suc k) v = hex_fixed k (v div 16) @ [hex_digit (v mod 16)]"

definition to_hex :: "icao \<Rightarrow> string" where
  "to_hex i = hex_fixed 6 (unat (icao_val i AND 0xFFFFFF))"

definition digit_val :: "char \<Rightarrow> nat option" where
  "digit_val c =
     (let n = of_char c :: nat
      in if 48 \<le> n \<and> n \<le> 57 then Some (n - 48)
         else if 97 \<le> n \<and> n \<le> 102 then Some (n - 87)
         else if 65 \<le> n \<and> n \<le> 70 then Some (n - 55)
         else None)"

text \<open>
  \<open>u32::from_str_radix(s, 16)\<close>: an optional plus sign, then at least one digit, with
  overflow refused.
\<close>

fun digits_val :: "nat \<Rightarrow> string \<Rightarrow> nat option" where
  "digits_val acc [] = Some acc"
| "digits_val acc (c # cs) =
     (case digit_val c of
        None \<Rightarrow> None
      | Some d \<Rightarrow> if 2 ^ 32 \<le> acc * 16 + d then None else digits_val (acc * 16 + d) cs)"

definition u32_from_hex :: "string \<Rightarrow> nat option" where
  "u32_from_hex s =
     (case s of
        [] \<Rightarrow> None
      | c # cs \<Rightarrow> if c = CHR ''+'' then (if cs = [] then None else digits_val 0 cs)
                  else digits_val 0 s)"

text \<open>\<open>str::trim\<close>, on the ASCII white space characters.\<close>

definition is_white :: "char \<Rightarrow> bool" where
  "is_white c \<longleftrightarrow> (of_char c :: nat) \<in> {9, 10, 11, 12, 13, 32}"

definition trim :: "string \<Rightarrow> string" where
  "trim s = rev (dropWhile is_white (rev (dropWhile is_white s)))"

definition from_hex :: "string \<Rightarrow> icao option" where
  "from_hex s =
     (case u32_from_hex (trim s) of
        None \<Rightarrow> None
      | Some v \<Rightarrow> if v \<le> 0xFFFFFF then Some (Icao (of_nat v)) else None)"

subsection \<open>Geodesy\<close>

definition C_MPS :: real where "C_MPS = 299792458"
definition WGS84_A :: real where "WGS84_A = 6378137"
definition WGS84_F :: real where "WGS84_F = 1 / 298.257223563"
definition WGS84_E2 :: real where "WGS84_E2 = WGS84_F * (2 - WGS84_F)"

record geodetic =
  lat_deg :: real
  lon_deg :: real
  alt_m :: real

record ecef =
  ecef_x :: real
  ecef_y :: real
  ecef_z :: real

definition to_radians :: "real \<Rightarrow> real" where "to_radians d = d * (pi / 180)"
definition to_degrees :: "real \<Rightarrow> real" where "to_degrees r = r * (180 / pi)"

definition atan2 :: "real \<Rightarrow> real \<Rightarrow> real" where
  "atan2 y x =
     (if 0 < x then arctan (y / x)
      else if x < 0 then (if 0 \<le> y then arctan (y / x) + pi else arctan (y / x) - pi)
      else if 0 < y then pi / 2 else if y < 0 then - pi / 2 else 0)"

definition to_ecef :: "geodetic \<Rightarrow> ecef" where
  "to_ecef g =
     (let lat = to_radians (lat_deg g); lon = to_radians (lon_deg g);
          n = WGS84_A / sqrt (1 - WGS84_E2 * sin lat * sin lat)
      in \<lparr>ecef_x = (n + alt_m g) * cos lat * cos lon,
          ecef_y = (n + alt_m g) * cos lat * sin lon,
          ecef_z = (n * (1 - WGS84_E2) + alt_m g) * sin lat\<rparr>)"

definition dist :: "ecef \<Rightarrow> ecef \<Rightarrow> real" where
  "dist a b = sqrt ((ecef_x a - ecef_x b) ^ 2 + (ecef_y a - ecef_y b) ^ 2 + (ecef_z a - ecef_z b) ^ 2)"

definition slant_range_m :: "geodetic \<Rightarrow> geodetic \<Rightarrow> real" where
  "slant_range_m g h =
     (let a = to_ecef g; b = to_ecef h
      in sqrt ((ecef_x a - ecef_x b) ^ 2 + (ecef_y a - ecef_y b) ^ 2 + (ecef_z a - ecef_z b) ^ 2))"

definition MEAN_R :: real where "MEAN_R = 6371000.8"

definition haversine_a :: "geodetic \<Rightarrow> geodetic \<Rightarrow> real" where
  "haversine_a g h =
     (let lat1 = to_radians (lat_deg g); lat2 = to_radians (lat_deg h);
          dlat = lat2 - lat1; dlon = to_radians (lon_deg h - lon_deg g)
      in sin (dlat / 2) ^ 2 + cos lat1 * cos lat2 * sin (dlon / 2) ^ 2)"

definition haversine_m :: "geodetic \<Rightarrow> geodetic \<Rightarrow> real" where
  "haversine_m g h = 2 * MEAN_R * arcsin (sqrt (haversine_a g h))"

definition to_geodetic :: "ecef \<Rightarrow> geodetic" where
  "to_geodetic e =
     (let b = WGS84_A * (1 - WGS84_F);
          ep2 = (WGS84_A * WGS84_A - b * b) / (b * b);
          p = sqrt (ecef_x e * ecef_x e + ecef_y e * ecef_y e);
          theta = atan2 (ecef_z e * WGS84_A) (p * b);
          lat = atan2 (ecef_z e + ep2 * b * sin theta ^ 3) (p - WGS84_E2 * WGS84_A * cos theta ^ 3);
          lon = atan2 (ecef_y e) (ecef_x e);
          n = WGS84_A / sqrt (1 - WGS84_E2 * sin lat * sin lat);
          alt = (if \<bar>cos lat\<bar> > 1 / 10 ^ 12 then p / cos lat - n else \<bar>ecef_z e\<bar> - b)
      in \<lparr>lat_deg = to_degrees lat, lon_deg = to_degrees lon, alt_m = alt\<rparr>)"

subsection \<open>Hexadecimal round trip\<close>

lemma length_hex_fixed [simp]: "length (hex_fixed k v) = k"
  by (induction k arbitrary: v) auto

lemma digit_val_hex_digit: "d < 16 \<Longrightarrow> digit_val (hex_digit d) = Some d"
  by (auto simp: digit_val_def hex_digit_def Let_def)

lemma hex_digit_not: "d < 16 \<Longrightarrow> \<not> is_white (hex_digit d) \<and> hex_digit d \<noteq> CHR ''+''"
  by (auto simp: hex_digit_def is_white_def dest: arg_cong [of _ _ "of_char :: char \<Rightarrow> nat"])

lemma digits_val_append:
  "digits_val acc (xs @ ys) = Option.bind (digits_val acc xs) (\<lambda>a. digits_val a ys)"
  by (induction xs arbitrary: acc) (auto split: option.splits)

lemma digits_val_hex_fixed:
  "v < 16 ^ k \<Longrightarrow> k \<le> 8 \<Longrightarrow> digits_val 0 (hex_fixed k v) = Some v"
proof (induction k arbitrary: v)
  case (Suc k)
  then have "v div 16 < 16 ^ k"
    by (simp add: div_less_iff_less_mult mult.commute)
  with Suc have IH: "digits_val 0 (hex_fixed k (v div 16)) = Some (v div 16)"
    by simp
  have "(16 :: nat) ^ Suc k \<le> 16 ^ 8"
    using Suc.prems by (intro power_increasing) simp_all
  with Suc.prems have "v < 2 ^ 32"
    by simp
  then show ?case
    by (simp add: digits_val_append IH digit_val_hex_digit)
qed simp

lemma set_hex_fixed: "c \<in> set (hex_fixed k v) \<Longrightarrow> \<exists>d < 16. c = hex_digit d"
proof (induction k arbitrary: v)
  case (Suc k)
  then show ?case
    by (cases "c \<in> set (hex_fixed k (v div 16))") (auto intro: exI [of _ "v mod 16"])
qed simp

lemma trim_hex_fixed: "trim (hex_fixed k v) = hex_fixed k v"
proof -
  have n: "\<not> is_white c" if "c \<in> set (hex_fixed k v)" for c
    using that hex_digit_not by (auto dest!: set_hex_fixed)
  have d: "dropWhile is_white xs = xs" if "\<forall>c \<in> set xs. \<not> is_white c" for xs
    using that by (cases xs) auto
  show ?thesis
    using n by (simp add: trim_def d)
qed

lemma icao_low_bits: "unat (v AND 0xFFFFFF :: u32) < 2 ^ 24"
proof -
  have "v AND 0xFFFFFF \<le> (0xFFFFFF :: u32)"
    by (rule word_and_le1)
  then show ?thesis
    by (simp add: word_le_nat_alt)
qed

lemma from_hex_to_hex: "from_hex (to_hex i) = Some (Icao (icao_val i AND 0xFFFFFF))"
proof -
  let ?v = "unat (icao_val i AND 0xFFFFFF)"
  have v: "?v < 16 ^ 6" "?v \<le> 0xFFFFFF"
    using icao_low_bits [of "icao_val i"] by simp_all
  obtain c cs where h: "hex_fixed 6 ?v = c # cs"
    by (cases "hex_fixed 6 ?v") (auto dest: arg_cong [of _ _ length])
  then have "c \<in> set (hex_fixed 6 ?v)"
    by simp
  then have "c \<noteq> CHR ''+''"
    using hex_digit_not by (auto dest!: set_hex_fixed)
  then have "u32_from_hex (trim (to_hex i)) = Some ?v"
    using digits_val_hex_fixed [OF v(1)]
    unfolding to_hex_def trim_hex_fixed by (simp add: u32_from_hex_def h del: digits_val.simps)
  with v(2) show ?thesis
    by (simp add: from_hex_def)
qed

subsection \<open>The two-argument arc tangent\<close>

lemma atan2_polar:
  assumes r: "0 < r" and t: "- pi < t" "t \<le> pi"
  shows "atan2 (r * sin t) (r * cos t) = t"
proof -
  have q: "r * sin t / (r * cos t) = tan t"
    using r by (simp add: tan_def)
  consider "cos t > 0" | "cos t < 0" "0 \<le> sin t" | "cos t < 0" "sin t < 0" | "cos t = 0"
    by linarith
  then show ?thesis
  proof cases
    case 1
    have "- (pi / 2) < t \<and> t < pi / 2"
    proof (rule ccontr)
      assume "\<not> ?thesis"
      then have "pi / 2 \<le> \<bar>t\<bar>" "\<bar>t\<bar> \<le> pi"
        using t by auto
      then have "cos \<bar>t\<bar> \<le> cos (pi / 2)"
        by (intro cos_monotone_0_pi_le) simp_all
      with 1 show False
        by simp
    qed
    then have "arctan (tan t) = t"
      by (simp add: arctan_tan)
    with 1 r q show ?thesis
      by (simp add: atan2_def)
  next
    case 2
    then have "pi / 2 < t"
      using t cos_ge_zero [of t] sin_ge_zero [of "- t"] sin_gt_zero [of "- t"]
      by (cases "0 \<le> t") (force simp: not_less)+
    with t have "arctan (tan (t - pi)) = t - pi"
      by (intro arctan_tan) simp_all
    moreover have "tan (t - pi) = tan t"
      by (simp add: tan_def)
    ultimately show ?thesis
      using 2 r q by (simp add: atan2_def mult_less_0_iff zero_less_mult_iff zero_le_mult_iff)
  next
    case 3
    then have "t < - (pi / 2)"
      using t cos_ge_zero [of t] sin_ge_zero [of t]
      by (cases "t < 0") (force simp: not_less)+
    with t have "arctan (tan (t + pi)) = t + pi"
      by (intro arctan_tan) simp_all
    moreover have "tan (t + pi) = tan t"
      by (simp add: tan_def)
    ultimately show ?thesis
      using 3 r q by (simp add: atan2_def mult_less_0_iff zero_less_mult_iff zero_le_mult_iff)
  next
    case 4
    have "t = pi / 2 \<or> t = - (pi / 2)"
    proof (cases "0 \<le> t")
      case True
      then show ?thesis
        using cos_inj_pi [of t "pi / 2"] 4 t by simp
    next
      case False
      then show ?thesis
        using cos_inj_pi [of "- t" "pi / 2"] 4 t by simp
    qed
    with r show ?thesis
      by (elim disjE; hypsubst; simp add: atan2_def)
  qed
qed

subsection \<open>The ellipsoid\<close>

lemma WGS84_pos: "0 < WGS84_A" "0 < WGS84_F" "WGS84_F < 1" "0 < WGS84_E2" "WGS84_E2 < 1" "0 < 1 - WGS84_F"
  by (simp_all add: WGS84_A_def WGS84_F_def WGS84_E2_def)

lemma WGS84_E2_b: "1 - WGS84_E2 = (1 - WGS84_F) ^ 2"
  by (simp add: WGS84_E2_def power2_eq_square algebra_simps)

definition ell_w :: "real \<Rightarrow> real" where
  "ell_w lat = sqrt (1 - WGS84_E2 * sin lat * sin lat)"

lemma ell_w_sq: "ell_w lat ^ 2 = 1 - WGS84_E2 * sin lat ^ 2" and ell_w_pos: "0 < ell_w lat"
proof -
  have "sin lat ^ 2 \<le> 1"
    using sin_cos_squared_add [of lat] zero_le_power2 [of "cos lat"] by linarith
  then have "WGS84_E2 * sin lat ^ 2 \<le> WGS84_E2 * 1"
    using WGS84_pos by (intro mult_left_mono) simp_all
  with WGS84_pos(5) have "0 < 1 - WGS84_E2 * sin lat ^ 2"
    by linarith
  then show "ell_w lat ^ 2 = 1 - WGS84_E2 * sin lat ^ 2" "0 < ell_w lat"
    by (simp_all add: ell_w_def power2_eq_square mult.assoc)
qed

text \<open>
  Bowring's auxiliary angle: on the surface it is the reduced latitude, whose tangent is
  \<open>(1 - f)\<close> times the tangent of the latitude.
\<close>

lemma bowring_surface:
  assumes lat: "- (pi / 2) < lat" "lat < pi / 2"
  defines "n \<equiv> WGS84_A / ell_w lat" and "b \<equiv> WGS84_A * (1 - WGS84_F)"
  defines "p \<equiv> n * cos lat" and "z \<equiv> n * (1 - WGS84_E2) * sin lat"
  defines "theta \<equiv> atan2 (z * WGS84_A) (p * b)"
  shows "sin theta = (1 - WGS84_F) * sin lat / ell_w lat" and "cos theta = cos lat / ell_w lat"
proof -
  have c: "0 < cos lat"
    using lat by (simp add: cos_gt_zero_pi)
  define s k where "s = (1 - WGS84_F) * sin lat / ell_w lat" and "k = cos lat / ell_w lat"
  have "s ^ 2 + k ^ 2 = ((1 - WGS84_E2) * sin lat ^ 2 + cos lat ^ 2) / ell_w lat ^ 2"
    by (simp add: s_def k_def power_divide power_mult_distrib WGS84_E2_b add_divide_distrib)
  also have "(1 - WGS84_E2) * sin lat ^ 2 + cos lat ^ 2 = ell_w lat ^ 2"
    using sin_cos_squared_add [of lat] by (simp add: ell_w_sq algebra_simps)
  finally have "s ^ 2 + k ^ 2 = 1"
    using ell_w_pos [of lat] by simp
  then obtain t where t: "- pi < t" "t \<le> pi" "k = cos t" "s = sin t"
    using sincos_principal_value sincos_total_2pi_le by (metis add.commute)
  have e: "z * WGS84_A = WGS84_A * b * s" "p * b = WGS84_A * b * k"
    using ell_w_pos [of lat]
    by (simp_all add: z_def p_def n_def b_def s_def k_def WGS84_E2_b power2_eq_square field_simps)
  have "0 < WGS84_A * b"
    using WGS84_pos by (simp add: b_def)
  then have "theta = t"
    unfolding theta_def e t(3,4) by (rule atan2_polar [OF _ t(1,2)])
  with t show "sin theta = (1 - WGS84_F) * sin lat / ell_w lat" "cos theta = cos lat / ell_w lat"
    by (simp_all add: s_def k_def)
qed

lemma bowring_latitude:
  assumes lat: "- (pi / 2) < lat" "lat < pi / 2"
  defines "n \<equiv> WGS84_A / ell_w lat" and "b \<equiv> WGS84_A * (1 - WGS84_F)"
  defines "p \<equiv> n * cos lat" and "z \<equiv> n * (1 - WGS84_E2) * sin lat"
  defines "theta \<equiv> atan2 (z * WGS84_A) (p * b)"
  shows "atan2 (z + (WGS84_A * WGS84_A - b * b) / (b * b) * b * sin theta ^ 3)
    (p - WGS84_E2 * WGS84_A * cos theta ^ 3) = lat"
proof -
  define w where "w = ell_w lat"
  define r where "r = (1 - WGS84_F) ^ 2 * WGS84_A / w ^ 3"
  have w: "0 < w" "w ^ 2 = 1 - WGS84_E2 * sin lat ^ 2"
    by (simp_all add: w_def ell_w_pos ell_w_sq)
  have th: "sin theta = (1 - WGS84_F) * sin lat / w" "cos theta = cos lat / w"
    unfolding theta_def z_def p_def n_def b_def w_def using bowring_surface [OF lat] by simp_all
  have F: "(1 - WGS84_F) ^ 2 = 1 - WGS84_E2" "0 < 1 - WGS84_F" "0 < WGS84_A"
    using WGS84_pos WGS84_E2_b by simp_all
  define g where "g = 1 - WGS84_F"
  have g: "0 < g" "1 - g ^ 2 = WGS84_E2" "1 - WGS84_E2 = g ^ 2" "b = WGS84_A * g"
    using F by (simp_all add: g_def b_def)
  have "(WGS84_A * WGS84_A - b * b) / (b * b) * b = WGS84_A * (1 - g ^ 2) / g"
    using g F by (simp add: field_simps power2_eq_square)
  then have e: "(WGS84_A * WGS84_A - b * b) / (b * b) * b * sin theta ^ 3
      = WGS84_A * WGS84_E2 / g * (g * sin lat / w) ^ 3"
    by (simp only: g(2) th [folded g_def])
  have "z + (WGS84_A * WGS84_A - b * b) / (b * b) * b * sin theta ^ 3
      = (1 - WGS84_F) ^ 2 * WGS84_A / w ^ 3 * sin lat * (w ^ 2 + WGS84_E2 * sin lat ^ 2)"
    unfolding e z_def n_def w_def [symmetric] g(3) g_def [symmetric] using g(1) w(1)
    by (simp add: field_simps power2_eq_square power3_eq_cube)
  then have num: "z + (WGS84_A * WGS84_A - b * b) / (b * b) * b * sin theta ^ 3 = r * sin lat"
    by (simp add: w r_def)
  have "p - WGS84_E2 * WGS84_A * cos theta ^ 3 = WGS84_A / w ^ 3 * cos lat * (w ^ 2 - WGS84_E2 * cos lat ^ 2)"
    unfolding p_def n_def w_def [symmetric] th using w(1)
    by (simp add: field_simps power2_eq_square power3_eq_cube)
  moreover have "w ^ 2 - WGS84_E2 * cos lat ^ 2 = (1 - WGS84_F) ^ 2"
  proof -
    have "WGS84_E2 * (sin lat ^ 2 + cos lat ^ 2) = WGS84_E2"
      by simp
    then show ?thesis
      by (simp only: w F distrib_left)
  qed
  ultimately have den: "p - WGS84_E2 * WGS84_A * cos theta ^ 3 = r * cos lat"
    by (simp add: r_def)
  have "0 < r"
    unfolding r_def using w(1) F(2,3) by (intro divide_pos_pos mult_pos_pos zero_less_power) simp_all
  with lat show ?thesis
    unfolding num den by (intro atan2_polar) simp_all
qed

lemma radians_degrees [simp]: "to_degrees (to_radians d) = d" "to_radians (to_degrees r) = r"
  by (simp_all add: to_degrees_def to_radians_def)

lemma to_radians_less [simp]: "to_radians a < to_radians b \<longleftrightarrow> a < b" "to_radians a \<le> to_radians b \<longleftrightarrow> a \<le> b"
  by (simp_all add: to_radians_def)

lemma to_radians_turns: "to_radians 90 = pi / 2" "to_radians (- 90) = - (pi / 2)"
  "to_radians 180 = pi" "to_radians (- 180) = - pi" "to_radians 0 = 0"
  by (simp_all add: to_radians_def)

lemma to_radians_range:
  "\<bar>d\<bar> < 90 \<Longrightarrow> - (pi / 2) < to_radians d \<and> to_radians d < pi / 2"
  using to_radians_less(1) [of d 90] to_radians_less(1) [of "- 90" d]
  by (simp only: to_radians_turns abs_less_iff) auto

subsection \<open>Great circles\<close>

lemma haversine_a_sym: "haversine_a g h = haversine_a h g"
proof -
  have "sin ((x - y) / 2) ^ 2 = sin ((y - x) / 2) ^ 2" for x y :: real
    using sin_minus [of "(x - y) / 2"] by (simp add: minus_divide_left)
  moreover have "sin (to_radians (x - y) / 2) ^ 2 = sin (to_radians (y - x) / 2) ^ 2" for x y :: real
    using sin_minus [of "to_radians (x - y) / 2"] by (simp add: minus_divide_left to_radians_def left_diff_distrib)
  ultimately show ?thesis
    unfolding haversine_a_def Let_def by (metis mult.commute)
qed

lemma haversine_a_range:
  assumes "\<bar>lat_deg g\<bar> \<le> 90" "\<bar>lat_deg h\<bar> \<le> 90"
  shows "0 \<le> haversine_a g h \<and> haversine_a g h \<le> 1"
proof -
  define x y d where "x = to_radians (lat_deg g)" and "y = to_radians (lat_deg h)"
    and "d = to_radians (lon_deg h - lon_deg g) / 2"
  have c: "0 \<le> cos x * cos y"
    using assms to_radians_less(2) [of "lat_deg g" 90] to_radians_less(2) [of "lat_deg h" 90]
      to_radians_less(2) [of "- 90" "lat_deg g"] to_radians_less(2) [of "- 90" "lat_deg h"]
    unfolding x_def y_def to_radians_turns by (intro mult_nonneg_nonneg cos_ge_zero) auto
  have a: "haversine_a g h = sin ((y - x) / 2) ^ 2 + cos x * cos y * sin d ^ 2"
    by (simp add: haversine_a_def Let_def x_def y_def d_def)
  have "sin d ^ 2 \<le> 1"
    using sin_cos_squared_add [of d] zero_le_power2 [of "cos d"] by linarith
  with c have "cos x * cos y * sin d ^ 2 \<le> cos x * cos y"
    by (simp add: mult_left_le)
  moreover have "cos (y - x) = 1 - 2 * sin ((y - x) / 2) ^ 2"
    using cos_double_sin [of "(y - x) / 2"] mult_2 [of "(y - x) / 2"] field_sum_of_halves [of "y - x"] by (simp only:)
  moreover have "cos (y - x) = cos x * cos y + sin x * sin y" "cos (x + y) = cos x * cos y - sin x * sin y"
    by (simp_all add: cos_diff cos_add algebra_simps)
  moreover have "cos (x + y) \<le> 1"
    by simp
  moreover have "0 \<le> cos x * cos y * sin d ^ 2"
    using c by simp
  ultimately show ?thesis
    unfolding a by (simp; linarith)
qed

subsection \<open>Properties\<close>

text \<open>
  The hexadecimal form of an address round-trips: parsing the six digits
  \<open>to_hex\<close> prints gives the address's low 24 bits back.
\<close>

theorem icao_hex_roundtrip: "from_hex (to_hex i) = Some (Icao (icao_val i AND 0xFFFFFF))"
  by (rule from_hex_to_hex)

text \<open>
  Bowring's one-step inverse is exact on the ellipsoid: converting a surface position
  to ECEF and back gives the same latitude, longitude and altitude (in exact arithmetic),
  away from the poles' last few micrometres.
\<close>

theorem geodetic_surface_roundtrip:
  assumes lat: "\<bar>lat_deg g\<bar> < 90" "1 / 10 ^ 12 < cos (to_radians (lat_deg g))"
    and lon: "- 180 < lon_deg g" "lon_deg g \<le> 180" and alt: "alt_m g = 0"
  shows "to_geodetic (to_ecef g) = g"
proof -
  define la lo n where "la = to_radians (lat_deg g)" and "lo = to_radians (lon_deg g)" and "n = WGS84_A / ell_w la"
  have la: "- (pi / 2) < la" "la < pi / 2"
    using to_radians_range [OF lat(1)] by (simp_all add: la_def)
  have lo: "- pi < lo" "lo \<le> pi"
    using to_radians_less(1) [of "- 180" "lon_deg g"] to_radians_less(2) [of "lon_deg g" 180] lon
    by (simp_all only: to_radians_turns lo_def)
  have c: "0 < cos la" "0 < n"
    using la ell_w_pos [of la] WGS84_pos by (simp_all add: cos_gt_zero_pi n_def)
  have e: "to_ecef g = \<lparr>ecef_x = n * cos la * cos lo, ecef_y = n * cos la * sin lo, ecef_z = n * (1 - WGS84_E2) * sin la\<rparr>"
    by (simp add: to_ecef_def Let_def la_def lo_def n_def alt ell_w_def)
  have "n * cos la * cos lo * (n * cos la * cos lo) + n * cos la * sin lo * (n * cos la * sin lo)
      = (n * cos la) ^ 2 * (sin lo ^ 2 + cos lo ^ 2)"
    by algebra
  then have p: "sqrt (n * cos la * cos lo * (n * cos la * cos lo) + n * cos la * sin lo * (n * cos la * sin lo)) = n * cos la"
    using c by simp
  have lon': "atan2 (n * cos la * sin lo) (n * cos la * cos lo) = lo"
    using c lo by (intro atan2_polar) simp_all
  have alt': "n * cos la / cos la - WGS84_A / sqrt (1 - WGS84_E2 * sin la * sin la) = 0"
    using c by (simp add: n_def ell_w_def)
  show ?thesis
    unfolding to_geodetic_def Let_def e ecef.simps p lon' bowring_latitude [OF la, folded n_def] alt'
    using c lat(2) alt by (simp add: la_def lo_def)
qed

theorem geodetic_surface_roundtrip_witness:
  "to_geodetic (to_ecef \<lparr>lat_deg = 60, lon_deg = 180, alt_m = 0\<rparr>) = \<lparr>lat_deg = 60, lon_deg = 180, alt_m = 0\<rparr>"
proof -
  have "cos (to_radians 60) = 1 / 2"
    using cos_60 by (simp add: to_radians_def)
  then show ?thesis
    by (intro geodetic_surface_roundtrip) simp_all
qed

text \<open>
  The haversine distance is symmetric, zero between equal places, and never more than
  half the circumference of the mean sphere, for any two positions on the planet: the
  argument of the arc sine stays in its domain.
\<close>

theorem haversine_metric:
  assumes "\<bar>lat_deg g\<bar> \<le> 90" "\<bar>lat_deg h\<bar> \<le> 90"
  shows "haversine_m g h = haversine_m h g \<and> haversine_m g g = 0 \<and>
    0 \<le> haversine_m g h \<and> haversine_m g h \<le> pi * MEAN_R"
proof (intro conjI)
  let ?s = "sqrt (haversine_a g h)"
  have s: "0 \<le> ?s" "?s \<le> 1"
    using haversine_a_range [OF assms] by simp_all
  show "haversine_m g h = haversine_m h g"
    by (simp add: haversine_m_def haversine_a_sym [of g h])
  show "haversine_m g g = 0"
    by (simp add: haversine_m_def haversine_a_def to_radians_def)
  show "0 \<le> haversine_m g h"
    using s arcsin_nonneg [of ?s] by (simp add: haversine_m_def MEAN_R_def)
  show "haversine_m g h \<le> pi * MEAN_R"
    using arcsin_ubound [of ?s] order_trans [OF _ s(1), of "- 1"] s(2) by (simp add: haversine_m_def MEAN_R_def)
qed

theorem haversine_metric_witness:
  "haversine_m \<lparr>lat_deg = 90, lon_deg = 0, alt_m = 0\<rparr> \<lparr>lat_deg = - 90, lon_deg = 7, alt_m = 0\<rparr> \<le> pi * MEAN_R"
  using haversine_metric [of "\<lparr>lat_deg = 90, lon_deg = 0, alt_m = 0\<rparr>" "\<lparr>lat_deg = - 90, lon_deg = 7, alt_m = 0\<rparr>"]
  by simp

end
