(* ===== verification/Frames.thy ===== *)
theory Frames
  imports Crc Altitude Cpr Geo
begin

text \<open>
  The Mode S downlink frames: the builders of \<^verbatim>\<open>crates/mb-modes/src/frames.rs\<close> and
  the parsers of \<^verbatim>\<open>crates/mb-modes/src/decode.rs\<close>. A frame is a list of bytes, 14 for
  an extended squitter and 7 for a short reply. The builders seal a frame through the
  checksum interface \<open>parity_code\<close> and the parsers check it there.
\<close>

unbundle bit_operations_syntax

subsection \<open>Builders\<close>

text \<open>
  The 56-bit message field of an airborne position: type code, altitude, format flag, and
  the two CPR values; surveillance status, antenna flag and time flag are zero.
\<close>

definition airborne_me :: "u64 \<Rightarrow> u16 \<Rightarrow> bool \<Rightarrow> nat \<Rightarrow> nat \<Rightarrow> u64" where
  "airborne_me tc alt12 oddf yz xz =
     push_bit 51 tc OR push_bit 36 (ucast alt12) OR push_bit 34 (of_bool oddf)
       OR push_bit 17 (of_nat yz) OR of_nat xz"

definition me_bytes :: "u64 \<Rightarrow> bytes" where
  "me_bytes me = map (\<lambda>i. ucast (drop_bit (48 - 8 * i) me)) [0..<7]"

definition sealed :: "bytes \<Rightarrow> bytes" where
  "sealed f = f @ be24 (crc24 f)"

definition df17_airborne_position ::
  "icao \<Rightarrow> u8 \<Rightarrow> u8 \<Rightarrow> int \<Rightarrow> real \<Rightarrow> real \<Rightarrow> bool \<Rightarrow> bytes option" where
  "df17_airborne_position i ca tc alt_ft lat lon oddf =
     (case ac12 alt_ft of
        None \<Rightarrow> None
      | Some alt12 \<Rightarrow>
          let (yz, xz) = encode_airborne lat lon oddf; me = airborne_me (ucast tc) alt12 oddf yz xz
          in Some (sealed ([push_bit 3 17 OR (ca AND 0x7)] @ be24 (icao_val i) @ me_bytes me)))"

definition df18_position :: "icao \<Rightarrow> u16 \<Rightarrow> real \<Rightarrow> real \<Rightarrow> bool \<Rightarrow> bytes" where
  "df18_position i alt12 lat lon oddf =
     (let (yz, xz) = encode_airborne lat lon oddf; me = airborne_me 18 alt12 oddf yz xz
      in sealed ([push_bit 3 18 OR 2] @ be24 (icao_val i) @ me_bytes me))"

definition df18_position_pair :: "icao \<Rightarrow> int \<Rightarrow> real \<Rightarrow> real \<Rightarrow> (bytes \<times> bytes) option" where
  "df18_position_pair i alt_ft lat lon =
     (case ac12 alt_ft of
        None \<Rightarrow> None
      | Some alt12 \<Rightarrow> Some (df18_position i alt12 lat lon False, df18_position i alt12 lat lon True))"

definition df11 :: "icao \<Rightarrow> u8 \<Rightarrow> bytes" where
  "df11 i ca = sealed ([push_bit 3 11 OR (ca AND 0x7)] @ be24 (icao_val i))"

definition df4 :: "icao \<Rightarrow> u8 \<Rightarrow> int \<Rightarrow> bytes option" where
  "df4 i fs alt_ft =
     (case ac13 alt_ft of
        None \<Rightarrow> None
      | Some ac \<Rightarrow>
          let head = push_bit 27 4 OR push_bit 24 (ucast fs AND 0x7) OR (ucast ac :: u32);
              f = ucast (drop_bit 24 head) # be24 head;
              ap = crc24 f XOR icao_val i
          in Some (f @ be24 ap))"

subsection \<open>Parsers\<close>

record df17_airborne =
  df17_icao :: icao
  df17_odd :: bool
  cpr_lat :: nat
  cpr_lon :: nat
  df17_alt_ft :: "int option"

definition from_be :: "bytes \<Rightarrow> 'a::len word" where
  "from_be bs = foldl (\<lambda>acc b. push_bit 8 acc OR ucast b) 0 bs"

definition join24 :: "u8 \<Rightarrow> u8 \<Rightarrow> u8 \<Rightarrow> u32" where
  "join24 x y z = push_bit 16 (ucast x) OR push_bit 8 (ucast y) OR ucast z"

definition parse_df17_airborne :: "bytes \<Rightarrow> df17_airborne option" where
  "parse_df17_airborne f =
     (if length f \<noteq> 14 \<or> drop_bit 3 (f ! 0) \<noteq> 17 \<or> crc24 f \<noteq> 0 then None
      else let i = Icao (join24 (f ! 1) (f ! 2) (f ! 3));
               me = from_be [0, f ! 4, f ! 5, f ! 6, f ! 7, f ! 8, f ! 9, f ! 10] :: u64;
               tc = ucast (drop_bit 51 me AND 0x1F) :: u8
           in if \<not> (9 \<le> tc \<and> tc \<le> 18) then None
              else let alt12 = ucast (drop_bit 36 me AND 0xFFF) :: u16
                   in Some \<lparr>df17_icao = i, df17_odd = (drop_bit 34 me AND 1 = 1),
                        cpr_lat = unat (drop_bit 17 me AND 0x1FFFF), cpr_lon = unat (me AND 0x1FFFF),
                        df17_alt_ft = ac12_decode alt12\<rparr>)"

definition parse_df11 :: "bytes \<Rightarrow> icao option" where
  "parse_df11 f =
     (if length f \<noteq> 7 \<or> drop_bit 3 (f ! 0) \<noteq> 11 then None
      else Some (Icao (join24 (f ! 1) (f ! 2) (f ! 3))))"

definition parse_df4 :: "bytes \<Rightarrow> (icao \<times> int option) option" where
  "parse_df4 f =
     (if length f \<noteq> 7 \<or> drop_bit 3 (f ! 0) \<noteq> 4 then None
      else let ap = join24 (f ! 4) (f ! 5) (f ! 6);
               i = Icao ((crc24 (take 4 f) XOR ap) AND 0xFFFFFF);
               head = from_be [f ! 0, f ! 1, f ! 2, f ! 3] :: u32;
               ac = ucast (head AND 0x1FFF) :: u16
           in Some (i, ac13_decode ac))"

definition df_of :: "bytes \<Rightarrow> u8 option" where
  "df_of f = (if length f = 7 \<or> length f = 14 then Some (drop_bit 3 (f ! 0)) else None)"

subsection \<open>Joining bytes\<close>

lemma join24_be24: "be24 v = [x, y, z] \<Longrightarrow> join24 x y z = v AND 0xFFFFFF"
  using crc24.join_be24 [of v] by (auto simp: join24_def be24_def)

lemma be24_cases: obtains x y z where "be24 v = [x, y, z]" "join24 x y z = v AND 0xFFFFFF"
  using join24_be24 [of v] by (auto simp: be24_def)

lemma me_bytes_list: "me_bytes me = [ucast (drop_bit 48 me), ucast (drop_bit 40 me), ucast (drop_bit 32 me),
    ucast (drop_bit 24 me), ucast (drop_bit 16 me), ucast (drop_bit 8 me), ucast me]"
  by (simp add: me_bytes_def upt_rec)

text \<open>Appending the next lower byte of a word to its upper part.\<close>

lemma append_byte:
  "push_bit 8 (drop_bit (k + 8) w AND mask n) OR ucast (ucast (drop_bit k w) :: u8)
    = (drop_bit k w AND mask (n + 8) :: 'a::len word)"
proof (rule bit_word_eqI)
  fix i assume "i < LENGTH('a)"
  then show "bit (push_bit 8 (drop_bit (k + 8) w AND mask n) OR ucast (ucast (drop_bit k w) :: u8)) i
      = bit (drop_bit k w AND mask (n + 8)) i"
    by (cases "i < 8") (auto simp: bit_only add.assoc bit_imp_le_length)
qed

lemma from_be_bytes:
  "from_be (map (\<lambda>i. ucast (drop_bit (8 * (n - 1 - i)) w)) [0..<n]) = (w AND mask (8 * n) :: 'a::len word)"
proof -
  have "k \<le> n \<Longrightarrow> foldl (\<lambda>acc b. push_bit 8 acc OR ucast b) 0 (map (\<lambda>i. ucast (drop_bit (8 * (n - 1 - i)) w) :: u8) [0..<k])
      = drop_bit (8 * (n - k)) w AND mask (8 * k)" for k
  proof (induction k)
    case (Suc k)
    have k: "8 * (n - k) = 8 * (n - 1 - k) + 8" "n - Suc k = n - 1 - k" "8 * Suc k = 8 * k + 8" "k \<le> n"
      using Suc.prems by auto
    show ?case
      unfolding upt_Suc_append [OF le0] map_append foldl_append list.map foldl.simps Suc.IH [OF k(4)] k(1,2,3)
      by (rule append_byte)
  qed simp
  from this [of n] show ?thesis
    by (simp add: from_be_def)
qed

lemma from_be_me_bytes: "from_be (0 # me_bytes me) = (me AND mask 56 :: u64)"
  using from_be_bytes [of 7 me] by (simp add: from_be_def me_bytes_def right_diff_distrib')

subsection \<open>The fields of an airborne position\<close>

lemma lits_64: "(0x1F :: u64) = mask 5" "(0xFFF :: u64) = mask 12" "(0x1FFFF :: u64) = mask 17" "(1 :: u64) = mask 1"
  by (simp_all add: mask_eq_exp_minus_1)

lemma airborne_fields:
  fixes tc a d y x :: u64
  assumes b: "tc < 2 ^ 5" "a < 2 ^ 12" "d < 2 ^ 1" "y < 2 ^ 17" "x < 2 ^ 17"
  defines "me \<equiv> push_bit 51 tc OR push_bit 36 a OR push_bit 34 d OR push_bit 17 y OR x"
  shows "drop_bit 51 me AND mask 5 = tc" "drop_bit 36 me AND mask 12 = a" "drop_bit 34 me AND mask 1 = d"
    "drop_bit 17 me AND mask 17 = y" "me AND mask 17 = x" "me AND mask 56 = me"
proof -
  note dest = word_less_bitD [OF b(1)] word_less_bitD [OF b(2)] word_less_bitD [OF b(3)]
    word_less_bitD [OF b(4)] word_less_bitD [OF b(5)]
  show "drop_bit 51 me AND mask 5 = tc"
    unfolding me_def by (rule bit_word_eqI, simp only: bit_only) (fastforce dest: dest)
  show "drop_bit 36 me AND mask 12 = a"
    unfolding me_def by (rule bit_word_eqI, simp only: bit_only) (fastforce dest: dest)
  show "drop_bit 34 me AND mask 1 = d"
    unfolding me_def by (rule bit_word_eqI, simp only: bit_only) (fastforce dest: dest)
  show "drop_bit 17 me AND mask 17 = y"
    unfolding me_def by (rule bit_word_eqI, simp only: bit_only) (fastforce dest: dest)
  show "me AND mask 17 = x"
    unfolding me_def by (rule bit_word_eqI, simp only: bit_only) (fastforce dest: dest)
  show "me AND mask 56 = me"
    unfolding me_def by (rule bit_word_eqI, simp only: bit_only) (fastforce dest: dest)
qed

lemma of_nat_less_pow: "v < 2 ^ k \<Longrightarrow> k < 64 \<Longrightarrow> (of_nat v :: u64) < 2 ^ k \<and> unat (of_nat v :: u64) = v"
proof -
  assume v: "v < 2 ^ k" and k: "k < (64 :: nat)"
  then have "v < 2 ^ 64"
    using power_strict_increasing [of k 64 "2 :: nat"] by linarith
  then have u: "unat (of_nat v :: u64) = v"
    by (simp add: unat_of_nat)
  moreover have "unat (2 ^ k :: u64) = 2 ^ k"
    using unat_of_nat [of "2 ^ k", where 'a = 64] power_strict_increasing [OF k, of "2 :: nat"] by simp
  ultimately show ?thesis
    using v by (simp add: word_less_nat_alt)
qed

lemma ucast_less_pow:
  fixes a :: "'a::len word"
  assumes a: "a < 2 ^ k" and k: "k < 64" "LENGTH('a) \<le> 64"
  shows "(ucast a :: u64) < 2 ^ k \<and> ucast (ucast a :: u64) = a"
proof
  show "(ucast a :: u64) < 2 ^ k"
    by (rule word_less_bitI) (use k in \<open>auto simp: bit_only dest: word_less_bitD [OF a]\<close>)
  show "ucast (ucast a :: u64) = a"
    by (rule bit_word_eqI) (use k in \<open>simp add: bit_only\<close>)
qed

lemma airborne_me_fields:
  fixes oddf :: bool
  assumes "tc < 2 ^ 5" "a < 2 ^ 12" "yz < 2 ^ 17" "xz < 2 ^ 17"
  defines "me \<equiv> airborne_me tc a oddf yz xz"
  shows "drop_bit 51 me AND 0x1F = tc" "ucast (drop_bit 36 me AND 0xFFF) = a" "drop_bit 34 me AND 1 = 1 \<longleftrightarrow> oddf"
    "unat (drop_bit 17 me AND 0x1FFFF) = yz" "unat (me AND 0x1FFFF) = xz" "me AND mask 56 = me"
proof -
  have a: "(ucast a :: u64) < 2 ^ 12" "ucast (ucast a :: u64) = a" and o: "(of_bool oddf :: u64) < 2 ^ 1"
    using ucast_less_pow [OF assms(2)] by simp_all
  note n = of_nat_less_pow [OF assms(3)] of_nat_less_pow [OF assms(4)]
  have y: "(of_nat yz :: u64) < 2 ^ 17" and x: "(of_nat xz :: u64) < 2 ^ 17"
    using n by simp_all
  note F = airborne_fields [OF assms(1) a(1) o y x, folded airborne_me_def me_def]
  show "drop_bit 51 me AND 0x1F = tc" "me AND mask 56 = me"
    unfolding lits_64 by (fact F(1), fact F(6))
  show "ucast (drop_bit 36 me AND 0xFFF) = a"
    unfolding lits_64 F by (fact a(2))
  show "drop_bit 34 me AND 1 = 1 \<longleftrightarrow> oddf"
    using F(3) by (simp add: mask_eq_exp_minus_1)
  show "unat (drop_bit 17 me AND 0x1FFFF) = yz" "unat (me AND 0x1FFFF) = xz"
    unfolding lits_64 F using n by simp_all
qed

lemma format_byte: "drop_bit 3 (push_bit 3 17 OR (ca AND 0x7)) = (17 :: u8)" "drop_bit 3 (push_bit 3 11 OR (ca AND 0x7)) = (11 :: u8)"
proof -
  have "drop_bit 3 (push_bit 3 f OR (ca AND 0x7)) = f" if f: "f < 2 ^ 5" for f :: u8
  proof -
    have m: "(0x7 :: u8) = mask 3"
      by (simp add: mask_eq_exp_minus_1)
    show ?thesis
      unfolding m by (rule bit_word_eqI, simp only: bit_only) (auto dest: word_less_bitD [OF f])
  qed
  from this [of 17] this [of 11] show "drop_bit 3 (push_bit 3 17 OR (ca AND 0x7)) = (17 :: u8)"
    "drop_bit 3 (push_bit 3 11 OR (ca AND 0x7)) = (11 :: u8)"
    by simp_all
qed

lemma sealed_crc [simp]: "crc24 (sealed f) = 0"
  unfolding sealed_def by (rule crc24.sealed_checks)

lemma sealed_airborne_bytes:
  assumes "f = sealed ([b0] @ be24 v @ me_bytes me)"
  shows "length f = 14" "f ! 0 = b0" "join24 (f ! 1) (f ! 2) (f ! 3) = v AND 0xFFFFFF"
    "from_be [0, f ! 4, f ! 5, f ! 6, f ! 7, f ! 8, f ! 9, f ! 10] = (me AND mask 56 :: u64)" "crc24 f = 0"
proof -
  obtain x y z where v: "be24 v = [x, y, z]" "join24 x y z = v AND 0xFFFFFF"
    by (rule be24_cases)
  obtain p q r where p: "be24 (crc24 ([b0] @ be24 v @ me_bytes me)) = [p, q, r]"
    by (rule be24_cases)
  show "crc24 f = 0"
    by (simp add: assms)
  show "length f = 14" "f ! 0 = b0" "join24 (f ! 1) (f ! 2) (f ! 3) = v AND 0xFFFFFF"
    unfolding assms sealed_def p unfolding v(1) me_bytes_list by (simp_all add: v(2))
  have "[0, f ! 4, f ! 5, f ! 6, f ! 7, f ! 8, f ! 9, f ! 10] = 0 # me_bytes me"
    unfolding assms sealed_def p v me_bytes_list by simp
  then show "from_be [0, f ! 4, f ! 5, f ! 6, f ! 7, f ! 8, f ! 9, f ! 10] = (me AND mask 56 :: u64)"
    by (simp only: from_be_me_bytes)
qed

lemma parse_df17_sealed:
  fixes tc :: u8
  assumes tc: "9 \<le> tc" "tc \<le> 18" and a: "a < 2 ^ 12" and c: "yz < 2 ^ 17" "xz < 2 ^ 17"
  shows "parse_df17_airborne (sealed ([push_bit 3 17 OR (ca AND 0x7)] @ be24 v @ me_bytes (airborne_me (ucast tc) a oddf yz xz)))
    = Some \<lparr>df17_icao = Icao (v AND 0xFFFFFF), df17_odd = oddf, cpr_lat = yz, cpr_lon = xz, df17_alt_ft = ac12_decode a\<rparr>"
proof -
  define me where "me = airborne_me (ucast tc) a oddf yz xz"
  define f where "f = sealed ([push_bit 3 17 OR (ca AND 0x7)] @ be24 v @ me_bytes me)"
  have "tc < 2 ^ 5"
    using tc(2) by (rule le_less_trans) simp
  then have t: "(ucast tc :: u64) < 2 ^ 5" "ucast (ucast tc :: u64) = tc"
    using ucast_less_pow [of tc 5] by simp_all
  note F = airborne_me_fields [OF t(1) a c, of oddf, folded me_def]
  show ?thesis
    unfolding me_def [symmetric] f_def [symmetric] parse_df17_airborne_def Let_def
      sealed_airborne_bytes [OF f_def] format_byte F t(2)
    using tc by simp
qed

lemma burst_rejected:
  assumes "parse_df17_airborne f = Some d" "length e = 3" "e \<noteq> [0, 0, 0]" "i + 3 \<le> 14"
  shows "parse_df17_airborne (map2 (XOR) f (replicate i 0 @ e @ replicate (11 - i) 0)) = None"
proof -
  have "length f = 14" "crc24 f = 0"
    using assms(1) by (auto simp: parse_df17_airborne_def split: if_splits)
  with crc24_burst [OF this(2) assms(2,3), of i] assms(4) show ?thesis
    by (simp add: parse_df17_airborne_def)
qed

subsection \<open>Short replies\<close>

lemma xor_address: "(c XOR (v AND 0xFFFFFF)) AND 0xFFFFFF = (c XOR v) AND 0xFFFFFF" for c v :: u32
  by (rule bit_word_eqI) (auto simp: bit_simps)

lemma from_be_head: "from_be (ucast (drop_bit 24 h) # be24 h) = (h :: u32)"
proof -
  have "ucast (drop_bit 24 h) # be24 h = map (\<lambda>i. ucast (drop_bit (8 * (4 - 1 - i)) h) :: u8) [0..<4]"
    by (simp add: be24_def upt_rec)
  then have "from_be (ucast (drop_bit 24 h) # be24 h) = h AND mask 32"
    using from_be_bytes [of 4 h] by simp
  also have "\<dots> = h"
    by (rule bit_word_eqI) (simp add: bit_simps)
  finally show ?thesis .
qed

definition df4_head :: "u8 \<Rightarrow> u16 \<Rightarrow> u32" where
  "df4_head fs ac = push_bit 27 4 OR push_bit 24 (ucast fs AND 0x7) OR ucast ac"

lemma df4_head_fields:
  assumes a: "ac < 2 ^ 13"
  shows "ucast (df4_head fs ac AND 0x1FFF) = ac" "drop_bit 3 (ucast (drop_bit 24 (df4_head fs ac)) :: u8) = 4"
proof -
  have l: "(0x1FFF :: u32) = mask 13" "(4 :: u32) = push_bit 2 1" "(4 :: u8) = push_bit 2 1" "(0x7 :: u32) = mask 3"
    by (simp_all add: mask_eq_exp_minus_1)
  show "ucast (df4_head fs ac AND 0x1FFF) = ac"
    unfolding df4_head_def l
    by (rule bit_word_eqI, simp only: bit_only) (auto dest: word_less_bitD [OF a])
  show "drop_bit 3 (ucast (drop_bit 24 (df4_head fs ac)) :: u8) = 4"
    unfolding df4_head_def l
    by (rule bit_word_eqI, simp only: bit_only) (auto dest: word_less_bitD [OF a])
qed

lemma df4_unfold:
  "df4 i fs alt = Some f \<longleftrightarrow>
    (\<exists>ac. ac13 alt = Some ac \<and> f = (let h = ucast (drop_bit 24 (df4_head fs ac)) # be24 (df4_head fs ac)
      in h @ be24 (crc24 h XOR icao_val i)))"
  by (auto simp: df4_def df4_head_def Let_def split: option.splits)

lemma parse_df4_built:
  assumes "df4 i fs alt = Some f"
  shows "parse_df4 f = Some (Icao (icao_val i AND 0xFFFFFF), Some (25 * alt_n alt - 1000))"
proof -
  obtain ac where ac: "ac13 alt = Some ac" and f: "f = (let h = ucast (drop_bit 24 (df4_head fs ac)) # be24 (df4_head fs ac)
      in h @ be24 (crc24 h XOR icao_val i))"
    using assms unfolding df4_unfold by blast
  define h where "h = ucast (drop_bit 24 (df4_head fs ac)) # be24 (df4_head fs ac)"
  obtain x y z where h3: "be24 (df4_head fs ac) = [x, y, z]"
    by (rule be24_cases)
  obtain p q r where p: "be24 (crc24 h XOR icao_val i) = [p, q, r]" "join24 p q r = (crc24 h XOR icao_val i) AND 0xFFFFFF"
    by (rule be24_cases)
  have hh: "h = [ucast (drop_bit 24 (df4_head fs ac)), x, y, z]" "f = h @ [p, q, r]"
    using f unfolding Let_def h_def [symmetric] p(1) by (simp_all add: h_def h3)
  note b = ac13_decoded [OF ac]
  have head: "from_be [f ! 0, f ! 1, f ! 2, f ! 3] = df4_head fs ac"
    using from_be_head [of "df4_head fs ac"] by (simp add: h3 hh)
  have "crc24 h XOR (crc24 h XOR icao_val i) = icao_val i"
    by (simp flip: xor.assoc)
  then have addr: "(crc24 (take 4 f) XOR join24 (f ! 4) (f ! 5) (f ! 6)) AND 0xFFFFFF = icao_val i AND 0xFFFFFF"
    using p(2) xor_address [of "crc24 h" "crc24 h XOR icao_val i"] by (simp add: hh)
  show ?thesis
    unfolding parse_df4_def Let_def head addr
    using df4_head_fields [of ac fs] b by (simp add: hh)
qed

lemma parse_df11_built: "parse_df11 (df11 i ca) = Some (Icao (icao_val i AND 0xFFFFFF))"
proof -
  obtain x y z where v: "be24 (icao_val i) = [x, y, z]" "join24 x y z = icao_val i AND 0xFFFFFF"
    by (rule be24_cases)
  obtain p q r where p: "be24 (crc24 ([push_bit 3 11 OR (ca AND 0x7)] @ [x, y, z])) = [p, q, r]"
    by (rule be24_cases)
  show ?thesis
    unfolding parse_df11_def df11_def sealed_def v(1) p using format_byte(2) [of ca] v(2) by simp
qed

lemma df17_built_parses:
  assumes "df17_airborne_position i ca tc alt lat lon oddf = Some f" "9 \<le> tc" "tc \<le> 18"
  shows "parse_df17_airborne f = Some \<lparr>df17_icao = Icao (icao_val i AND 0xFFFFFF), df17_odd = oddf,
    cpr_lat = fst (encode_airborne lat lon oddf), cpr_lon = snd (encode_airborne lat lon oddf),
    df17_alt_ft = Some (25 * alt_n alt - 1000)\<rparr>"
proof -
  obtain a where a: "ac12 alt = Some a"
    using assms(1) by (auto simp: df17_airborne_position_def split: option.splits)
  obtain yz xz where c: "encode_airborne lat lon oddf = (yz, xz)"
    by fastforce
  then have b: "yz < 2 ^ 17" "xz < 2 ^ 17"
    using cpr_frac_less by (auto simp: encode_airborne_def Let_def)
  from assms(1) have f: "f = sealed ([push_bit 3 17 OR (ca AND 0x7)] @ be24 (icao_val i) @ me_bytes (airborne_me (ucast tc) a oddf yz xz))"
    unfolding df17_airborne_position_def a c option.case Let_def prod.case option.inject by (rule sym)
  show ?thesis
    unfolding f using parse_df17_sealed [OF assms(2,3) _ b, of a] ac12_decoded [OF a] by (simp only: c fst_conv snd_conv)
qed

subsection \<open>Properties\<close>

text \<open>
  C24. A DF17 position frame round-trips through the parser: an encodable altitude and a
  valid type code give a 14-byte frame from which the parser recovers the address's low
  24 bits, the format flag, exactly the CPR values of the position, and the altitude
  floored to the 25-foot grid.
\<close>

theorem df17_roundtrip:
  assumes "df17_airborne_position i ca tc alt lat lon oddf = Some f" "9 \<le> tc" "tc \<le> 18"
  shows "parse_df17_airborne f = Some \<lparr>df17_icao = Icao (icao_val i AND 0xFFFFFF), df17_odd = oddf,
    cpr_lat = fst (encode_airborne lat lon oddf), cpr_lon = snd (encode_airborne lat lon oddf),
    df17_alt_ft = Some (25 * alt_n alt - 1000)\<rparr>"
  using assms by (rule df17_built_parses)

theorem df17_roundtrip_witness:
  "\<exists>f. df17_airborne_position (Icao 0x3C6444) 5 11 35000 47.2 (-1.5) True = Some f \<and>
    map_option df17_alt_ft (parse_df17_airborne f) = Some (Some 35000)"
proof -
  have a: "alt_n 35000 = 1440"
    by (simp add: alt_n_def wrap_i32_def trunc_div_def)
  then obtain f where f: "df17_airborne_position (Icao 0x3C6444) 5 11 35000 47.2 (-1.5) True = Some f"
    by (cases "encode_airborne 47.2 (-1.5) True") (auto simp: df17_airborne_position_def ac12_def Let_def)
  from df17_roundtrip [OF this] a show ?thesis
    by (intro exI [of _ f] conjI f) simp
qed

text \<open>
  C25. Error detection: an accepted DF17 frame, corrupted anywhere inside one window of
  three consecutive bytes, is refused by the parser.
\<close>

theorem corrupted_df17_rejected:
  assumes "parse_df17_airborne f = Some d" "length e = 3" "e \<noteq> [0, 0, 0]" "i + 3 \<le> 14"
  shows "parse_df17_airborne (map2 (XOR) f (replicate i 0 @ e @ replicate (11 - i) 0)) = None"
  using assms by (rule burst_rejected)

text \<open>
  The short replies round-trip: a DF4 reply gives back the address, recovered from
  the parity overlay, and the altitude on the 25-foot grid; a DF11 squitter gives back the
  address, and its seven bytes have a zero remainder.
\<close>

theorem short_replies_roundtrip:
  "(\<forall>f. df4 i fs alt = Some f \<longrightarrow>
      parse_df4 f = Some (Icao (icao_val i AND 0xFFFFFF), Some (25 * alt_n alt - 1000))) \<and>
   parse_df11 (df11 i ca) = Some (Icao (icao_val i AND 0xFFFFFF)) \<and> crc24 (df11 i ca) = 0"
  using parse_df4_built parse_df11_built by (simp add: df11_def)

theorem short_replies_roundtrip_witness:
  "\<exists>f. df4 (Icao 0x3944F1) 0 21000 = Some f \<and> parse_df4 f = Some (Icao 0x3944F1, Some 21000)"
proof -
  have a: "alt_n 21000 = 880"
    by (simp add: alt_n_def wrap_i32_def trunc_div_def)
  then obtain f where f: "df4 (Icao 0x3944F1) 0 21000 = Some f"
    by (auto simp: df4_def ac13_def Let_def)
  with short_replies_roundtrip [of "Icao 0x3944F1" 0 21000 0] a show ?thesis
    by auto
qed

theorem corrupted_df17_rejected_witness:
  "parse_df17_airborne [0x8D, 0x40, 0x62, 0x1D, 0x58, 0xC3, 0x82, 0xD6, 0x90, 0xC8, 0xAC, 0x28, 0x63, 0xA7] \<noteq> None \<and>
   parse_df17_airborne [0x8D, 0x40, 0x62, 0x1D, 0x58, 0x83, 0x82, 0xD6, 0x90, 0xC8, 0xAC, 0x28, 0x63, 0xA7] = None"
proof -
  let ?f = "[0x8D, 0x40, 0x62, 0x1D, 0x58, 0xC3, 0x82, 0xD6, 0x90, 0xC8, 0xAC, 0x28, 0x63, 0xA7] :: bytes"
  have "parse_df17_airborne ?f \<noteq> None"
    by (simp add: parse_df17_airborne_def crc_eval from_be_def Let_def)
  then obtain d where d: "parse_df17_airborne ?f = Some d"
    by blast
  have e: "length [0x40, 0, 0 :: u8] = 3" "[0x40, 0, 0 :: u8] \<noteq> [0, 0, 0]" "5 + 3 \<le> (14 :: nat)"
    by simp_all
  from d corrupted_df17_rejected [OF d e] show ?thesis
    by (simp add: numeral_eq_Suc)
qed

text \<open>
  C26. End to end over the air: build the even and the odd DF17 frame of one position for
  which the encoder's latitude does not carry into the next zone (\<open>carry_free\<close>: it excludes
  the sliver, half a latitude cell wide, in which the encoder takes its longitude zones from
  the wrong side), parse both, and globally decode the CPR values parsed. If the two grid
  latitudes fall in bands with the same number of longitude zones, the decoded latitude is
  within half a latitude cell of the true one and the longitude within half a longitude
  cell, up to whole turns; if they do not, the pair may be refused, and only then.
\<close>

theorem df17_pair_end_to_end:
  assumes "\<bar>lat\<bar> \<le> 90" "carry_free lat False" "carry_free lat True" "9 \<le> tc" "tc \<le> 18"
    and e: "df17_airborne_position i ca tc alt lat lon False = Some fe"
    and o: "df17_airborne_position i ca tc alt lat lon True = Some fo"
  shows "\<exists>e d. parse_df17_airborne fe = Some e \<and> parse_df17_airborne fo = Some d \<and>
    df17_icao e = df17_icao d \<and> \<not> df17_odd e \<and> df17_odd d \<and>
    (case global_decode_airborne (cpr_lat e, cpr_lon e) (cpr_lat d, cpr_lon d) r of
       None \<Rightarrow> nl (grid_lat lat False) \<noteq> nl (grid_lat lat True)
     | Some (lat', lon') \<Rightarrow>
        \<bar>lat' - lat\<bar> \<le> cpr_dlat r / 2 ^ 18 \<and>
        (\<exists>k :: int. \<bar>lon' - (lon + 360 * of_int k)\<bar> \<le> 360 / of_nat (cpr_nlon (nl lat') r) / 2 ^ 18))"
  using cpr_pair_decodes [OF assms(1-3)]
  by (auto simp: df17_built_parses [OF e assms(4,5)] df17_built_parses [OF o assms(4,5)])

theorem df17_pair_end_to_end_witness:
  "\<exists>fe fo e d lat lon. df17_airborne_position (Icao 1) 5 11 1000 1 2 False = Some fe \<and>
    df17_airborne_position (Icao 1) 5 11 1000 1 2 True = Some fo \<and>
    parse_df17_airborne fe = Some e \<and> parse_df17_airborne fo = Some d \<and>
    global_decode_airborne (cpr_lat e, cpr_lon e) (cpr_lat d, cpr_lon d) True = Some (lat, lon) \<and>
    \<bar>lat - 1\<bar> \<le> 360 / 59 / 2 ^ 18"
proof -
  have cf: "carry_free 1 False" "carry_free 1 True"
    by (simp_all add: carry_free_iff cpr_dlat_simps)
  have "alt_n 1000 = 80"
    by (simp add: alt_n_def wrap_i32_def trunc_div_def)
  then obtain fe fo where f: "df17_airborne_position (Icao 1) 5 11 1000 1 2 False = Some fe"
    "df17_airborne_position (Icao 1) 5 11 1000 1 2 True = Some fo"
    by (cases "encode_airborne 1 2 True"; cases "encode_airborne 1 2 False")
      (auto simp: df17_airborne_position_def ac12_def Let_def)
  show ?thesis
    using df17_pair_end_to_end [OF _ cf _ _ f, of True] f nl_grid_lat_1
    by (fastforce simp: cpr_dlat_simps split: option.splits)
qed

end
