(* ===== verification/Text.thy ===== *)
theory Text
  imports Geo
begin

text \<open>
  What the program uses of the standard library on text: decimal formatting of integers
  and fixed-point numbers, \<open>str::parse::<f64>\<close>, \<open>split\<close> and case conversion, on ASCII
  strings.
\<close>

subsection \<open>Decimal text\<close>

definition dec_digit :: "nat \<Rightarrow> char" where
  "dec_digit d = char_of (48 + d)"

fun dec :: "nat \<Rightarrow> string" where
  "dec n = (if n < 10 then [dec_digit n] else dec (n div 10) @ [dec_digit (n mod 10)])"

declare dec.simps [simp del]

definition pad0 :: "nat \<Rightarrow> string \<Rightarrow> string" where
  "pad0 w s = replicate (w - length s) CHR ''0'' @ s"

text \<open>\<open>{:0w}\<close> of an integer: zeros after the sign up to the width.\<close>

definition fmt_int :: "nat \<Rightarrow> int \<Rightarrow> string" where
  "fmt_int w k = (if k < 0 then CHR ''-'' # pad0 (w - 1) (dec (nat (- k))) else pad0 w (dec (nat k)))"

text \<open>\<open>{:.p}\<close> of a finite number: ties to even.\<close>

definition round_even :: "real \<Rightarrow> int" where
  "round_even x =
     (let f = \<lfloor>x\<rfloor>; d = x - of_int f
      in if d < 1 / 2 then f else if d > 1 / 2 then f + 1 else if even f then f else f + 1)"

definition fmt_fixed :: "nat \<Rightarrow> real \<Rightarrow> string" where
  "fmt_fixed p x =
     (let k = nat (round_even (\<bar>x\<bar> * 10 ^ p))
      in (if x < 0 then ''-'' else []) @ dec (k div 10 ^ p) @ (if p = 0 then [] else CHR ''.'' # pad0 p (dec (k mod 10 ^ p))))"

subsection \<open>Parsing numbers\<close>

datatype float_lit = Finite real | Infinite bool | Not_a_number

definition is_digit :: "char \<Rightarrow> bool" where
  "is_digit c = (let n = of_char c :: nat in 48 \<le> n \<and> n \<le> 57)"

definition nat_of_digits :: "string \<Rightarrow> nat" where
  "nat_of_digits s = foldl (\<lambda>acc c. acc * 10 + (of_char c - 48)) 0 s"

definition to_ascii_lowercase :: "string \<Rightarrow> string" where
  "to_ascii_lowercase s = map (\<lambda>c. let n = of_char c :: nat in if 65 \<le> n \<and> n \<le> 90 then char_of (n + 32) else c) s"

definition to_ascii_uppercase :: "string \<Rightarrow> string" where
  "to_ascii_uppercase s = map (\<lambda>c. let n = of_char c :: nat in if 97 \<le> n \<and> n \<le> 122 then char_of (n - 32) else c) s"

text \<open>An optional sign: whether it is a minus, and the rest.\<close>

definition strip_sign :: "string \<Rightarrow> bool \<times> string" where
  "strip_sign s =
     (case s of [] \<Rightarrow> (False, []) | c # cs \<Rightarrow> if c = CHR ''-'' then (True, cs) else if c = CHR ''+'' then (False, cs) else (False, s))"

definition parse_exponent :: "string \<Rightarrow> int option" where
  "parse_exponent s =
     (case s of
        [] \<Rightarrow> Some 0
      | c # cs \<Rightarrow>
          if c \<noteq> CHR ''e'' \<and> c \<noteq> CHR ''E'' then None
          else let (neg, ds) = strip_sign cs
               in if ds = [] \<or> \<not> list_all is_digit ds then None
                  else Some (if neg then - int (nat_of_digits ds) else int (nat_of_digits ds)))"

definition parse_number :: "string \<Rightarrow> real option" where
  "parse_number s =
     (let whole = takeWhile is_digit s; rest = dropWhile is_digit s;
          (frac, rest) = (case rest of [] \<Rightarrow> ([], []) | c # cs \<Rightarrow> if c = CHR ''.'' then (takeWhile is_digit cs, dropWhile is_digit cs) else ([], rest))
      in if whole = [] \<and> frac = [] then None
         else map_option (\<lambda>e. of_nat (nat_of_digits (whole @ frac)) * 10 powi (e - int (length frac))) (parse_exponent rest))"

definition parse_f64 :: "string \<Rightarrow> float_lit option" where
  "parse_f64 s =
     (let (neg, r) = strip_sign s
      in if to_ascii_lowercase r = ''inf'' \<or> to_ascii_lowercase r = ''infinity'' then Some (Infinite neg)
         else if to_ascii_lowercase r = ''nan'' then Some Not_a_number
         else map_option (\<lambda>x. Finite (if neg then - x else x)) (parse_number r))"

subsection \<open>Splitting\<close>

fun split_on :: "char \<Rightarrow> string \<Rightarrow> string list" where
  "split_on c [] = [[]]"
| "split_on c (d # s) = (if d = c then [] # split_on c s else (case split_on c s of [] \<Rightarrow> [[d]] | w # ws \<Rightarrow> (d # w) # ws))"

fun join_with :: "char \<Rightarrow> string list \<Rightarrow> string" where
  "join_with c [] = []"
| "join_with c [w] = w"
| "join_with c (w # ws) = w @ c # join_with c ws"

definition trim_end :: "string \<Rightarrow> string" where
  "trim_end s = rev (dropWhile is_white (rev s))"

subsection \<open>Lemmas\<close>

lemma split_on_nonempty: "split_on c s \<noteq> []"
  by (cases s) (auto split: list.split)

lemma split_on_plain: "c \<notin> set w \<Longrightarrow> split_on c w = [w]"
  by (induction w) auto

lemma split_on_append: "c \<notin> set w \<Longrightarrow> split_on c (w @ c # s) = w # split_on c s"
  by (induction w) auto

lemma split_join: "ws \<noteq> [] \<Longrightarrow> \<forall>w \<in> set ws. c \<notin> set w \<Longrightarrow> split_on c (join_with c ws) = ws"
  by (induction c ws rule: join_with.induct) (simp_all add: split_on_plain split_on_append)

lemma of_char_dec_digit: "d < 10 \<Longrightarrow> (of_char (dec_digit d) :: nat) = 48 + d"
  by (simp add: dec_digit_def)

lemma dec_digit_is_digit: "d < 10 \<Longrightarrow> is_digit (dec_digit d)"
  by (simp add: is_digit_def of_char_dec_digit)

lemma nat_of_digits_snoc: "nat_of_digits (s @ [c]) = nat_of_digits s * 10 + (of_char c - 48)"
  by (simp add: nat_of_digits_def)

lemma dec_small: "n < 10 \<Longrightarrow> dec n = [dec_digit n]"
  by (simp add: dec.simps)

lemma dec_big: "10 \<le> n \<Longrightarrow> dec n = dec (n div 10) @ [dec_digit (n mod 10)]"
  by (simp add: dec.simps [of n])

lemma dec_induct: "(\<And>n. n < 10 \<Longrightarrow> P n) \<Longrightarrow> (\<And>n. 10 \<le> n \<Longrightarrow> P (n div 10) \<Longrightarrow> P n) \<Longrightarrow> P n" for P :: "nat \<Rightarrow> bool"
  by (induction n rule: dec.induct) (metis not_less)

lemma dec_digits: "list_all is_digit (dec n)"
  by (induction n rule: dec_induct) (simp_all add: dec_small dec_big dec_digit_is_digit)

lemma dec_nonempty: "dec n \<noteq> []"
  by (cases "n < 10") (simp_all add: dec_small dec_big)

lemma dec_value: "nat_of_digits (dec n) = n"
  by (induction n rule: dec_induct) (simp_all add: dec_small dec_big nat_of_digits_snoc of_char_dec_digit, simp add: nat_of_digits_def of_char_dec_digit)

lemma dec_length: "0 < w \<Longrightarrow> n < 10 ^ w \<Longrightarrow> length (dec n) \<le> w"
proof (induction w arbitrary: n)
  case (Suc w)
  show ?case
  proof (cases "n < 10")
    case True
    then show ?thesis
      by (simp add: dec_small)
  next
    case False
    then have "n div 10 < 10 ^ w" "0 < w"
      using Suc.prems(2) by (auto simp: less_mult_imp_div_less mult.commute intro: Nat.gr0I)
    then show ?thesis
      using Suc.IH [of "n div 10"] False by (simp add: dec_big)
  qed
qed simp

lemma nat_of_digits_append: "nat_of_digits (s @ t) = nat_of_digits s * 10 ^ length t + nat_of_digits t"
  by (induction t rule: rev_induct)
    (simp_all add: nat_of_digits_snoc algebra_simps flip: append_assoc, simp add: nat_of_digits_def)

lemma pad0_digits: "list_all is_digit s \<Longrightarrow> list_all is_digit (pad0 w s)"
  by (auto simp: pad0_def list_all_iff is_digit_def)

lemma pad0_value: "nat_of_digits (pad0 w s) = nat_of_digits s"
proof -
  have "nat_of_digits (replicate k CHR ''0'') = 0" for k
    by (induction k) (simp_all add: nat_of_digits_def)
  then show ?thesis
    by (simp add: pad0_def nat_of_digits_append)
qed

lemma pad0_length: "length (pad0 w s) = max w (length s)"
  by (simp add: pad0_def)

subsection \<open>Formatted numbers are read back\<close>

lemma digit_plain: "is_digit c \<Longrightarrow> c \<noteq> CHR ''-'' \<and> c \<noteq> CHR ''+'' \<and> c \<noteq> CHR ''.'' \<and> c \<noteq> CHR '','' \<and> \<not> is_white c"
  by (auto simp: is_digit_def is_white_def)

lemma digit_lower: "is_digit c \<Longrightarrow> to_ascii_lowercase (c # s) = c # to_ascii_lowercase s"
  by (simp add: to_ascii_lowercase_def is_digit_def Let_def)

lemma takeWhile_digits [simp]: "list_all is_digit a \<Longrightarrow> takeWhile is_digit (a @ CHR ''.'' # s) = a" "list_all is_digit a \<Longrightarrow> takeWhile is_digit a = a"
  "list_all is_digit a \<Longrightarrow> dropWhile is_digit (a @ CHR ''.'' # s) = CHR ''.'' # s" "list_all is_digit a \<Longrightarrow> dropWhile is_digit a = []"
  by (induction a) (simp_all add: is_digit_def)

lemma parse_number_digits: "list_all is_digit a \<Longrightarrow> a \<noteq> [] \<Longrightarrow> parse_number a = Some (of_nat (nat_of_digits a))"
  by (simp add: parse_number_def parse_exponent_def)

lemma parse_number_point:
  "list_all is_digit a \<Longrightarrow> list_all is_digit b \<Longrightarrow> a \<noteq> [] \<Longrightarrow>
    parse_number (a @ CHR ''.'' # b) = Some (of_nat (nat_of_digits (a @ b)) / 10 ^ length b)"
  by (simp add: parse_number_def parse_exponent_def power_int_minus divide_inverse)

lemma parse_f64_unsigned: "is_digit c \<Longrightarrow> parse_f64 (c # s) = map_option Finite (parse_number (c # s))"
  using digit_plain [of c] by (auto simp: parse_f64_def strip_sign_def digit_lower is_digit_def intro!: arg_cong2 [where f = map_option])

lemma parse_f64_minus: "is_digit c \<Longrightarrow> parse_f64 (CHR ''-'' # c # s) = map_option (\<lambda>x. Finite (- x)) (parse_number (c # s))"
  using digit_plain [of c] by (auto simp: parse_f64_def strip_sign_def digit_lower is_digit_def)

text \<open>The value a formatted number stands for.\<close>

definition fixed_value :: "nat \<Rightarrow> real \<Rightarrow> real" where
  "fixed_value p x = (let v = of_int (round_even (\<bar>x\<bar> * 10 ^ p)) / 10 ^ p in if x < 0 then - v else v)"

lemma round_even_near: "\<bar>of_int (round_even x) - x\<bar> \<le> 1 / 2"
  using floor_correct [of x] by (auto simp: round_even_def Let_def abs_le_iff)

lemma round_even_nonneg: "0 \<le> x \<Longrightarrow> 0 \<le> round_even x"
proof -
  assume "0 \<le> x"
  then have "0 \<le> \<lfloor>x\<rfloor>"
    by simp
  then show ?thesis
    by (auto simp: round_even_def Let_def)
qed

lemma fixed_value_near: "\<bar>fixed_value p x - x\<bar> \<le> 1 / (2 * 10 ^ p)"
proof -
  have "\<bar>of_int (round_even (\<bar>x\<bar> * 10 ^ p)) - \<bar>x\<bar> * 10 ^ p\<bar> \<le> 1 / 2"
    by (rule round_even_near)
  then have "\<bar>of_int (round_even (\<bar>x\<bar> * 10 ^ p)) / 10 ^ p - \<bar>x\<bar>\<bar> \<le> 1 / 2 / 10 ^ p"
    by (auto simp: abs_le_iff field_simps)
  then show ?thesis
    by (auto simp: fixed_value_def Let_def abs_le_iff split: if_splits)
qed

lemma fixed_fraction:
  fixes p k
  defines "f \<equiv> pad0 p (dec (k mod 10 ^ p))"
  assumes "0 < p"
  shows "list_all is_digit f" "length f = p" "nat_of_digits (dec (k div 10 ^ p) @ f) = k"
proof -
  show "list_all is_digit f"
    by (simp add: f_def pad0_digits dec_digits)
  show l: "length f = p"
    using dec_length [OF assms(2), of "k mod 10 ^ p"] by (simp add: f_def pad0_length)
  show "nat_of_digits (dec (k div 10 ^ p) @ f) = k"
    unfolding nat_of_digits_append l using div_mult_mod_eq [of k "10 ^ p"] by (simp add: f_def pad0_value dec_value)
qed

lemma parse_fmt_fixed: "0 < p \<Longrightarrow> parse_f64 (fmt_fixed p x) = Some (Finite (fixed_value p x))"
proof -
  assume p: "0 < p"
  define k where "k = nat (round_even (\<bar>x\<bar> * 10 ^ p))"
  have k: "of_int (round_even (\<bar>x\<bar> * 10 ^ p)) = real k"
    using round_even_nonneg [of "\<bar>x\<bar> * 10 ^ p"] by (simp add: k_def)
  obtain c s where cs: "dec (k div 10 ^ p) = c # s" "is_digit c" "list_all is_digit (c # s)"
    using dec_nonempty [of "k div 10 ^ p"] dec_digits [of "k div 10 ^ p"] by (cases "dec (k div 10 ^ p)") auto
  note F = fixed_fraction [OF p, of k]
  have n: "parse_number (c # s @ CHR ''.'' # pad0 p (dec (k mod 10 ^ p))) = Some (real k / 10 ^ p)"
    using parse_number_point [OF cs(3) F(1)] F(2,3) cs(1) by simp
  show ?thesis
    using p n cs(2) by (simp add: fmt_fixed_def k_def [symmetric] fixed_value_def k cs(1) Let_def parse_f64_unsigned parse_f64_minus)
qed

lemma parse_fmt_int: "parse_f64 (fmt_int 0 k) = Some (Finite (of_int k))"
proof -
  obtain c s where cs: "dec (nat \<bar>k\<bar>) = c # s" "is_digit c" "list_all is_digit (c # s)"
    using dec_nonempty [of "nat \<bar>k\<bar>"] dec_digits [of "nat \<bar>k\<bar>"] by (cases "dec (nat \<bar>k\<bar>)") auto
  have "parse_number (c # s) = Some (real (nat \<bar>k\<bar>))"
    using parse_number_digits [OF cs(3)] dec_value [of "nat \<bar>k\<bar>"] cs(1) by simp
  then show ?thesis
    using cs by (cases "k < 0") (simp_all add: fmt_int_def pad0_def parse_f64_unsigned parse_f64_minus)
qed

definition number_char :: "char \<Rightarrow> bool" where
  "number_char c \<longleftrightarrow> is_digit c \<or> c = CHR ''-'' \<or> c = CHR ''.''"

lemma number_chars: "list_all number_char (fmt_fixed p x)" "list_all number_char (fmt_int w k)"
  using dec_digits pad0_digits [OF dec_digits] by (auto simp: fmt_fixed_def fmt_int_def number_char_def list_all_iff Let_def)

lemma number_char_plain: "number_char c \<Longrightarrow> c \<noteq> CHR '','' \<and> \<not> is_white c"
  using digit_plain [of c] by (auto simp: number_char_def is_white_def)

end
