(* ===== verification/Traffic.thy ===== *)
theory Traffic
  imports Text
begin

text \<open>
  Selective traffic of one connection: \<^verbatim>\<open>crates/mlatd/src/traffic.rs\<close>. The state is
  the code's struct; a hash set of addresses is a set, a hash map from addresses to times
  (seconds since the server's epoch) is a map. Strings are byte strings: a \<open>char\<close> is one
  byte of UTF-8, which is what \<open>str::len\<close>, \<open>str::bytes\<close> and \<open>str::get\<close> count.
\<close>

definition SYNC_IDLE_S :: real where "SYNC_IDLE_S = 30"
definition SUPPRESS_S :: real where "SUPPRESS_S = 60"
definition MAX_REQUESTED :: nat where "MAX_REQUESTED = 20000"

record traffic =
  cap :: nat
  requested :: "string set"
  sync :: "string \<rightharpoonup> real"
  suppressed :: "string \<rightharpoonup> real"

definition traffic_new :: "nat \<Rightarrow> traffic" where
  "traffic_new c = \<lparr>cap = c, requested = {}, sync = Map.empty, suppressed = Map.empty\<rparr>"

definition has_room :: "traffic \<Rightarrow> real \<Rightarrow> bool \<times> traffic" where
  "has_room t now =
     (if cap t = 0 then (True, t)
      else let t = t\<lparr>sync := retain (\<lambda>_ s. now - s < SYNC_IDLE_S) (sync t)\<rparr>
           in (card (dom (sync t)) < cap t, t))"

definition is_hexdigit :: "char \<Rightarrow> bool" where
  "is_hexdigit c \<longleftrightarrow> digit_val c \<noteq> None"

definition is_icao :: "string \<Rightarrow> bool" where
  "is_icao s \<longleftrightarrow> length s = 6 \<and> list_all is_hexdigit s"

text \<open>\<open>HashSet::insert\<close> answers whether the value was new.\<close>

definition request :: "traffic \<Rightarrow> string \<Rightarrow> bool \<times> traffic" where
  "request t a = (a \<notin> requested t, t\<lparr>requested := insert a (requested t)\<rparr>)"

definition offered :: "traffic \<Rightarrow> string \<Rightarrow> real \<Rightarrow> bool \<times> traffic" where
  "offered t a now =
     (if \<not> is_icao a then (False, t)
      else if MAX_REQUESTED \<le> card (requested t) \<and> a \<notin> requested t then (False, t)
      else case suppressed t a of
             None \<Rightarrow> request t a
           | Some since \<Rightarrow>
               if now - since < SUPPRESS_S then (False, t)
               else let (room, t) = has_room t now
                    in if \<not> room then (False, t)
                       else request (t\<lparr>suppressed := (suppressed t)(a := None)\<rparr>) a)"

definition on_sync :: "traffic \<Rightarrow> string \<Rightarrow> real \<Rightarrow> bool \<times> traffic" where
  "on_sync t a now =
     (if cap t = 0 then (True, t)
      else if sync t a \<noteq> None then (True, t\<lparr>sync := (sync t)(a \<mapsto> now)\<rparr>)
      else let (room, t) = has_room t now
           in if room then (True, t\<lparr>sync := (sync t)(a \<mapsto> now)\<rparr>)
              else (False, t\<lparr>requested := requested t - {a},
                      suppressed := (retain (\<lambda>_ s. now - s < 10 * SUPPRESS_S) (suppressed t))(a \<mapsto> now)\<rparr>))"

definition lost :: "traffic \<Rightarrow> string \<Rightarrow> traffic" where
  "lost t a = t\<lparr>requested := requested t - {a}, sync := (sync t)(a := None)\<rparr>"

text \<open>
  \<open>str::get(a..b)\<close>: the bytes from \<open>a\<close> up to \<open>b\<close>, refused when either end is past the
  string or inside a multi-byte character.
\<close>

definition char_boundary :: "string \<Rightarrow> nat \<Rightarrow> bool" where
  "char_boundary s i \<longleftrightarrow> i = length s \<or>
     (i < length s \<and> \<not> (128 \<le> (of_char (s ! i) :: nat) \<and> (of_char (s ! i) :: nat) < 192))"

definition str_get :: "string \<Rightarrow> nat \<Rightarrow> nat \<Rightarrow> string option" where
  "str_get s a b = (if a \<le> b \<and> char_boundary s a \<and> char_boundary s b then Some (take (b - a) (drop a s)) else None)"

text \<open>
  Two hexadecimal digits never exceed 8 bits, so \<open>u8::from_str_radix\<close> agrees with the
  32-bit parser here.
\<close>

definition adsb_icao :: "string \<Rightarrow> string option" where
  "adsb_icao hex =
     (if length hex \<noteq> 28 then None
      else case str_get hex 0 2 of
             None \<Rightarrow> None
           | Some d \<Rightarrow>
               (case u32_from_hex d of
                  None \<Rightarrow> None
                | Some v \<Rightarrow>
                    let df = v div 8
                    in if df \<noteq> 17 \<and> df \<noteq> 18 then None
                       else map_option to_ascii_lowercase (str_get hex 2 8)))"

subsection \<open>The component as a machine\<close>

datatype traffic_event =
    Offered string real
  | SyncPair string real
  | LostAc string

fun traffic_step :: "traffic \<Rightarrow> traffic_event \<Rightarrow> traffic" where
  "traffic_step t (Offered a now) = snd (offered t a now)"
| "traffic_step t (SyncPair a now) = snd (on_sync t a now)"
| "traffic_step t (LostAc a) = lost t a"

fun event_time :: "traffic_event \<Rightarrow> real option" where
  "event_time (Offered a now) = Some now"
| "event_time (SyncPair a now) = Some now"
| "event_time (LostAc a) = None"

definition in_window :: "real \<Rightarrow> real \<Rightarrow> traffic_event \<Rightarrow> bool" where
  "in_window lo hi e = (case event_time e of None \<Rightarrow> True | Some s \<Rightarrow> lo \<le> s \<and> s < hi)"

definition traffic_ok :: "nat \<Rightarrow> traffic \<Rightarrow> bool" where
  "traffic_ok c t \<longleftrightarrow> cap t = c \<and>
     finite (requested t) \<and> card (requested t) \<le> MAX_REQUESTED \<and> (\<forall>a \<in> requested t. is_icao a) \<and>
     requested t \<inter> dom (suppressed t) = {} \<and>
     finite (dom (sync t)) \<and> card (dom (sync t)) \<le> c \<and> (c = 0 \<longrightarrow> suppressed t = Map.empty)"

subsection \<open>Each operation keeps the invariant\<close>

lemma card_retain_le: "finite (dom m) \<Longrightarrow> card (dom (retain P m)) \<le> card (dom m)"
  by (rule card_mono [OF _ dom_retain_subset])

lemma has_room_ok: "traffic_ok c t \<Longrightarrow> has_room t now = (r, t') \<Longrightarrow> traffic_ok c t'"
  using card_retain_le [of "sync t"]
  by (fastforce simp: has_room_def traffic_ok_def Let_def split: if_splits intro: order_trans)

lemma has_room_frame:
  "has_room t now = (r, t') \<Longrightarrow> cap t' = cap t \<and> requested t' = requested t \<and> suppressed t' = suppressed t"
  by (auto simp: has_room_def Let_def split: if_splits)

lemma has_room_True:
  "has_room t now = (True, t') \<Longrightarrow> cap t \<noteq> 0 \<Longrightarrow> card (dom (sync t')) < cap t'"
  by (auto simp: has_room_def Let_def split: if_splits)

lemma request_ok:
  assumes "traffic_ok c t" "is_icao a" "card (requested t) < MAX_REQUESTED \<or> a \<in> requested t" "suppressed t a = None"
  shows "traffic_ok c (snd (request t a))"
  using assms by (auto simp: traffic_ok_def request_def card_insert_if insert_absorb)

lemma unsuppress_ok: "traffic_ok c t \<Longrightarrow> traffic_ok c (t\<lparr>suppressed := (suppressed t)(a := None)\<rparr>)"
  by (auto simp: traffic_ok_def)

lemma offered_ok:
  assumes ok: "traffic_ok c t"
  shows "traffic_ok c (snd (offered t a now))"
proof -
  obtain r t' where h: "has_room t now = (r, t')"
    by fastforce
  note hs = has_room_ok [OF ok h] has_room_frame [OF h]
  have "traffic_ok c (snd (request (t'\<lparr>suppressed := (suppressed t')(a := None)\<rparr>) a))"
    if "is_icao a" "card (requested t) < MAX_REQUESTED \<or> a \<in> requested t"
    using that hs by (intro request_ok unsuppress_ok) auto
  with ok hs show ?thesis
    unfolding offered_def h by (auto simp: not_le intro: request_ok split: option.split)
qed

lemma sync_insert_ok:
  "traffic_ok c t \<Longrightarrow> card (dom (sync t)) < c \<or> a \<in> dom (sync t) \<Longrightarrow> traffic_ok c (t\<lparr>sync := (sync t)(a \<mapsto> now)\<rparr>)"
  by (auto simp: traffic_ok_def card_insert_if insert_absorb)

lemma stop_ok:
  assumes "traffic_ok c t" "c \<noteq> 0"
  shows "traffic_ok c (t\<lparr>requested := requested t - {a}, suppressed := (retain P (suppressed t))(a \<mapsto> now)\<rparr>)"
proof -
  have "card (requested t - {a}) \<le> card (requested t)"
    using assms by (intro card_mono) (auto simp: traffic_ok_def)
  with assms show ?thesis
    by (auto simp: traffic_ok_def dom_retain)
qed

lemma on_sync_ok:
  assumes ok: "traffic_ok c t"
  shows "traffic_ok c (snd (on_sync t a now))"
proof -
  obtain r t' where h: "has_room t now = (r, t')"
    by fastforce
  note hs = has_room_ok [OF ok h] has_room_frame [OF h]
  have c: "cap t = c" "cap t' = c"
    using ok hs by (auto simp: traffic_ok_def)
  have "r \<Longrightarrow> c \<noteq> 0 \<Longrightarrow> traffic_ok c (t'\<lparr>sync := (sync t')(a \<mapsto> now)\<rparr>)"
    using has_room_True [of t now t'] h c hs(1) by (auto intro!: sync_insert_ok)
  moreover have "c \<noteq> 0 \<Longrightarrow> traffic_ok c (t'\<lparr>requested := requested t - {a}, suppressed := (retain P (suppressed t))(a \<mapsto> now)\<rparr>)" for P
    using stop_ok [OF hs(1), where a = a and P = P and now = now] hs(2) by simp
  ultimately show ?thesis
    unfolding on_sync_def h using ok c hs by (auto intro: sync_insert_ok)
qed

lemma lost_ok: "traffic_ok c t \<Longrightarrow> traffic_ok c (lost t a)"
  by (auto simp: traffic_ok_def lost_def card_Diff_singleton_if)

lemma traffic_step_ok: "traffic_ok c t \<Longrightarrow> traffic_ok c (traffic_step t e)"
  by (cases e) (auto simp: offered_ok on_sync_ok lost_ok)

lemma traffic_new_ok: "traffic_ok c (traffic_new c)"
  by (simp add: traffic_ok_def traffic_new_def)

interpretation traffic: kept_by_steps traffic_step "traffic_ok c"
  by unfold_locales (rule traffic_step_ok)

subsection \<open>Windows of time\<close>

definition stopped_since :: "string \<Rightarrow> real \<Rightarrow> traffic \<Rightarrow> bool" where
  "stopped_since a t0 t \<longleftrightarrow> (\<exists>s. suppressed t a = Some s \<and> t0 \<le> s)"

definition held_since :: "string \<Rightarrow> real \<Rightarrow> traffic \<Rightarrow> bool" where
  "held_since a t0 t \<longleftrightarrow> (\<exists>s. sync t a = Some s \<and> t0 \<le> s)"

lemmas traffic_ops = offered_def on_sync_def lost_def has_room_def request_def

lemma stopped_offered:
  "stopped_since a t0 t \<Longrightarrow> now < t0 + SUPPRESS_S \<Longrightarrow> offered t a now = (False, t)"
  by (auto simp: stopped_since_def offered_def)

lemma stopped_step:
  assumes "stopped_since a t0 t" "in_window t0 (t0 + SUPPRESS_S) e"
  shows "stopped_since a t0 (traffic_step t e)"
proof (cases e)
  case (Offered b now)
  show ?thesis
  proof (cases "b = a")
    case True
    with Offered assms show ?thesis
      by (simp add: stopped_offered in_window_def)
  next
    case False
    with Offered assms(1) show ?thesis
      by (auto simp: traffic_ops stopped_since_def Let_def split: option.split)
  qed
next
  case (SyncPair b now)
  with assms show ?thesis
    by (auto simp: traffic_ops stopped_since_def in_window_def Let_def SUPPRESS_S_def)
next
  case (LostAc b)
  with assms show ?thesis
    by (simp add: stopped_since_def lost_def)
qed

lemma held_room:
  "held_since a t0 t \<Longrightarrow> now < t0 + SYNC_IDLE_S \<Longrightarrow> held_since a t0 (snd (has_room t now))"
  by (auto simp: held_since_def has_room_def Let_def)

lemma held_step:
  assumes "held_since a t0 t" "in_window t0 (t0 + SYNC_IDLE_S) e" "e \<noteq> LostAc a"
  shows "held_since a t0 (traffic_step t e)"
proof (cases e)
  case (Offered b now)
  with assms held_room [of a t0 t now] show ?thesis
    by (auto simp: offered_def request_def in_window_def held_since_def split: option.split prod.split)
next
  case (SyncPair b now)
  with assms held_room [of a t0 t now] show ?thesis
    by (auto simp: on_sync_def in_window_def held_since_def split: prod.split)
next
  case (LostAc b)
  with assms show ?thesis
    by (simp add: held_since_def lost_def)
qed

subsection \<open>Properties\<close>

text \<open>
  C27. Bounded traffic state. After any sequence of offers, sync pairs and losses a
  connection has at most \<open>MAX_REQUESTED\<close> aircraft requested, every one of them a
  six-digit hexadecimal address, at most \<open>cap\<close> aircraft in its sync set, and never an
  aircraft both requested and stopped.
\<close>

theorem traffic_bounded:
  fixes c es
  defines "t \<equiv> foldl traffic_step (traffic_new c) es"
  shows "card (requested t) \<le> MAX_REQUESTED \<and> requested t \<subseteq> Collect is_icao \<and>
    card (dom (sync t)) \<le> c \<and> requested t \<inter> dom (suppressed t) = {}"
  using traffic.run_keeps [OF traffic_new_ok, of c es]
  by (auto simp: t_def traffic_ok_def)

text \<open>
  C28. A stopped aircraft stays stopped: when the full sync set makes \<open>on_sync\<close> refuse an
  aircraft at time \<open>t0\<close>, then whatever happens next at times before
  \<open>t0 + SUPPRESS_S\<close>, offering it again is answered with no request.
\<close>

theorem stopped_stays_stopped:
  assumes "on_sync t a t0 = (False, t')" "list_all (in_window t0 (t0 + SUPPRESS_S)) es"
    "t0 \<le> now" "now < t0 + SUPPRESS_S"
  shows "\<not> fst (offered (foldl traffic_step t' es) a now) \<and> a \<notin> requested t'"
proof -
  have "stopped_since a t0 t'"
    using assms(1) by (auto simp: on_sync_def stopped_since_def split: if_splits prod.splits)
  then have "stopped_since a t0 (foldl traffic_step t' es)"
    by (rule map_foldl_invariant) (use assms(2) in \<open>auto simp: list_all_iff stopped_step\<close>)
  moreover have "a \<notin> requested t'"
    using assms(1) by (auto simp: on_sync_def split: if_splits prod.splits)
  ultimately show ?thesis
    using assms(4) by (simp add: stopped_offered)
qed

theorem stopped_stays_stopped_witness:
  "\<exists>t'. on_sync (snd (on_sync (traffic_new 1) ''aa0001'' 0)) ''aa0002'' 1 = (False, t') \<and>
    \<not> fst (offered (foldl traffic_step t' [LostAc ''aa0001'', Offered ''aa0002'' 5, SyncPair ''aa0003'' 6]) ''aa0002'' 60)"
proof -
  have "fst (on_sync (snd (on_sync (traffic_new 1) ''aa0001'' 0)) ''aa0002'' 1) = False"
    by (simp add: on_sync_def traffic_new_def has_room_def Let_def SYNC_IDLE_S_def retain_upd)
  then obtain t' where t': "on_sync (snd (on_sync (traffic_new 1) ''aa0001'' 0)) ''aa0002'' 1 = (False, t')"
    by (metis prod.collapse)
  show ?thesis
    by (intro exI [of _ t'] conjI t' stopped_stays_stopped [OF t', THEN conjunct1]) (simp_all add: in_window_def SUPPRESS_S_def)
qed

text \<open>
  A synchronising aircraft is not stopped: once a sync pair of an aircraft was
  accepted at \<open>t0\<close>, its next pair before \<open>t0 + SYNC_IDLE_S\<close> is accepted, whatever other
  traffic arrives in between, unless the client reported it lost. With no cap every pair
  is accepted.
\<close>

theorem synced_stays_synced:
  assumes "on_sync t a t0 = (True, t')" "list_all (in_window t0 (t0 + SYNC_IDLE_S)) es" "LostAc a \<notin> set es"
  shows "fst (on_sync (foldl traffic_step t' es) a now)"
proof (cases "cap t = 0")
  case True
  then have "cap t' = 0"
    using assms(1) by (simp add: on_sync_def)
  then have "cap (foldl traffic_step t' es) = 0"
    by (rule map_foldl_invariant)
      (case_tac x; auto simp: traffic_ops Let_def split: option.split)
  then show ?thesis
    by (simp add: on_sync_def)
next
  case False
  then have "held_since a t0 t'"
    using assms(1) by (auto simp: on_sync_def held_since_def split: if_splits prod.splits)
  then have "held_since a t0 (foldl traffic_step t' es)"
    by (rule map_foldl_invariant) (use assms(2,3) in \<open>auto simp: list_all_iff intro!: held_step\<close>)
  then show ?thesis
    by (auto simp: on_sync_def held_since_def)
qed

theorem synced_stays_synced_witness:
  "\<exists>t'. on_sync (traffic_new 1) ''aa0001'' 0 = (True, t') \<and>
    fst (on_sync (foldl traffic_step t' [SyncPair ''aa0002'' 1, LostAc ''aa0003'']) ''aa0001'' 29)"
proof -
  obtain t' where t': "on_sync (traffic_new 1) ''aa0001'' 0 = (True, t')"
    by (simp add: on_sync_def traffic_new_def has_room_def Let_def)
  show ?thesis
    by (intro exI [of _ t'] conjI t' synced_stays_synced [OF t']) (simp_all add: in_window_def SYNC_IDLE_S_def)
qed

end
