(* ===== verification/Router.thy ===== *)
theory Router
  imports Prelude "HOL-Library.Monad_Syntax" "HOL-Library.Product_Lexorder" "HOL-Library.Multiset"
begin

text \<open>
  Geographic sharding: the \<open>Router\<close> of \<^verbatim>\<open>crates/mlatd/src/shard.rs\<close>, with the two
  places of \<^verbatim>\<open>main.rs\<close> that write its counters (the stats task's rate and the
  connection's release). A cell is a level and two saturating 16-bit indexes. The
  operations return an option: \<open>None\<close> is a panic, of the shift \<open>1u32 << level\<close> past 31 bits
  or of an index past the shard vector. The order in which a \<open>HashMap\<close> of votes is
  iterated is the parameter \<open>perm\<close>, of which only \<open>iterates perm\<close> is known.
\<close>

type_synonym cell_key = "nat \<times> int \<times> int"

record shard_handle =
  receivers :: nat
  rate :: nat

definition MIN_CELL_DEG :: real where "MIN_CELL_DEG = 2"
definition SPLIT_AT :: nat where "SPLIT_AT = 64"
definition CAP_RATE_PER_WINDOW :: nat where "CAP_RATE_PER_WINDOW = 50000"

record router =
  shards :: "shard_handle list"
  base_deg :: real
  shard_cap :: nat
  owner :: "cell_key \<rightharpoonup> nat"
  rx_count :: "cell_key \<rightharpoonup> nat"
  split :: "cell_key set"

definition router_new :: "shard_handle list \<Rightarrow> real \<Rightarrow> nat \<Rightarrow> router" where
  "router_new sh base c =
     \<lparr>shards = sh, base_deg = base, shard_cap = c, owner = Map.empty, rx_count = Map.empty, split = {}\<rparr>"

definition cell_size :: "router \<Rightarrow> nat \<Rightarrow> real" where
  "cell_size r level = base_deg r / 2 ^ level"

definition cell_at :: "router \<Rightarrow> nat \<Rightarrow> real \<Rightarrow> real \<Rightarrow> cell_key" where
  "cell_at r level lat lon =
     (let size = cell_size r level
      in (level, as_i16 (of_int \<lfloor>lat / size\<rfloor>), as_i16 (of_int \<lfloor>lon / size\<rfloor>)))"

definition splittable :: "router \<Rightarrow> nat \<Rightarrow> bool" where
  "splittable r level \<longleftrightarrow> cell_size r (level + 1) \<ge> MIN_CELL_DEG"

function leaf_from :: "router \<Rightarrow> real \<Rightarrow> real \<Rightarrow> nat \<Rightarrow> cell_key option" where
  "leaf_from r lat lon level =
     (if 32 \<le> level then None
      else let key = cell_at r level lat lon
           in if key \<notin> split r then Some key else leaf_from r lat lon (level + 1))"
  by auto
termination
  by (relation "measure (\<lambda>(r, lat, lon, level). 32 - level)") auto

declare leaf_from.simps [simp del]

definition leaf_at :: "router \<Rightarrow> real \<Rightarrow> real \<Rightarrow> cell_key option" where
  "leaf_at r lat lon = leaf_from r lat lon 0"

text \<open>The owner of the finest owned cell containing the point, from a level upwards.\<close>

fun owner_up :: "router \<Rightarrow> real \<Rightarrow> real \<Rightarrow> nat \<Rightarrow> nat option" where
  "owner_up r lat lon 0 = owner r (cell_at r 0 lat lon)"
| "owner_up r lat lon (Suc level) =
     (case owner r (cell_at r (Suc level) lat lon) of
        Some sh \<Rightarrow> Some sh
      | None \<Rightarrow> owner_up r lat lon level)"

definition owner_at :: "router \<Rightarrow> real \<Rightarrow> real \<Rightarrow> nat option option" where
  "owner_at r lat lon = do { leaf \<leftarrow> leaf_at r lat lon; Some (owner_up r lat lon (fst leaf)) }"

definition has_capacity :: "router \<Rightarrow> nat \<Rightarrow> bool" where
  "has_capacity r shard \<longleftrightarrow>
     receivers (shards r ! shard) < shard_cap r \<and> rate (shards r ! shard) < CAP_RATE_PER_WINDOW"

definition load_of :: "router \<Rightarrow> nat \<Rightarrow> nat \<times> nat" where
  "load_of r shard = (rate (shards r ! shard), receivers (shards r ! shard))"

text \<open>\<open>*votes.entry(n).or_insert(0) += 1\<close>, on the entries in the order they appeared.\<close>

fun add_vote :: "nat \<Rightarrow> (nat \<times> nat) list \<Rightarrow> (nat \<times> nat) list" where
  "add_vote n [] = [(n, 1)]"
| "add_vote n ((k, c) # vs) = (if k = n then (k, c + 1) # vs else (k, c) # add_vote n vs)"

definition neighbour_offsets :: "(int \<times> int) list" where
  "neighbour_offsets = [(-1, -1), (-1, 0), (-1, 1), (0, -1), (0, 1), (1, -1), (1, 0), (1, 1)]"

fun collect_votes :: "router \<Rightarrow> cell_key \<Rightarrow> (int \<times> int) list \<Rightarrow> (nat \<times> nat) list \<Rightarrow> (nat \<times> nat) list option" where
  "collect_votes r key [] votes = Some votes"
| "collect_votes r key ((dy, dx) # ds) votes =
     (let size = cell_size r (fst key);
          clat = (of_int (fst (snd key)) + 1 / 2) * size; clon = (of_int (snd (snd key)) + 1 / 2) * size;
          nlat = clat + of_int dy * size; nlon = clon + of_int dx * size
      in do { o1 \<leftarrow> owner_at r nlat nlon;
              collect_votes r key ds
                (case o1 of Some n \<Rightarrow> if has_capacity r n then add_vote n votes else votes | None \<Rightarrow> votes) })"

definition vote_key :: "router \<Rightarrow> nat \<times> nat \<Rightarrow> nat \<times> nat \<times> nat" where
  "vote_key r v =
     (let (shard, n) = v; (rt, rx) = load_of r shard
      in (n, 2 ^ 64 - 1 - rt, 2 ^ 64 - 1 - rx))"

definition pick_shard :: "((nat \<times> nat) list \<Rightarrow> (nat \<times> nat) list) \<Rightarrow> router \<Rightarrow> (nat \<times> nat) list \<Rightarrow> nat option \<Rightarrow> nat" where
  "pick_shard perm r votes home =
     (case max_by_key (vote_key r) (perm votes) of
        Some (shard, _) \<Rightarrow> shard
      | None \<Rightarrow>
          (case home of
             Some i \<Rightarrow> i
           | None \<Rightarrow> (case min_by_key (load_of r) [0..<length (shards r)] of Some i \<Rightarrow> i | None \<Rightarrow> 0)))"

definition add_receivers :: "nat \<Rightarrow> int \<Rightarrow> router \<Rightarrow> router" where
  "add_receivers i d r =
     r\<lparr>shards := (shards r)[i := (shards r ! i)\<lparr>receivers := nat ((int (receivers (shards r ! i)) + d) mod 2 ^ 64)\<rparr>]\<rparr>"

definition claim_cell :: "router \<Rightarrow> cell_key \<Rightarrow> router" where
  "claim_cell r key =
     (let count = (case rx_count r key of Some c \<Rightarrow> c | None \<Rightarrow> 0) + 1;
          r = r\<lparr>rx_count := (rx_count r)(key \<mapsto> count)\<rparr>
      in if count > SPLIT_AT \<and> splittable r (fst key) then r\<lparr>split := insert key (split r)\<rparr> else r)"

definition shard_for ::
  "((nat \<times> nat) list \<Rightarrow> (nat \<times> nat) list) \<Rightarrow> router \<Rightarrow> real \<Rightarrow> real \<Rightarrow> (nat \<times> router) option" where
  "shard_for perm r lat lon =
     do { key \<leftarrow> leaf_at r lat lon;
          idx \<leftarrow> (case owner r key of
                    Some i \<Rightarrow> Some i
                  | None \<Rightarrow>
                      do { votes \<leftarrow> collect_votes r key neighbour_offsets [];
                           home \<leftarrow> owner_at r lat lon;
                           Some (pick_shard perm r votes home) });
          let r = claim_cell (r\<lparr>owner := (owner r)(key \<mapsto> idx)\<rparr>) key;
          if idx < length (shards r) then Some (idx, add_receivers idx 1 r) else None }"

definition owner_of_point :: "router \<Rightarrow> real \<Rightarrow> real \<Rightarrow> nat option option" where
  "owner_of_point r lat lon = owner_at r lat lon"

text \<open>The rows of the partition view, in the order \<open>sort\<close> gives tuples.\<close>

definition partition_rows :: "router \<Rightarrow> (nat \<times> int \<times> int \<times> nat \<times> nat) set" where
  "partition_rows r =
     {(l, y, x, sh, n). owner r (l, y, x) = Some sh \<and> n = (case rx_count r (l, y, x) of Some c \<Rightarrow> c | None \<Rightarrow> 0)}"

definition partition_dump :: "router \<Rightarrow> (nat \<times> int \<times> int \<times> nat \<times> nat) list" where
  "partition_dump r = sorted_list_of_set (partition_rows r)"

text \<open>The other two writers of the router's counters: \<open>release\<close> and the stats task.\<close>

definition release_receiver :: "router \<Rightarrow> nat \<Rightarrow> router" where
  "release_receiver r i = (if i < length (shards r) then add_receivers i (- 1) r else r)"

definition store_rate :: "router \<Rightarrow> nat \<Rightarrow> nat \<Rightarrow> nat \<Rightarrow> router" where
  "store_rate r i now_obs prev_obs =
     (if i < length (shards r)
      then r\<lparr>shards := (shards r)[i := (shards r ! i)\<lparr>rate := now_obs - prev_obs\<rparr>]\<rparr> else r)"

subsection \<open>Cells nest\<close>

definition iterates :: "((nat \<times> nat) list \<Rightarrow> (nat \<times> nat) list) \<Rightarrow> bool" where
  "iterates perm \<longleftrightarrow> (\<forall>xs. set (perm xs) = set xs)"

lemma trunc_of_int [simp]: "trunc_real (of_int z) = z"
  by (simp add: trunc_real_def)

lemma as_i16_exact: "as_i16 (of_int z) = v \<Longrightarrow> - 32768 < v \<Longrightarrow> v < 32767 \<Longrightarrow> z = v"
  by (auto simp: as_i16_def saturate_def)

lemma as_i16_id: "- 32768 \<le> z \<Longrightarrow> z < 32768 \<Longrightarrow> as_i16 (of_int z) = z"
  by (simp add: as_i16_def saturate_def)

lemma cell_size_Suc: "cell_size r level = 2 * cell_size r (Suc level)"
  by (simp add: cell_size_def)

lemma index_small:
  fixes x s :: real
  assumes "\<bar>x\<bar> \<le> 180" "2 \<le> s"
  shows "- 91 \<le> \<lfloor>x / s\<rfloor>" "\<lfloor>x / s\<rfloor> \<le> 90"
proof -
  have "\<bar>x\<bar> / s \<le> 180 / 2"
    using assms by (intro frac_le) auto
  then have "\<bar>x / s\<bar> \<le> 90"
    using assms by simp
  then have "- 90 \<le> x / s" "x / s \<le> 90"
    by linarith+
  then show "- 91 \<le> \<lfloor>x / s\<rfloor>" "\<lfloor>x / s\<rfloor> \<le> 90"
    unfolding le_floor_iff floor_le_iff by simp_all
qed

lemma floor_half: "\<lfloor>x / (2 * s)\<rfloor> = \<lfloor>x / s\<rfloor> div 2" for x s :: real
proof -
  have "x / (2 * s) = x / s / of_int 2"
    by simp
  then show ?thesis
    by (simp only: floor_divide_real_eq_div)
qed

lemma index_nest:
  fixes x x0 s :: real
  assumes "as_i16 (of_int \<lfloor>x / s\<rfloor>) = as_i16 (of_int \<lfloor>x0 / s\<rfloor>)" "\<bar>x0\<bar> \<le> 180" "2 \<le> s"
  shows "\<lfloor>x / (2 * s)\<rfloor> = \<lfloor>x0 / (2 * s)\<rfloor>"
proof -
  note b = index_small [OF assms(2,3)]
  have "as_i16 (of_int \<lfloor>x0 / s\<rfloor>) = \<lfloor>x0 / s\<rfloor>"
    by (rule as_i16_id) (use b in linarith)+
  then have "as_i16 (of_int \<lfloor>x / s\<rfloor>) = \<lfloor>x0 / s\<rfloor>"
    by (simp only: assms(1))
  then have "\<lfloor>x / s\<rfloor> = \<lfloor>x0 / s\<rfloor>"
    by (rule as_i16_exact) (use b in linarith)+
  then show ?thesis
    by (simp only: floor_half)
qed

lemma cell_nest:
  assumes "cell_at r (Suc l) lat lon = cell_at r (Suc l) lat0 lon0" "\<bar>lat0\<bar> \<le> 180" "\<bar>lon0\<bar> \<le> 180"
    "splittable r l"
  shows "cell_at r l lat lon = cell_at r l lat0 lon0"
  using assms index_nest [of lat "cell_size r (Suc l)" lat0] index_nest [of lon "cell_size r (Suc l)" lon0]
  by (simp add: cell_at_def Let_def splittable_def MIN_CELL_DEG_def cell_size_Suc [of r l])

lemma fst_cell_at [simp]: "fst (cell_at r l lat lon) = l"
  by (simp add: cell_at_def Let_def)

subsection \<open>The invariant\<close>

definition router_ok :: "router \<Rightarrow> bool" where
  "router_ok r \<longleftrightarrow> shards r \<noteq> [] \<and> base_deg r < 2 ^ 32 \<and>
     (\<forall>k i. owner r k = Some i \<longrightarrow> i < length (shards r)) \<and>
     (\<forall>k \<in> split r. splittable r (fst k)) \<and>
     (\<forall>l lat lon. cell_at r (Suc l) lat lon \<in> split r \<longrightarrow> cell_at r l lat lon \<in> split r) \<and>
     (\<forall>l lat lon. owner r (cell_at r (Suc l) lat lon) \<noteq> None \<longrightarrow> cell_at r l lat lon \<in> split r)"

lemma router_okD:
  assumes "router_ok r"
  shows "shards r \<noteq> []" "base_deg r < 2 ^ 32" "\<And>k i. owner r k = Some i \<Longrightarrow> i < length (shards r)"
    "\<And>k. k \<in> split r \<Longrightarrow> splittable r (fst k)"
    "\<And>l lat lon. cell_at r (Suc l) lat lon \<in> split r \<Longrightarrow> cell_at r l lat lon \<in> split r"
    "\<And>l lat lon i. owner r (cell_at r (Suc l) lat lon) = Some i \<Longrightarrow> cell_at r l lat lon \<in> split r"
  using assms unfolding router_ok_def by blast+

lemma splittable_level: "splittable r l \<Longrightarrow> base_deg r < 2 ^ 32 \<Longrightarrow> l < 30"
proof (rule ccontr)
  assume s: "splittable r l" and b: "base_deg r < 2 ^ 32" and "\<not> l < 30"
  then have "(2 :: real) ^ 31 \<le> 2 ^ (l + 1)"
    by (intro power_increasing) auto
  moreover have "2 * 2 ^ (l + 1) \<le> base_deg r"
    using s by (simp add: splittable_def cell_size_def MIN_CELL_DEG_def pos_le_divide_eq)
  ultimately show False
    using b by simp
qed

lemma leaf_from_finds:
  assumes ok: "router_ok r" and l: "l \<le> 30"
  shows "\<exists>l' \<ge> l. l' \<le> 30 \<and> leaf_from r lat lon l = Some (cell_at r l' lat lon) \<and>
    cell_at r l' lat lon \<notin> split r \<and> (\<forall>j. l \<le> j \<longrightarrow> j < l' \<longrightarrow> cell_at r j lat lon \<in> split r)"
  using l
proof (induction "32 - l" arbitrary: l rule: less_induct)
  case less
  show ?case
  proof (cases "cell_at r l lat lon \<in> split r")
    case False
    then show ?thesis
      using less.prems by (intro exI [of _ l]) (simp add: leaf_from.simps [of r lat lon l] Let_def)
  next
    case True
    then have "l < 30"
      using splittable_level router_okD(2,4) [OF ok] by (metis fst_cell_at)
    then obtain l' where "Suc l \<le> l'" "l' \<le> 30" "leaf_from r lat lon (Suc l) = Some (cell_at r l' lat lon)"
      "cell_at r l' lat lon \<notin> split r" "\<forall>j. Suc l \<le> j \<longrightarrow> j < l' \<longrightarrow> cell_at r j lat lon \<in> split r"
      using less.hyps [of "Suc l"] by fastforce
    moreover have "leaf_from r lat lon l = leaf_from r lat lon (Suc l)"
      using True \<open>l < 30\<close> by (subst leaf_from.simps) (simp add: Let_def)
    ultimately show ?thesis
      using True by (intro exI [of _ l']) (auto simp: Suc_le_eq le_less [of l])
  qed
qed

lemma leaf_at_finds:
  assumes "router_ok r"
  obtains l where "l \<le> 30" "leaf_at r lat lon = Some (cell_at r l lat lon)" "cell_at r l lat lon \<notin> split r"
    "\<And>j. j < l \<Longrightarrow> cell_at r j lat lon \<in> split r"
  using leaf_from_finds [OF assms, of 0 lat lon] by (auto simp: leaf_at_def)

lemma owner_at_returns: "router_ok r \<Longrightarrow> \<exists>o1. owner_at r lat lon = Some o1"
  by (rule leaf_at_finds [of r lat lon]) (auto simp: owner_at_def)

lemma owner_up_bound: "router_ok r \<Longrightarrow> owner_up r lat lon l = Some i \<Longrightarrow> i < length (shards r)"
  by (induction l) (auto dest: router_okD(3) split: option.splits)

lemma owner_at_bound: "router_ok r \<Longrightarrow> owner_at r lat lon = Some (Some i) \<Longrightarrow> i < length (shards r)"
  using owner_up_bound by (auto simp: owner_at_def bind_eq_Some_conv)

lemma set_add_vote: "fst ` set (add_vote n vs) = insert n (fst ` set vs)"
  by (induction n vs rule: add_vote.induct) auto

lemma collect_votes_returns:
  assumes ok: "router_ok r"
  shows "\<exists>vs'. collect_votes r key ds vs = Some vs' \<and>
    (\<forall>n \<in> fst ` set vs'. n \<in> fst ` set vs \<or> (has_capacity r n \<and> n < length (shards r)))"
proof (induction ds arbitrary: vs)
  case (Cons d ds)
  obtain dy dx where d: "d = (dy, dx)"
    by fastforce
  define nlat nlon where "nlat = (of_int (fst (snd key)) + 1 / 2) * cell_size r (fst key) + of_int dy * cell_size r (fst key)"
    and "nlon = (of_int (snd (snd key)) + 1 / 2) * cell_size r (fst key) + of_int dx * cell_size r (fst key)"
  obtain o1 where o1: "owner_at r nlat nlon = Some o1"
    using owner_at_returns [OF ok] by blast
  have e: "collect_votes r key (d # ds) vs = collect_votes r key ds
      (case o1 of Some n \<Rightarrow> if has_capacity r n then add_vote n vs else vs | None \<Rightarrow> vs)"
    using o1 by (simp add: d nlat_def nlon_def Let_def)
  show ?case
  proof (cases "\<exists>n. o1 = Some n \<and> has_capacity r n")
    case True
    then obtain n where n: "o1 = Some n" "has_capacity r n"
      by blast
    then have "n < length (shards r)"
      using owner_at_bound [OF ok] o1 by simp
    with n Cons.IH [of "add_vote n vs"] show ?thesis
      unfolding e by (auto simp: set_add_vote)
  next
    case False
    then have "(case o1 of Some n \<Rightarrow> if has_capacity r n then add_vote n vs else vs | None \<Rightarrow> vs) = vs"
      by (auto split: option.split)
    with Cons.IH [of vs] show ?thesis
      unfolding e by simp
  qed
qed simp

subsection \<open>Assigning a receiver\<close>

lemma cells_cong:
  assumes "base_deg r' = base_deg r"
  shows "cell_at r' = cell_at r" "splittable r' = splittable r"
  using assms by (simp_all add: fun_eq_iff cell_at_def cell_size_def splittable_def)

text \<open>The parent of a reached leaf is the parent of every point in that leaf.\<close>

lemma leaf_parent:
  assumes ok: "router_ok r" and p: "\<bar>lat\<bar> \<le> 180" "\<bar>lon\<bar> \<le> 180"
    and up: "\<And>j. j < l \<Longrightarrow> cell_at r j lat lon \<in> split r"
    and e: "cell_at r (Suc l') lat' lon' = cell_at r l lat lon"
  shows "cell_at r l' lat' lon' \<in> split r"
proof -
  have l: "l = Suc l'"
    using arg_cong [OF e, of fst] by simp
  then have s: "cell_at r l' lat lon \<in> split r"
    using up by simp
  then have "splittable r l'"
    using router_okD(4) [OF ok, of "cell_at r l' lat lon"] by (simp only: fst_cell_at)
  then have "cell_at r l' lat' lon' = cell_at r l' lat lon"
    using cell_nest [OF e [unfolded l] p] by (simp only:)
  then show ?thesis
    using s by (simp only:)
qed

lemma claim_cell_fields:
  "shards (claim_cell r key) = shards r" "base_deg (claim_cell r key) = base_deg r" "owner (claim_cell r key) = owner r"
  "split (claim_cell r key) = split r \<or> (split (claim_cell r key) = insert key (split r) \<and> splittable r (fst key))"
  by (auto simp: claim_cell_def Let_def splittable_def cell_size_def)

lemma claim_ok:
  assumes ok: "router_ok r" and p: "\<bar>lat\<bar> \<le> 180" "\<bar>lon\<bar> \<le> 180"
    and up: "\<And>j. j < l \<Longrightarrow> cell_at r j lat lon \<in> split r" and i: "i < length (shards r)"
  defines "r1 \<equiv> claim_cell (r\<lparr>owner := (owner r)(cell_at r l lat lon \<mapsto> i)\<rparr>) (cell_at r l lat lon)"
  shows "router_ok r1"
proof -
  let ?k = "cell_at r l lat lon"
  note c = claim_cell_fields [of "r\<lparr>owner := (owner r)(?k \<mapsto> i)\<rparr>" ?k, folded r1_def]
  have b: "base_deg r1 = base_deg r" "shards r1 = shards r" "owner r1 = (owner r)(?k \<mapsto> i)"
    using c by simp_all
  note cells = cells_cong [OF b(1)]
  have s: "split r1 = split r \<or> (split r1 = insert ?k (split r) \<and> splittable r l)"
    using c(4) by (simp add: splittable_def cell_size_def)
  note D = router_okD [OF ok]
  note parent = leaf_parent [OF ok p up]
  show ?thesis
    unfolding router_ok_def cells b
  proof (intro conjI allI impI ballI)
    show "shards r \<noteq> []" "base_deg r < 2 ^ 32"
      by (rule D)+
    show "j < length (shards r)" if "((owner r)(?k \<mapsto> i)) k = Some j" for k j
      using that i D(3) by (auto split: if_splits)
    show "splittable r (fst k)" if "k \<in> split r1" for k
      using that s D(4) by (metis fst_cell_at insert_iff)
    show "cell_at r l' lat' lon' \<in> split r1" if "cell_at r (Suc l') lat' lon' \<in> split r1" for l' lat' lon'
      using that s D(5) parent by blast
    show "cell_at r l' lat' lon' \<in> split r1" if "((owner r)(?k \<mapsto> i)) (cell_at r (Suc l') lat' lon') \<noteq> None" for l' lat' lon'
      using that s D(6) parent by (auto split: if_splits)
  qed
qed

lemma add_receivers_fields:
  "base_deg (add_receivers i d r) = base_deg r" "owner (add_receivers i d r) = owner r" "split (add_receivers i d r) = split r"
  "length (shards (add_receivers i d r)) = length (shards r)"
  by (simp_all add: add_receivers_def)

lemma router_ok_shards:
  assumes "router_ok r" "base_deg r' = base_deg r" "owner r' = owner r" "split r' = split r" "length (shards r') = length (shards r)"
  shows "router_ok r'"
proof -
  have "shards r' \<noteq> []"
    using router_okD(1) [OF assms(1)] assms(5) by auto
  then show ?thesis
    using assms(1) unfolding router_ok_def cells_cong [OF assms(2)] assms(2-5) by simp
qed

lemma pick_shard_bound:
  assumes ok: "router_ok r" and it: "iterates perm" and home: "owner_at r lat lon = Some home"
    and vs: "collect_votes r key ds [] = Some vs"
  shows "pick_shard perm r vs home < length (shards r)"
proof (cases "max_by_key (vote_key r) (perm vs)")
  case (Some v)
  then have "v \<in> set vs"
    using max_by_key_Some it by (fastforce simp: iterates_def)
  then have "fst v < length (shards r)"
    using collect_votes_returns [OF ok, of key ds "[]"] vs by auto
  then show ?thesis
    by (cases v) (simp add: pick_shard_def Some)
next
  case None
  show ?thesis
  proof (cases home)
    case (Some i)
    then show ?thesis
      using None owner_at_bound [OF ok] home by (simp add: pick_shard_def)
  next
    assume h: "home = None"
    obtain i where i: "min_by_key (load_of r) [0..<length (shards r)] = Some i"
      using router_okD(1) [OF ok] by_key_None(2) [of "load_of r" "[0..<length (shards r)]"] by (cases "min_by_key (load_of r) [0..<length (shards r)]") auto
    then have "i < length (shards r)"
      using min_by_key_Some by fastforce
    then show ?thesis
      using None h i by (simp add: pick_shard_def)
  qed
qed

lemma shard_for_cases:
  assumes ok: "router_ok r" and it: "iterates perm" and p: "\<bar>lat\<bar> \<le> 180" "\<bar>lon\<bar> \<le> 180"
  obtains l i where "cell_at r l lat lon \<notin> split r" "\<And>j. j < l \<Longrightarrow> cell_at r j lat lon \<in> split r"
    "leaf_at r lat lon = Some (cell_at r l lat lon)" "i < length (shards r)"
    "owner r (cell_at r l lat lon) = None \<or> owner r (cell_at r l lat lon) = Some i"
    "shard_for perm r lat lon = Some (i, add_receivers i 1
       (claim_cell (r\<lparr>owner := (owner r)(cell_at r l lat lon \<mapsto> i)\<rparr>) (cell_at r l lat lon)))"
proof -
  obtain l where l: "leaf_at r lat lon = Some (cell_at r l lat lon)" "cell_at r l lat lon \<notin> split r"
    "\<And>j. j < l \<Longrightarrow> cell_at r j lat lon \<in> split r"
    using leaf_at_finds [OF ok] by metis
  let ?k = "cell_at r l lat lon"
  obtain vs where vs: "collect_votes r ?k neighbour_offsets [] = Some vs"
    using collect_votes_returns [OF ok] by blast
  obtain home where home: "owner_at r lat lon = Some home"
    using owner_at_returns [OF ok] by blast
  define i where "i = (case owner r ?k of Some i \<Rightarrow> i | None \<Rightarrow> pick_shard perm r vs home)"
  have "i < length (shards r)"
    unfolding i_def using router_okD(3) [OF ok] pick_shard_bound [OF ok it home vs] by (auto split: option.split)
  moreover have "shard_for perm r lat lon = Some (i, add_receivers i 1 (claim_cell (r\<lparr>owner := (owner r)(?k \<mapsto> i)\<rparr>) ?k))"
    using \<open>i < length (shards r)\<close>
    by (cases "owner r ?k") (simp_all add: shard_for_def l(1) vs home i_def claim_cell_fields)
  ultimately show ?thesis
    using that l i_def by (cases "owner r ?k") auto
qed

text \<open>Owned cells below a cell that is not split do not exist.\<close>

lemma split_up: "router_ok r \<Longrightarrow> cell_at r (l + d) lat lon \<in> split r \<Longrightarrow> cell_at r l lat lon \<in> split r"
  by (induction d) (auto dest: router_okD(5))

lemma no_owner_below:
  assumes "router_ok r" "cell_at r l lat lon \<notin> split r" "l < j"
  shows "owner r (cell_at r j lat lon) = None"
proof (rule ccontr)
  obtain d where j: "j = Suc (l + d)"
    using assms(3) less_iff_Suc_add by blast
  assume "owner r (cell_at r j lat lon) \<noteq> None"
  then have "cell_at r (l + d) lat lon \<in> split r"
    using router_okD(6) [OF assms(1)] by (auto simp: j)
  then show False
    using split_up [OF assms(1)] assms(2) by blast
qed

lemma owner_up_skip:
  assumes "l \<le> m" "owner r (cell_at r l lat lon) = Some i" "\<And>j. l < j \<Longrightarrow> j \<le> m \<Longrightarrow> owner r (cell_at r j lat lon) = None"
  shows "owner_up r lat lon m = Some i"
  using assms
proof (induction m)
  case (Suc m)
  then show ?case
    by (cases "l = Suc m") auto
qed simp

lemma owner_at_claimed:
  assumes ok: "router_ok r" and p: "\<bar>lat\<bar> \<le> 180" "\<bar>lon\<bar> \<le> 180"
    and l: "cell_at r l lat lon \<notin> split r" "\<And>j. j < l \<Longrightarrow> cell_at r j lat lon \<in> split r"
    and i: "i < length (shards r)"
  defines "r1 \<equiv> claim_cell (r\<lparr>owner := (owner r)(cell_at r l lat lon \<mapsto> i)\<rparr>) (cell_at r l lat lon)"
  shows "owner_at r1 lat lon = Some (Some i)"
proof -
  have ok1: "router_ok r1"
    unfolding r1_def by (rule claim_ok [OF ok p l(2) i])
  note c = claim_cell_fields [of "r\<lparr>owner := (owner r)(cell_at r l lat lon \<mapsto> i)\<rparr>" "cell_at r l lat lon", folded r1_def]
  have cells: "cell_at r1 = cell_at r"
    by (rule cells_cong) (use c in simp)
  obtain m where m: "leaf_at r1 lat lon = Some (cell_at r1 m lat lon)" "cell_at r1 m lat lon \<notin> split r1"
    using leaf_at_finds [OF ok1] by metis
  have "l \<le> m"
    using m(2) l(2) c(4) by (fastforce simp: cells not_le [symmetric])
  moreover have "owner r1 (cell_at r1 l lat lon) = Some i"
    using c by (simp add: cells)
  moreover have "owner r1 (cell_at r1 j lat lon) = None" if "l < j" for j
  proof -
    have "cell_at r j lat lon \<noteq> cell_at r l lat lon"
      using that by (metis fst_cell_at less_irrefl)
    then show ?thesis
      using no_owner_below [OF ok l(1) that] c by (simp add: cells)
  qed
  ultimately show ?thesis
    using m(1) owner_up_skip [of l m r1 lat lon i] by (simp add: owner_at_def)
qed

lemma shards_cong_owner_at:
  assumes "base_deg r' = base_deg r" "owner r' = owner r" "split r' = split r"
  shows "owner_at r' lat lon = owner_at r lat lon"
proof -
  have "leaf_from r' lat lon l = leaf_from r lat lon l" for l
  proof (induction "32 - l" arbitrary: l rule: less_induct)
    case less
    then have "\<not> 32 \<le> l \<Longrightarrow> leaf_from r' lat lon (l + 1) = leaf_from r lat lon (l + 1)"
      by simp
    then show ?case
      unfolding leaf_from.simps [of r' lat lon l] leaf_from.simps [of r lat lon l] cells_cong [OF assms(1)] assms(3) Let_def
      by simp
  qed
  moreover have "owner_up r' lat lon l = owner_up r lat lon l" for l
    by (induction l) (simp_all add: cells_cong [OF assms(1)] assms(2) split: option.split)
  ultimately show ?thesis
    by (simp add: owner_at_def leaf_at_def)
qed

subsection \<open>The router in service\<close>

text \<open>
  Every state the router reaches, with the multiset of assignments not yet released: a
  connection claims a shard at its handshake, releases that shard once when it ends, and
  the stats task writes rates in between. The counters are 64 bits wide; fewer than
  \<open>2 ^ 64 - 1\<close> connections are open at once.
\<close>

inductive routed :: "router \<Rightarrow> nat multiset \<Rightarrow> bool" where
  routed_new: "n \<noteq> 0 \<Longrightarrow> base < 2 ^ 32 \<Longrightarrow>
    routed (router_new (replicate n \<lparr>receivers = 0, rate = 0\<rparr>) base c) {#}"
| routed_claim: "routed r m \<Longrightarrow> iterates perm \<Longrightarrow> \<bar>lat\<bar> \<le> 90 \<Longrightarrow> \<bar>lon\<bar> \<le> 180 \<Longrightarrow> size m < 2 ^ 64 - 1 \<Longrightarrow>
    shard_for perm r lat lon = Some (i, r') \<Longrightarrow> routed r' (add_mset i m)"
| routed_release: "routed r m \<Longrightarrow> i \<in># m \<Longrightarrow> routed (release_receiver r i) (m - {#i#})"
| routed_rate: "routed r m \<Longrightarrow> routed (store_rate r i now_obs prev_obs) m"

inductive_cases routed_claimE: "routed r (add_mset i m)"

definition counts_ok :: "router \<Rightarrow> nat multiset \<Rightarrow> bool" where
  "counts_ok r m \<longleftrightarrow> size m < 2 ^ 64 \<and> (\<forall>i < length (shards r). receivers (shards r ! i) = count m i) \<and>
     (\<forall>i \<in># m. i < length (shards r))"

lemma router_new_ok: "n \<noteq> 0 \<Longrightarrow> base < 2 ^ 32 \<Longrightarrow> router_ok (router_new (replicate n h) base c)"
  by (simp add: router_ok_def router_new_def)

lemma count_less_size: "count m i \<le> size m"
  by (rule count_le_size)

lemma counts_add:
  assumes "counts_ok r m" "size m < 2 ^ 64 - 1" "i < length (shards r)" "shards r1 = shards r"
  shows "counts_ok (add_receivers i 1 r1) (add_mset i m)"
proof -
  have "(int (count m i) + 1) mod 2 ^ 64 = int (count m i) + 1"
    using count_le_size [of m i] assms(2) by (intro mod_pos_pos_trivial) auto
  then have "nat ((int (count m i) + 1) mod 2 ^ 64) = Suc (count m i)"
    by simp
  with assms show ?thesis
    by (auto simp: counts_ok_def add_receivers_def nth_list_update)
qed

lemma counts_release:
  assumes "counts_ok r m" "i \<in># m"
  shows "counts_ok (release_receiver r i) (m - {#i#})"
proof -
  have c: "0 < count m i" "count m i < 2 ^ 64" "i < length (shards r)"
    using assms count_le_size [of m i] by (auto simp: counts_ok_def)
  then have "(int (count m i) + - 1) mod 2 ^ 64 = int (count m i) + - 1"
    by (intro mod_pos_pos_trivial) auto
  then have "nat ((int (count m i) + - 1) mod 2 ^ 64) = count m i - 1"
    by simp
  moreover have "size (m - {#i#}) < 2 ^ 64"
    using assms le_less_trans [OF size_mset_mono [OF diff_subset_eq_self]] by (auto simp: counts_ok_def)
  ultimately show ?thesis
    using assms c by (auto simp: counts_ok_def release_receiver_def add_receivers_def nth_list_update dest: in_diffD)
qed

lemma shard_for_ok:
  assumes ok: "router_ok r" and it: "iterates perm" and p: "\<bar>lat\<bar> \<le> 90" "\<bar>lon\<bar> \<le> 180"
    and s: "shard_for perm r lat lon = Some (i, r')"
  shows "router_ok r'" "i < length (shards r)" "owner r \<subseteq>\<^sub>m owner r'" "owner_at r' lat lon = Some (Some i)"
    "\<exists>r1. shards r1 = shards r \<and> r' = add_receivers i 1 r1"
proof -
  have p': "\<bar>lat\<bar> \<le> 180"
    using p by simp
  obtain l where l: "cell_at r l lat lon \<notin> split r" "\<And>j. j < l \<Longrightarrow> cell_at r j lat lon \<in> split r"
    "owner r (cell_at r l lat lon) = None \<or> owner r (cell_at r l lat lon) = Some i" and i: "i < length (shards r)"
    and r': "r' = add_receivers i 1 (claim_cell (r\<lparr>owner := (owner r)(cell_at r l lat lon \<mapsto> i)\<rparr>) (cell_at r l lat lon))"
    using s by (rule_tac shard_for_cases [OF ok it p' p(2)]) auto
  let ?r1 = "claim_cell (r\<lparr>owner := (owner r)(cell_at r l lat lon \<mapsto> i)\<rparr>) (cell_at r l lat lon)"
  show "router_ok r'"
    unfolding r' by (rule router_ok_shards [OF claim_ok [OF ok p' p(2) l(2) i]]) (simp_all add: add_receivers_fields)
  show "owner_at r' lat lon = Some (Some i)"
    unfolding r' using owner_at_claimed [OF ok p' p(2) l(1,2) i]
    by (subst shards_cong_owner_at) (simp_all add: add_receivers_fields)
  show "i < length (shards r)"
    by (rule i)
  show "owner r \<subseteq>\<^sub>m owner r'"
    using l(3) by (auto simp: r' add_receivers_fields claim_cell_fields map_le_def)
  show "\<exists>r1. shards r1 = shards r \<and> r' = add_receivers i 1 r1"
    unfolding r' by (intro exI [of _ ?r1]) (simp add: claim_cell_fields)
qed

lemma store_rate_ok: "router_ok r \<Longrightarrow> router_ok (store_rate r i a b)"
  by (rule router_ok_shards, assumption) (simp_all add: store_rate_def)

lemma release_ok: "router_ok r \<Longrightarrow> router_ok (release_receiver r i)"
  by (rule router_ok_shards, assumption) (simp_all add: release_receiver_def add_receivers_fields)

lemma routed_ok: "routed r m \<Longrightarrow> router_ok r \<and> counts_ok r m"
proof (induction rule: routed.induct)
  case (routed_new n base c)
  then show ?case
    by (simp add: router_new_ok) (simp add: counts_ok_def router_new_def)
next
  case (routed_claim r m perm lat lon i r')
  note s = shard_for_ok [OF conjunct1 [OF routed_claim.IH] routed_claim.hyps(2,3,4,6)]
  from s(5) obtain r1 where "shards r1 = shards r" "r' = add_receivers i 1 r1"
    by blast
  with s(1,2) show ?case
    using counts_add [OF conjunct2 [OF routed_claim.IH] routed_claim.hyps(5)] by simp
next
  case (routed_release r m i)
  then show ?case
    by (simp add: release_ok counts_release)
next
  case (routed_rate r m i a b)
  then show ?case
    by (simp add: store_rate_ok) (auto simp: counts_ok_def store_rate_def nth_list_update)
qed

lemma shard_for_returns:
  assumes "router_ok r" "iterates perm" "\<bar>lat\<bar> \<le> 90" "\<bar>lon\<bar> \<le> 180"
  shows "\<exists>i r'. shard_for perm r lat lon = Some (i, r') \<and> i < length (shards r)"
proof -
  have "\<bar>lat\<bar> \<le> 180"
    using assms(3) by simp
  from shard_for_cases [OF assms(1,2) this assms(4)] show ?thesis
    by metis
qed

lemma leaf_at_own_cell: "leaf_at r lat lon = Some key \<Longrightarrow> cell_at r (fst key) lat lon = key"
proof -
  have "leaf_from r lat lon l = Some key \<Longrightarrow> cell_at r (fst key) lat lon = key" for l
  proof (induction "32 - l" arbitrary: l rule: less_induct)
    case less
    then show ?case
      using less.hyps [of "Suc l"] leaf_from.simps [of r lat lon l] by (auto simp: Let_def split: if_splits)
  qed
  then show "leaf_at r lat lon = Some key \<Longrightarrow> cell_at r (fst key) lat lon = key"
    by (simp add: leaf_at_def)
qed

lemma owner_up_None: "owner_up r lat lon l = None \<Longrightarrow> owner r (cell_at r l lat lon) = None"
  by (cases l) (auto split: option.splits)

lemma unowned_world:
  assumes ok: "router_ok r" and e: "owner r = Map.empty"
  shows "owner_at r lat lon = Some None" "collect_votes r key ds vs = Some vs"
proof -
  have "owner_up r a b l = None" for a b l
    by (induction l) (simp_all add: e)
  then have o: "owner_at r a b = Some None" for a b
    using owner_at_returns [OF ok, of a b] by (auto simp: owner_at_def bind_eq_Some_conv)
  then show "owner_at r lat lon = Some None"
    by simp
  show "collect_votes r key ds vs = Some vs"
    by (induction ds arbitrary: vs) (auto simp: o Let_def)
qed

lemma iterates_id: "iterates id" and iterates_rev: "iterates rev"
  by (simp_all add: iterates_def)

subsection \<open>Properties\<close>

text \<open>
  C31. The router always answers and its counters are exact: in every state it reaches, a
  receiver at any plausible position is given an existing shard (the search for its leaf
  cell ends, no shift overflows and no index is out of range), and each shard's receiver
  counter is the number of connections assigned to it and not yet released.
\<close>

theorem router_serves:
  assumes "routed r m" "iterates perm" "\<bar>lat\<bar> \<le> 90" "\<bar>lon\<bar> \<le> 180"
  shows "(\<exists>i r'. shard_for perm r lat lon = Some (i, r') \<and> i < length (shards r)) \<and>
    map receivers (shards r) = map (count m) [0..<length (shards r)]"
proof -
  have ok: "router_ok r" "counts_ok r m"
    using routed_ok [OF assms(1)] by simp_all
  have "\<exists>i r'. shard_for perm r lat lon = Some (i, r') \<and> i < length (shards r)"
    by (rule shard_for_returns [OF ok(1) assms(2-4)])
  moreover have "map receivers (shards r) = map (count m) [0..<length (shards r)]"
    using ok(2) by (intro nth_equalityI) (simp_all add: counts_ok_def)
  ultimately show ?thesis
    by blast
qed

theorem router_serves_witness:
  "\<exists>i r'. shard_for id (router_new (replicate 2 \<lparr>receivers = 0, rate = 0\<rparr>) 5 64) 47 (- 1) = Some (i, r') \<and> i < 2"
proof -
  have "routed (router_new (replicate 2 \<lparr>receivers = 0, rate = 0\<rparr>) 5 64) {#}"
    by (rule routed_new) simp_all
  from router_serves [OF this iterates_id, of 47 "- 1"] show ?thesis
    by (simp add: router_new_def)
qed

text \<open>
  C32. Assignments are for the process lifetime and consistent with the territory gate:
  \<open>shard_for\<close> never changes the owner of an owned cell, and right after it has assigned
  a receiver, splitting of the cell included, the shard that owns the receiver's position
  is the shard the receiver was given.
\<close>

theorem router_assignment_sticks:
  assumes "routed r m" "iterates perm" "\<bar>lat\<bar> \<le> 90" "\<bar>lon\<bar> \<le> 180" "shard_for perm r lat lon = Some (i, r')"
  shows "owner r \<subseteq>\<^sub>m owner r' \<and> owner_of_point r' lat lon = Some (Some i)"
  using shard_for_ok [OF conjunct1 [OF routed_ok [OF assms(1)]] assms(2-5)] by (simp add: owner_of_point_def)

theorem router_assignment_sticks_witness:
  "\<exists>i r'. shard_for rev (router_new (replicate 2 \<lparr>receivers = 0, rate = 0\<rparr>) 5 64) 47 (- 1) = Some (i, r') \<and>
    owner_of_point r' 47 (- 1) = Some (Some i)"
proof -
  let ?r = "router_new (replicate 2 \<lparr>receivers = 0, rate = 0\<rparr>) 5 64"
  have r: "routed ?r {#}"
    by (rule routed_new) simp_all
  obtain i r' where s: "shard_for rev ?r 47 (- 1) = Some (i, r')"
    using shard_for_returns [OF conjunct1 [OF routed_ok [OF r]] iterates_rev, of 47 "- 1"] by auto
  show ?thesis
    using s router_assignment_sticks [OF r iterates_rev _ _ s] by auto
qed

text \<open>
  The capacity gate: a receiver on new ground, where no owned cell contains its
  position, joins a shard that has capacity and owns a neighbouring cell, with no eligible
  shard owning more of the neighbours; with no eligible neighbour it starts a region on a
  shard of least load.
\<close>

theorem router_capacity_gate:
  assumes it: "iterates perm" and ok: "router_ok r"
    and leaf: "leaf_at r lat lon = Some key" and home: "owner_at r lat lon = Some None"
    and vs: "collect_votes r key neighbour_offsets [] = Some vs"
    and s: "shard_for perm r lat lon = Some (i, r')"
  shows "if vs = [] then \<forall>j < length (shards r). load_of r i \<le> load_of r j
    else has_capacity r i \<and> (\<exists>n. (i, n) \<in> set vs \<and> (\<forall>v \<in> set vs. snd v \<le> n))"
proof -
  have none: "owner r key = None"
    using home leaf owner_up_None [of r lat lon "fst key"] by (simp add: owner_at_def leaf_at_own_cell [OF leaf])
  have i: "i = pick_shard perm r vs None"
    using s by (auto simp: shard_for_def leaf none vs home Let_def split: if_splits)
  show ?thesis
  proof (cases "max_by_key (vote_key r) (perm vs)")
    case None
    then have e: "perm vs = []" "vs = []"
      using it by_key_None(1) [of "vote_key r" "perm vs"] by (auto simp: iterates_def) (metis set_empty2)
    obtain j where j: "min_by_key (load_of r) [0..<length (shards r)] = Some j"
      using router_okD(1) [OF ok] by_key_None(2) [of "load_of r" "[0..<length (shards r)]"]
      by (cases "min_by_key (load_of r) [0..<length (shards r)]") auto
    then show ?thesis
      using i None e min_by_key_Some [OF j] by (simp add: pick_shard_def)
  next
    case (Some v)
    then have v: "v \<in> set vs" "\<forall>u \<in> set vs. vote_key r u \<le> vote_key r v" "i = fst v"
      using max_by_key_Some [OF Some] it i by (auto simp: iterates_def pick_shard_def split: prod.splits)
    have "snd u \<le> snd v" if "u \<in> set vs" for u
    proof -
      have "fst (vote_key r u) \<le> fst (vote_key r v)"
        using v(2) that by (auto simp: less_eq_prod_def)
      then show ?thesis
        by (simp add: vote_key_def Let_def split: prod.splits)
    qed
    moreover have "has_capacity r (fst v)"
      using collect_votes_returns [OF ok, of key neighbour_offsets "[]"] vs v(1) by auto
    ultimately show ?thesis
      using v by (cases v) auto
  qed
qed

theorem router_capacity_gate_witness:
  "\<exists>i r'. shard_for rev (router_new [\<lparr>receivers = 0, rate = 7\<rparr>, \<lparr>receivers = 0, rate = 5\<rparr>] 5 64) 47 (- 1) = Some (i, r') \<and>
    load_of (router_new [\<lparr>receivers = 0, rate = 7\<rparr>, \<lparr>receivers = 0, rate = 5\<rparr>] 5 64) i \<le> (5, 0)"
proof -
  let ?r = "router_new [\<lparr>receivers = 0, rate = 7\<rparr>, \<lparr>receivers = 0, rate = 5\<rparr>] 5 64"
  have ok: "router_ok ?r" and e: "owner ?r = Map.empty"
    by (simp_all add: router_ok_def router_new_def)
  obtain i r' where s: "shard_for rev ?r 47 (- 1) = Some (i, r')"
    using shard_for_returns [OF ok iterates_rev, of 47 "- 1"] by auto
  obtain key where "leaf_at ?r 47 (- 1) = Some key"
    using leaf_at_finds [OF ok] by metis
  from router_capacity_gate [OF iterates_rev ok this unowned_world(1) [OF ok e] unowned_world(2) [OF ok e] s]
  have "load_of ?r i \<le> load_of ?r 1"
    by (simp add: router_new_def)
  with s show ?thesis
    by (intro exI [of _ i] exI [of _ r']) (simp add: load_of_def router_new_def)
qed

text \<open>A cell that has just split, with its shard full and a neighbour cell on another shard.\<close>

definition split_example :: router where
  "split_example = \<lparr>shards = [\<lparr>receivers = 65, rate = 0\<rparr>, \<lparr>receivers = 1, rate = 0\<rparr>], base_deg = 5, shard_cap = 64,
     owner = [(0, 0, 0) \<mapsto> 0, (0, 0, 1) \<mapsto> 1], rx_count = [(0, 0, 0) \<mapsto> 65, (0, 0, 1) \<mapsto> 1], split = {(0, 0, 0)}\<rparr>"

lemma split_example_cells:
  assumes "\<bar>lat\<bar> \<le> 100" "\<bar>lon\<bar> \<le> 100"
  shows "cell_at split_example 0 lat lon = (0, \<lfloor>lat / 5\<rfloor>, \<lfloor>lon / 5\<rfloor>)"
    "cell_at split_example (Suc 0) lat lon = (Suc 0, \<lfloor>lat / (5 / 2)\<rfloor>, \<lfloor>lon / (5 / 2)\<rfloor>)"
proof -
  have id: "as_i16 (of_int \<lfloor>x / s\<rfloor>) = \<lfloor>x / s\<rfloor>" if "\<bar>x\<bar> \<le> 100" "2 \<le> s" for x s :: real
    using index_small [of x s] that by (intro as_i16_id) auto
  have c: "cell_size split_example 0 = 5" "cell_size split_example (Suc 0) = 5 / 2"
    by (simp_all add: cell_size_def split_example_def)
  show "cell_at split_example 0 lat lon = (0, \<lfloor>lat / 5\<rfloor>, \<lfloor>lon / 5\<rfloor>)"
    "cell_at split_example (Suc 0) lat lon = (Suc 0, \<lfloor>lat / (5 / 2)\<rfloor>, \<lfloor>lon / (5 / 2)\<rfloor>)"
    unfolding cell_at_def Let_def c using id assms by (simp_all del: divide_divide_eq_right)
qed

lemma split_example_owner:
  assumes "\<bar>lat\<bar> \<le> 100" "\<bar>lon\<bar> \<le> 100"
  shows "owner_at split_example lat lon =
    Some (if 0 \<le> lat \<and> lat < 5 \<and> 0 \<le> lon \<and> lon < 5 then Some 0
          else if 0 \<le> lat \<and> lat < 5 \<and> 5 \<le> lon \<and> lon < 10 then Some 1 else None)"
  using split_example_cells [OF assms]
  by (simp add: owner_at_def leaf_at_def leaf_from.simps [of _ _ _ 0] leaf_from.simps [of _ _ _ "Suc 0"] Let_def)
    (auto simp: split_example_def floor_eq_iff)

lemma split_example_leaf: "leaf_at split_example 1 4 = Some (1, 0, 1)"
  using split_example_cells [of 1 4]
  by (simp add: leaf_at_def leaf_from.simps [of _ _ _ 0] leaf_from.simps [of _ _ _ "Suc 0"] Let_def)
    (simp add: split_example_def)

lemma split_example_votes: "collect_votes split_example (1, 0, 1) neighbour_offsets [] = Some [(1, 2)]"
proof -
  have c: "cell_size split_example (Suc 0) = 5 / 2" "has_capacity split_example 0 = False" "has_capacity split_example (Suc 0) = True"
    by (simp_all add: cell_size_def split_example_def has_capacity_def CAP_RATE_PER_WINDOW_def)
  show ?thesis
    unfolding neighbour_offsets_def by (simp add: c split_example_owner Let_def)
qed

text \<open>
  A split cell's children do not always go home. The base cell at the origin is owned
  by shard 0 and was just split with its 65th receiver, the cell east of it by shard 1.
  The next receiver in the south-eastern child is assigned to shard 1 although its
  ancestor's shard is 0: shard 0 is full at the default capacity of 64, so its votes are
  filtered out, and the neighbour's vote is taken before the ancestor is consulted.
\<close>

theorem router_children_not_home:
  "owner_of_point split_example 1 4 = Some (Some 0) \<and> map_option fst (shard_for id split_example 1 4) = Some 1"
proof -
  have "owner split_example (1, 0, 1) = None" "length (shards split_example) = 2"
    by (simp_all add: split_example_def)
  moreover have "pick_shard id split_example [(1, 2)] (Some 0) = 1"
    by (simp add: pick_shard_def)
  ultimately show ?thesis
    by (simp add: owner_of_point_def shard_for_def split_example_owner split_example_leaf split_example_votes
        claim_cell_fields Let_def del: One_nat_def)
qed

end
