(* ===== verification/Clocksync.thy ===== *)
theory Clocksync
  imports Prelude
begin

text \<open>
  The pairwise clock model of \<^verbatim>\<open>crates/mlatd/src/clocksync.rs\<close>: exponentially weighted,
  centred sufficient statistics of a straight-line fit, an online outlier gate and a reset
  after a run of rejections. Times are real numbers (seconds). The reference
  specification is the weighted least-squares line through the accepted observations.
\<close>

definition LAMBDA :: real where "LAMBDA = 0.9967"
definition MIN_WEIGHT :: real where "MIN_WEIGHT = 8"
definition MIN_SPAN_S :: real where "MIN_SPAN_S = 5"
definition GATE_FLOOR_S :: real where "GATE_FLOOR_S = 1 / 10 ^ 6"
definition RESET_AFTER_REJECTS :: nat where "RESET_AFTER_REJECTS = 8"
definition MAX_PRED_SIGMA_S :: real where "MAX_PRED_SIGMA_S = 2 / 10 ^ 6"

record pair_model =
  pm_w :: real
  pm_ma :: real
  pm_mb :: real
  caa :: real
  cab :: real
  msq :: real
  rejects :: nat
  n_total :: nat

definition pair_default :: pair_model where
  "pair_default = \<lparr>pm_w = 0, pm_ma = 0, pm_mb = 0, caa = 0, cab = 0, msq = 0, rejects = 0, n_total = 0\<rparr>"

definition usable :: "pair_model \<Rightarrow> bool" where
  "usable m \<longleftrightarrow> pm_w m \<ge> MIN_WEIGHT \<and> caa m / max (pm_w m) 1 \<ge> (MIN_SPAN_S / 4) ^ 2"

definition pair_beta :: "pair_model \<Rightarrow> real" where
  "pair_beta m = (if caa m > 0 then cab m / caa m else 1)"

definition predict_unchecked :: "pair_model \<Rightarrow> real \<Rightarrow> real \<times> real" where
  "predict_unchecked m t_from =
     (let pred = pm_mb m + pair_beta m * (t_from - pm_ma m);
          da = t_from - pm_ma m;
          infl = sqrt (1 + 1 / pm_w m + da * da / max (caa m) (1 / 10 ^ 12))
      in (pred, sqrt (msq m) * infl))"

text \<open>Welford's update with decay.\<close>

definition pair_ingest :: "pair_model \<Rightarrow> real \<Rightarrow> real \<Rightarrow> pair_model" where
  "pair_ingest m t_from t_to =
     (let w' = pm_w m * LAMBDA + 1;
          da = t_from - pm_ma m; db = t_to - pm_mb m; k = 1 / w';
          ma' = pm_ma m + k * da; mb' = pm_mb m + k * db
      in m\<lparr>pm_w := w', pm_ma := ma', pm_mb := mb',
           caa := caa m * LAMBDA + da * (t_from - ma'),
           cab := cab m * LAMBDA + da * (t_to - mb'),
           n_total := n_total m + 1\<rparr>)"

definition residual_of :: "pair_model \<Rightarrow> real \<Rightarrow> real \<Rightarrow> real" where
  "residual_of m t_from t_to = t_to - fst (predict_unchecked m t_from)"

definition gate_of :: "pair_model \<Rightarrow> real" where
  "gate_of m = max (4 * sqrt (msq m)) GATE_FLOOR_S"

definition push :: "pair_model \<Rightarrow> real \<Rightarrow> real \<Rightarrow> bool \<times> pair_model" where
  "push m t_from t_to =
     (if usable m then
        let r = residual_of m t_from t_to
        in if \<bar>r\<bar> > gate_of m then
             let m = m\<lparr>rejects := rejects m + 1\<rparr>
             in (False, if rejects m \<ge> RESET_AFTER_REJECTS then pair_default else m)
           else let m = m\<lparr>rejects := 0, msq := msq m + (1 - LAMBDA) * (r * r - msq m)\<rparr>
                in (True, pair_ingest m t_from t_to)
      else (True, pair_ingest m t_from t_to))"

definition convert :: "pair_model \<Rightarrow> real \<Rightarrow> (real \<times> real) option" where
  "convert m t_from =
     (if \<not> usable m then None
      else let (pred, sigma) = predict_unchecked m t_from
           in if sigma > MAX_PRED_SIGMA_S then None else Some (pred, sigma))"

definition status :: "pair_model \<Rightarrow> nat \<times> real" where
  "status m = (n_total m, (pair_beta m - 1) * 10 ^ 6)"

subsection \<open>The reference: decayed sums over a log of observations\<close>

text \<open>
  The log holds the accepted observations since the last reset, newest first; an
  observation accepted \<open>k\<close> observations ago weighs \<open>LAMBDA ^ k\<close>.
\<close>

fun ew :: "(real \<Rightarrow> real \<Rightarrow> real) \<Rightarrow> (real \<times> real) list \<Rightarrow> real" where
  "ew f [] = 0"
| "ew f ((a, b) # xs) = ew f xs * LAMBDA + f a b"

definition fit_error :: "real \<Rightarrow> real \<Rightarrow> (real \<times> real) list \<Rightarrow> real" where
  "fit_error p q xs = ew (\<lambda>a b. (b - (p + q * a)) ^ 2) xs"

definition push_log :: "pair_model \<times> (real \<times> real) list \<Rightarrow> real \<times> real \<Rightarrow> pair_model \<times> (real \<times> real) list" where
  "push_log s o1 =
     (let (m, xs) = s; (a, b) = o1; (ok, m') = push m a b
      in (m', if ok then o1 # xs else if m' = pair_default then [] else xs))"

definition fits :: "pair_model \<Rightarrow> (real \<times> real) list \<Rightarrow> bool" where
  "fits m xs \<longleftrightarrow>
     pm_w m = ew (\<lambda>a b. 1) xs \<and>
     pm_w m * pm_ma m = ew (\<lambda>a b. a) xs \<and>
     pm_w m * pm_mb m = ew (\<lambda>a b. b) xs \<and>
     caa m + pm_w m * pm_ma m ^ 2 = ew (\<lambda>a b. a ^ 2) xs \<and>
     cab m + pm_w m * pm_ma m * pm_mb m = ew (\<lambda>a b. a * b) xs"

lemma LAMBDA_bounds: "0 < LAMBDA" "LAMBDA < 1"
  by (simp_all add: LAMBDA_def)

lemma ew_add: "ew (\<lambda>a b. f a b + g a b) xs = ew f xs + ew g xs"
  by (induction f xs rule: ew.induct) (simp_all add: algebra_simps)

lemma ew_scale: "ew (\<lambda>a b. c * f a b) xs = c * ew f xs"
  by (induction f xs rule: ew.induct) (simp_all add: algebra_simps)

lemma ew_const: "ew (\<lambda>a b. c) xs = c * ew (\<lambda>a b. 1) xs"
  using ew_scale [of c "\<lambda>a b. 1" xs] by simp

lemma ew_nonneg: "(\<And>a b. 0 \<le> f a b) \<Longrightarrow> 0 \<le> ew f xs"
  using LAMBDA_bounds by (induction f xs rule: ew.induct) simp_all

lemma ingest_weight:
  assumes "0 \<le> pm_w m"
  shows "0 < pm_w (pair_ingest m a b)" "pm_w (pair_ingest m a b) = pm_w m * LAMBDA + 1"
  using assms LAMBDA_bounds by (auto simp: pair_ingest_def Let_def add_nonneg_pos)

lemma ingest_means:
  fixes a b :: real
  assumes "0 \<le> pm_w m"
  defines "m' \<equiv> pair_ingest m a b"
  shows "pm_w m' * pm_ma m' = pm_w m * pm_ma m * LAMBDA + a" "pm_w m' * pm_mb m' = pm_w m * pm_mb m * LAMBDA + b"
proof -
  have "pm_w m * LAMBDA + 1 \<noteq> 0"
    using ingest_weight [OF assms(1), of a b] by simp
  then show "pm_w m' * pm_ma m' = pm_w m * pm_ma m * LAMBDA + a" "pm_w m' * pm_mb m' = pm_w m * pm_mb m * LAMBDA + b"
    by (simp_all add: m'_def pair_ingest_def Let_def field_simps)
qed

lemma ingest_moments:
  fixes a b :: real
  assumes "0 \<le> pm_w m"
  defines "m' \<equiv> pair_ingest m a b"
  shows "caa m' + pm_w m' * pm_ma m' ^ 2 = (caa m + pm_w m * pm_ma m ^ 2) * LAMBDA + a ^ 2"
    "cab m' + pm_w m' * pm_ma m' * pm_mb m' = (cab m + pm_w m * pm_ma m * pm_mb m) * LAMBDA + a * b"
proof -
  define L where "L = pm_w m * LAMBDA"
  note M = ingest_means [OF assms(1), of a b, folded m'_def]
  have w': "pm_w m' = L + 1"
    using ingest_weight [OF assms(1), of a b] by (simp add: m'_def L_def)
  have c: "caa m' = caa m * LAMBDA + (a - pm_ma m) * (a - pm_ma m')" "cab m' = cab m * LAMBDA + (a - pm_ma m) * (b - pm_mb m')"
    by (simp_all add: m'_def pair_ingest_def Let_def)
  have e: "(L + 1) * pm_ma m' = L * pm_ma m + a" "(L + 1) * pm_mb m' = L * pm_mb m + b"
    using M by (simp_all add: w' L_def mult.commute mult.left_commute)
  have "caa m' + (L + 1) * pm_ma m' ^ 2 = caa m * LAMBDA + L * pm_ma m ^ 2 + a ^ 2"
    using e(1) unfolding c by algebra
  then show "caa m' + pm_w m' * pm_ma m' ^ 2 = (caa m + pm_w m * pm_ma m ^ 2) * LAMBDA + a ^ 2"
    by (simp add: w' L_def algebra_simps)
  have "cab m' + (L + 1) * pm_ma m' * pm_mb m' = cab m * LAMBDA + L * pm_ma m * pm_mb m + a * b"
    using e unfolding c by algebra
  then show "cab m' + pm_w m' * pm_ma m' * pm_mb m' = (cab m + pm_w m * pm_ma m * pm_mb m) * LAMBDA + a * b"
    by (simp add: w' L_def algebra_simps)
qed

lemma fits_weight: "fits m xs \<Longrightarrow> 0 \<le> pm_w m"
  using ew_nonneg [of "\<lambda>a b. 1" xs] by (simp add: fits_def)

lemma fitsD:
  assumes "fits m xs"
  shows "pm_w m = ew (\<lambda>a b. 1) xs" "pm_w m * pm_ma m = ew (\<lambda>a b. a) xs" "pm_w m * pm_mb m = ew (\<lambda>a b. b) xs"
    "caa m + pm_w m * pm_ma m ^ 2 = ew (\<lambda>a b. a ^ 2) xs" "cab m + pm_w m * pm_ma m * pm_mb m = ew (\<lambda>a b. a * b) xs"
  using assms unfolding fits_def by blast+

lemma fits_ingest:
  assumes "fits m xs"
  shows "fits (pair_ingest m a b) ((a, b) # xs)"
proof -
  note n = fits_weight [OF assms]
  show ?thesis
    unfolding fits_def ew.simps fitsD(2-5) [OF assms, symmetric]
    using ingest_weight(2) [OF n] fitsD(1) [OF assms] ingest_moments [OF n] ingest_means [OF n] by metis
qed

lemma fits_default: "fits pair_default []"
  by (simp add: fits_def pair_default_def)

lemma fits_gate: "fits (m\<lparr>rejects := r, msq := v\<rparr>) xs \<longleftrightarrow> fits m xs" "fits (m\<lparr>rejects := r\<rparr>) xs \<longleftrightarrow> fits m xs"
  by (simp_all add: fits_def)

lemma usable_not_default: "usable m \<Longrightarrow> m\<lparr>rejects := r\<rparr> \<noteq> pair_default"
proof
  assume "usable m" "m\<lparr>rejects := r\<rparr> = pair_default"
  then have "pm_w (m\<lparr>rejects := r\<rparr>) = 0" "pm_w m \<ge> 8"
    by (simp_all add: pair_default_def usable_def MIN_WEIGHT_def)
  then show False
    by simp
qed

lemma fits_push_log:
  assumes "fits m xs" "push_log (m, xs) o1 = (m', xs')"
  shows "fits m' xs'"
proof -
  obtain a b where o1: "o1 = (a, b)"
    by fastforce
  from assms(2) show ?thesis
    unfolding push_log_def push_def o1 Let_def
    using assms(1) usable_not_default [of m]
    by (auto simp: fits_gate fits_default fits_ingest split: if_splits)
qed

lemma fits_run: "foldl push_log (pair_default, []) obs = (m, xs) \<Longrightarrow> fits m xs"
proof -
  have "fits (fst (foldl push_log (pair_default, []) obs)) (snd (foldl push_log (pair_default, []) obs))"
    by (rule map_foldl_invariant [where P = "\<lambda>s. fits (fst s) (snd s)"])
      (use fits_default in \<open>auto intro: fits_push_log [OF _ surjective_pairing]\<close>)
  then show "foldl push_log (pair_default, []) obs = (m, xs) \<Longrightarrow> fits m xs"
    by simp
qed

lemma fit_error_expand:
  "fit_error p q xs = ew (\<lambda>a b. b ^ 2) xs - 2 * p * ew (\<lambda>a b. b) xs - 2 * q * ew (\<lambda>a b. a * b) xs
    + p ^ 2 * ew (\<lambda>a b. 1) xs + 2 * p * q * ew (\<lambda>a b. a) xs + q ^ 2 * ew (\<lambda>a b. a ^ 2) xs"
  unfolding fit_error_def
proof (induction xs)
  case (Cons x xs)
  obtain a b where x: "x = (a, b)"
    by fastforce
  show ?case
    unfolding x ew.simps Cons.IH by algebra
qed simp

lemma fit_error_gap:
  assumes f: "fits m xs" and c: "0 < caa m"
  defines "\<beta> \<equiv> pair_beta m"
  shows "fit_error p q xs - fit_error (pm_mb m - \<beta> * pm_ma m) \<beta> xs
    = caa m * (q - \<beta>) ^ 2 + pm_w m * (p + q * pm_ma m - pm_mb m) ^ 2"
proof -
  have b: "cab m = \<beta> * caa m"
    using c by (simp add: \<beta>_def pair_beta_def)
  show ?thesis
    unfolding fit_error_expand fitsD [OF f, symmetric] b by algebra
qed

subsection \<open>Invariants of the model\<close>

definition pair_ok :: "pair_model \<Rightarrow> bool" where
  "pair_ok m \<longleftrightarrow> 0 \<le> pm_w m \<and> pm_w m < 1 / (1 - LAMBDA) \<and> 0 \<le> caa m \<and> 0 \<le> msq m \<and>
     rejects m < RESET_AFTER_REJECTS \<and> (rejects m \<noteq> 0 \<longrightarrow> usable m)"

lemma weight_bound: "v < 1 / (1 - LAMBDA) \<Longrightarrow> v * LAMBDA + 1 < 1 / (1 - LAMBDA)"
  by (simp add: LAMBDA_def field_simps)

lemma ingest_caa:
  assumes "0 \<le> pm_w m" "0 \<le> caa m"
  shows "0 \<le> caa (pair_ingest m a b)"
proof -
  define L where "L = pm_w m * LAMBDA"
  have L: "0 \<le> L"
    using assms LAMBDA_bounds by (simp add: L_def)
  have "(a - pm_ma m) * (a - (pm_ma m + 1 / (L + 1) * (a - pm_ma m))) = (a - pm_ma m) ^ 2 * (L / (L + 1))"
    using L by (simp add: field_simps power2_eq_square)
  then have "caa (pair_ingest m a b) = caa m * LAMBDA + (a - pm_ma m) ^ 2 * (L / (L + 1))"
    by (simp add: pair_ingest_def Let_def L_def)
  then show ?thesis
    using L assms LAMBDA_bounds by simp
qed

lemma pair_ok_ingest: "pair_ok m \<Longrightarrow> rejects m = 0 \<Longrightarrow> pair_ok (pair_ingest m a b)"
  using ingest_caa [of m a b] ingest_weight [of m a b] weight_bound [of "pm_w m"]
  by (simp add: pair_ok_def) (simp add: pair_ingest_def Let_def)

lemma pair_ok_default: "pair_ok pair_default"
  by (simp add: pair_ok_def pair_default_def RESET_AFTER_REJECTS_def LAMBDA_def)

lemma msq_nonneg: "0 \<le> v \<Longrightarrow> 0 \<le> v + (1 - LAMBDA) * (r * r - v)"
proof -
  assume "0 \<le> v"
  then have "0 \<le> LAMBDA * v + (1 - LAMBDA) * (r * r)"
    using LAMBDA_bounds by simp
  then show ?thesis
    by (simp add: algebra_simps)
qed

lemma pair_ok_push: "pair_ok m \<Longrightarrow> pair_ok (snd (push m a b))"
proof (cases "usable m")
  case True
  assume ok: "pair_ok m"
  let ?r = "residual_of m a b"
  have g: "pair_ok (m\<lparr>rejects := 0, msq := msq m + (1 - LAMBDA) * (?r * ?r - msq m)\<rparr>)"
    using ok msq_nonneg [of "msq m" ?r] by (simp add: pair_ok_def RESET_AFTER_REJECTS_def)
  have "pair_ok (m\<lparr>rejects := rejects m + 1\<rparr>)" if "rejects m + 1 < RESET_AFTER_REJECTS"
    using ok that True by (simp add: pair_ok_def usable_def)
  then show ?thesis
    unfolding push_def Let_def using True g by (auto intro!: pair_ok_ingest pair_ok_default)
next
  case False
  assume "pair_ok m"
  moreover from this False have "rejects m = 0"
    by (auto simp: pair_ok_def)
  ultimately show ?thesis
    using False by (simp add: push_def pair_ok_ingest)
qed

interpretation pair: kept_by_steps "\<lambda>m o1. snd (push m (fst o1) (snd o1))" pair_ok
  by unfold_locales (rule pair_ok_push)

subsection \<open>Clocks in an exact linear relation\<close>

definition on_line :: "real \<Rightarrow> real \<Rightarrow> pair_model \<Rightarrow> bool" where
  "on_line c s m \<longleftrightarrow> 0 \<le> pm_w m \<and> (pm_w m \<noteq> 0 \<longrightarrow> pm_mb m = c + s * pm_ma m) \<and>
     (pm_w m = 0 \<longrightarrow> pm_ma m = 0 \<and> pm_mb m = 0) \<and> cab m = s * caa m \<and> msq m = 0 \<and> rejects m = 0"

lemma on_line_default: "on_line c s pair_default"
  by (simp add: on_line_def pair_default_def)

lemma on_line_ingest:
  assumes l: "on_line c s m"
  shows "on_line c s (pair_ingest m t (c + s * t))"
proof -
  define m' where "m' = pair_ingest m t (c + s * t)"
  have n: "0 \<le> pm_w m"
    using l by (simp add: on_line_def)
  have w: "0 < pm_w m'" "pm_w m' = pm_w m * LAMBDA + 1"
    using ingest_weight [OF n] by (simp_all add: m'_def)
  have b: "pm_w m * pm_mb m = pm_w m * (c + s * pm_ma m)"
    using l by (auto simp: on_line_def)
  have "pm_w m' * pm_mb m' = pm_w m' * (c + s * pm_ma m')"
    using ingest_means [OF n, of t "c + s * t", folded m'_def] b w(2) by algebra
  then have mb: "pm_mb m' = c + s * pm_ma m'"
    using w by simp
  have "cab m' = cab m * LAMBDA + (t - pm_ma m) * (c + s * t - pm_mb m')" "caa m' = caa m * LAMBDA + (t - pm_ma m) * (t - pm_ma m')"
    by (simp_all add: m'_def pair_ingest_def Let_def)
  moreover have "cab m = s * caa m"
    using l by (simp add: on_line_def)
  ultimately have "cab m' = s * caa m'"
    using mb by algebra
  moreover have "msq m' = 0" "rejects m' = 0"
    using l by (simp_all add: m'_def pair_ingest_def on_line_def Let_def)
  ultimately show ?thesis
    unfolding m'_def [symmetric] using w mb by (simp add: on_line_def)
qed

lemma usable_pos: "usable m \<Longrightarrow> 8 \<le> pm_w m \<and> 0 < caa m"
proof -
  assume u: "usable m"
  then have "8 \<le> pm_w m" "0 < caa m / max (pm_w m) 1"
    by (auto simp: usable_def MIN_WEIGHT_def MIN_SPAN_S_def intro: less_le_trans [rotated])
  then show ?thesis
    by (simp add: zero_less_divide_iff)
qed

lemma on_line_predict:
  assumes "on_line c s m" "usable m"
  shows "predict_unchecked m t = (c + s * t, 0)"
  using usable_pos [OF assms(2)] assms(1)
  by (simp add: predict_unchecked_def pair_beta_def on_line_def Let_def algebra_simps)

lemma on_line_push:
  assumes "on_line c s m"
  shows "fst (push m t (c + s * t)) \<and> on_line c s (snd (push m t (c + s * t)))"
proof (cases "usable m")
  case True
  have m: "m\<lparr>rejects := 0, msq := 0\<rparr> = m" "msq m = 0"
    using assms by (simp_all add: on_line_def)
  have "push m t (c + s * t) = (True, pair_ingest m t (c + s * t))"
    using on_line_predict [OF assms True, of t] True m(2)
    by (simp add: push_def residual_of_def gate_of_def GATE_FLOOR_S_def m(1))
  then show ?thesis
    using on_line_ingest [OF assms, of t] by simp
next
  case False
  then show ?thesis
    using on_line_ingest [OF assms] by (simp add: push_def)
qed

subsection \<open>Properties\<close>

text \<open>
  C29. The constant-size model is the least-squares fit. After any sequence of
  observations, of all straight lines the one the model predicts with has the smallest
  weighted squared error over the accepted observations since the last reset, an
  observation that is \<open>k\<close> observations old weighing \<open>LAMBDA ^ k\<close>.
\<close>

theorem pair_model_least_squares:
  assumes "foldl push_log (pair_default, []) obs = (m, xs)" "0 < caa m"
  shows "fit_error (fst (predict_unchecked m 0)) (pair_beta m) xs \<le> fit_error p q xs"
proof -
  have f: "fits m xs"
    by (rule fits_run [OF assms(1)])
  have "fst (predict_unchecked m 0) = pm_mb m - pair_beta m * pm_ma m"
    by (simp add: predict_unchecked_def Let_def)
  moreover have "0 \<le> caa m * (q - pair_beta m) ^ 2 + pm_w m * (p + q * pm_ma m - pm_mb m) ^ 2"
    using assms(2) fits_weight [OF f] by simp
  ultimately show ?thesis
    using fit_error_gap [OF f assms(2), of p q] by simp
qed

text \<open>
  The model's statistics stay in range over any sequence of observations: the
  effective weight is below 1/(1 - lambda), about 303, the spread and the residual
  variance are never negative (their square roots are real), fewer than eight rejections
  are ever pending, and they are pending only on a usable model.
\<close>

theorem pair_model_in_range:
  fixes obs :: "(real \<times> real) list"
  defines "m \<equiv> foldl (\<lambda>m o1. snd (push m (fst o1) (snd o1))) pair_default obs"
  shows "0 \<le> pm_w m \<and> pm_w m < 304 \<and> 0 \<le> caa m \<and> 0 \<le> msq m \<and>
    rejects m < RESET_AFTER_REJECTS \<and> (rejects m = 0 \<or> usable m)"
  using pair.run_keeps [OF pair_ok_default, of obs, folded m_def]
  by (auto simp: pair_ok_def LAMBDA_def elim: less_trans)

text \<open>
  Exact recovery: when two clocks are in an exact linear relation, every observation
  is accepted, and as soon as the model is usable every conversion is exact with zero
  sigma.
\<close>

theorem pair_model_exact:
  fixes ts :: "real list" and c s :: real
  defines "m \<equiv> foldl (\<lambda>m t. snd (push m t (c + s * t))) pair_default ts"
  shows "fst (push m t (c + s * t)) \<and> convert m u = (if usable m then Some (c + s * u, 0) else None)"
proof -
  have "on_line c s m"
    unfolding m_def by (rule map_foldl_invariant [where P = "on_line c s"])
      (use on_line_push on_line_default in auto)
  then show ?thesis
    using on_line_push [of c s m t] on_line_predict [of c s m u]
    by (auto simp: convert_def MAX_PRED_SIGMA_S_def)
qed

text \<open>
  C30. A clock jump resets the pair, an outlier does not move the fit: on a usable model
  with no pending rejections, \<open>n\<close> consecutive observations outside the gate are all
  refused; while \<open>n < 8\<close> only the rejection counter changes, and the eighth replaces the
  model by a fresh one.
\<close>

theorem clock_jump_resets:
  assumes "usable m" "rejects m = 0" "length obs \<le> RESET_AFTER_REJECTS"
    "list_all (\<lambda>(a, b). gate_of m < \<bar>residual_of m a b\<bar>) obs"
  shows "foldl (\<lambda>m o1. snd (push m (fst o1) (snd o1))) m obs =
    (if length obs = RESET_AFTER_REJECTS then pair_default else m\<lparr>rejects := length obs\<rparr>)"
  using assms(3,4)
proof (induction obs rule: rev_induct)
  case Nil
  have "m\<lparr>rejects := 0\<rparr> = m"
    using assms(2) by simp
  then show ?case
    by (simp add: RESET_AFTER_REJECTS_def)
next
  case (snoc x xs)
  have "usable (m\<lparr>rejects := n\<rparr>) = usable m" "gate_of (m\<lparr>rejects := n\<rparr>) = gate_of m"
    "residual_of (m\<lparr>rejects := n\<rparr>) a b = residual_of m a b" for n a b
    by (simp_all add: usable_def gate_of_def residual_of_def predict_unchecked_def pair_beta_def)
  with snoc assms(1) show ?case
    by (auto simp: push_def Let_def split: prod.splits)
qed

theorem clock_jump_resets_witness:
  fixes m defines "m \<equiv> \<lparr>pm_w = 10, pm_ma = 0, pm_mb = 0, caa = 100, cab = 100, msq = 0, rejects = 0, n_total = 10\<rparr>"
  shows "foldl (\<lambda>m o1. snd (push m (fst o1) (snd o1))) m (replicate 8 (1, 2)) = pair_default"
proof -
  have "usable m" "rejects m = 0" "list_all (\<lambda>(a, b). gate_of m < \<bar>residual_of m a b\<bar>) (replicate 8 (1, 2))"
    by (simp_all add: m_def usable_def MIN_WEIGHT_def MIN_SPAN_S_def gate_of_def GATE_FLOOR_S_def
        residual_of_def predict_unchecked_def pair_beta_def Let_def list_all_iff power2_eq_square)
  with clock_jump_resets [of m "replicate 8 (1, 2)"] show ?thesis
    by (simp add: RESET_AFTER_REJECTS_def)
qed

theorem pair_model_least_squares_witness:
  "\<exists>m xs. foldl push_log (pair_default, []) [(0, 0), (1, 2)] = (m, xs) \<and>
    fit_error (fst (predict_unchecked m 0)) (pair_beta m) xs \<le> fit_error 0 1 xs"
proof -
  obtain m xs where m: "foldl push_log (pair_default, []) [(0, 0), (1, 2)] = (m, xs)"
    by fastforce
  then have "0 < caa m"
    by (auto simp: push_log_def push_def pair_ingest_def pair_default_def usable_def MIN_WEIGHT_def LAMBDA_def Let_def)
  from pair_model_least_squares [OF m this, of 0 1] m show ?thesis
    by blast
qed

end
