(* ===== verification/Track.thy ===== *)
theory Track
  imports Geo
begin

text \<open>
  The alpha-beta track filter of \<^verbatim>\<open>crates/mlatd/src/track.rs\<close>. The filter's own
  coordinates are degrees, its rates degrees per second.
\<close>

record track_filter =
  tf_lat :: real
  tf_lon :: real
  vlat :: real
  vlon :: real
  last_t :: real
  tf_n :: nat

definition track_new :: "geodetic \<Rightarrow> real \<Rightarrow> track_filter" where
  "track_new first t =
     \<lparr>tf_lat = lat_deg first, tf_lon = lon_deg first, vlat = 0, vlon = 0, last_t = t, tf_n = 1\<rparr>"

text \<open>The gains the fix's error estimate and the age of the track give.\<close>

definition track_alpha :: "nat \<Rightarrow> real \<Rightarrow> real" where
  "track_alpha n err_est_m =
     (let quality = clamp (40 / max err_est_m 30) 0.15 0.8
      in if n < 5 then max quality 0.5 else quality)"

definition track_beta :: "real \<Rightarrow> real" where
  "track_beta alpha = alpha * alpha / (2 - alpha)"

definition track_update :: "track_filter \<Rightarrow> geodetic \<Rightarrow> real \<Rightarrow> real \<Rightarrow> geodetic \<times> track_filter" where
  "track_update f fix t err_est_m =
     (let dt = clamp (t - last_t f) 0 30;
          plat = tf_lat f + vlat f * dt; plon = tf_lon f + vlon f * dt;
          alpha = track_alpha (tf_n f) err_est_m; beta = track_beta alpha;
          rlat = lat_deg fix - plat; rlon = lon_deg fix - plon;
          lat' = plat + alpha * rlat; lon' = plon + alpha * rlon;
          f' = f\<lparr>last_t := t, tf_lat := lat', tf_lon := lon', tf_n := tf_n f + 1\<rparr>
      in (\<lparr>lat_deg = lat', lon_deg = lon', alt_m = alt_m fix\<rparr>,
          if dt > 0.05 then f'\<lparr>vlat := vlat f + beta * rlat / dt, vlon := vlon f + beta * rlon / dt\<rparr> else f'))"

lemma track_alpha_range: "0.15 \<le> track_alpha n e \<and> track_alpha n e \<le> 0.8"
  using clamp_bounds [of "0.15" "0.8" "40 / max e 30"] by (auto simp: track_alpha_def Let_def)

lemma track_beta_range:
  assumes "0 < a" "a \<le> 0.8"
  shows "0 < track_beta a" "track_beta a < a"
proof -
  show "0 < track_beta a"
    using assms by (simp add: track_beta_def)
  have "a * a < a * (2 - a)"
    using assms by (intro mult_strict_left_mono) simp_all
  then show "track_beta a < a"
    using assms by (simp add: track_beta_def divide_less_eq)
qed

subsection \<open>A target at constant speed\<close>

text \<open>The filter sits on the line \<open>c + v * t\<close> in both coordinates, with its rates.\<close>

definition locked :: "real \<Rightarrow> real \<Rightarrow> real \<Rightarrow> real \<Rightarrow> track_filter \<Rightarrow> bool" where
  "locked c v d u f \<longleftrightarrow> tf_lat f = c + v * last_t f \<and> vlat f = v \<and> tf_lon f = d + u * last_t f \<and> vlon f = u"

lemma track_update_locked:
  assumes l: "locked c v d u f" and dt: "0 \<le> t - last_t f" "t - last_t f \<le> 30"
    and fx: "lat_deg fx = c + v * t" "lon_deg fx = d + u * t"
  shows "track_update f fx t err = (fx, f\<lparr>tf_lat := lat_deg fx, tf_lon := lon_deg fx, last_t := t, tf_n := tf_n f + 1\<rparr>)"
proof -
  have c: "clamp (t - last_t f) 0 30 = t - last_t f"
    using dt by (simp add: clamp_id)
  have p: "tf_lat f + vlat f * (t - last_t f) = lat_deg fx" "tf_lon f + vlon f * (t - last_t f) = lon_deg fx"
    using l fx by (simp_all add: locked_def algebra_simps)
  show ?thesis
    unfolding track_update_def Let_def c p by simp
qed

lemma track_update_keeps_locked:
  "locked c v d u f \<Longrightarrow> 0 \<le> t - last_t f \<Longrightarrow> t - last_t f \<le> 30 \<Longrightarrow> lat_deg fx = c + v * t \<Longrightarrow>
    lon_deg fx = d + u * t \<Longrightarrow> locked c v d u (snd (track_update f fx t err)) \<and> last_t (snd (track_update f fx t err)) = t"
  by (simp add: track_update_locked) (simp add: locked_def)

fun track_run :: "track_filter \<Rightarrow> (geodetic \<times> real \<times> real) list \<Rightarrow> geodetic list" where
  "track_run f [] = []"
| "track_run f ((fx, t, err) # xs) = fst (track_update f fx t err) # track_run (snd (track_update f fx t err)) xs"

text \<open>Fixes in time order, at most thirty seconds apart, all on one line.\<close>

fun steady :: "real \<Rightarrow> real \<Rightarrow> real \<Rightarrow> real \<Rightarrow> real \<Rightarrow> (geodetic \<times> real \<times> real) list \<Rightarrow> bool" where
  "steady c v d u t0 [] = True"
| "steady c v d u t0 ((fx, t, err) # xs) \<longleftrightarrow>
     0 \<le> t - t0 \<and> t - t0 \<le> 30 \<and> lat_deg fx = c + v * t \<and> lon_deg fx = d + u * t \<and> steady c v d u t xs"

subsection \<open>Properties\<close>

text \<open>
  The filter blends: the smoothed position lies on the segment between the coasted
  prediction and the fix, moved towards the fix by a gain between 0.15 and 0.8 whatever
  the error estimate, at least one half while the track is younger than five
  fixes, and the velocity gain is positive and below the position gain.
\<close>

theorem track_update_blends:
  fixes f fx t err
  defines "dt \<equiv> clamp (t - last_t f) 0 30" and "\<alpha> \<equiv> track_alpha (tf_n f) err"
  shows "lat_deg (fst (track_update f fx t err)) = (1 - \<alpha>) * (tf_lat f + vlat f * dt) + \<alpha> * lat_deg fx \<and>
    lon_deg (fst (track_update f fx t err)) = (1 - \<alpha>) * (tf_lon f + vlon f * dt) + \<alpha> * lon_deg fx \<and>
    0.15 \<le> \<alpha> \<and> \<alpha> \<le> 0.8 \<and> (5 \<le> tf_n f \<or> 0.5 \<le> \<alpha>) \<and> 0 < track_beta \<alpha> \<and> track_beta \<alpha> < \<alpha>"
proof -
  have a: "0.15 \<le> \<alpha>" "\<alpha> \<le> 0.8" "5 \<le> tf_n f \<or> 0.5 \<le> \<alpha>"
    using track_alpha_range [of "tf_n f" err] by (auto simp: \<alpha>_def track_alpha_def Let_def)
  moreover have "0 < \<alpha>"
    using a by simp
  ultimately show ?thesis
    using track_beta_range [of \<alpha>]
    by (simp add: track_update_def dt_def \<alpha>_def Let_def algebra_simps)
qed

text \<open>
  A filter locked on a target at constant speed stays locked: over any sequence of
  exact fixes at most thirty seconds apart it returns each fix unchanged, whatever error
  estimates come with them.
\<close>

theorem track_stays_locked:
  "locked c v d u f \<Longrightarrow> steady c v d u (last_t f) xs \<Longrightarrow> track_run f xs = map fst xs"
proof (induction xs arbitrary: f)
  case (Cons x xs)
  obtain fx t err where x: "x = (fx, t, err)"
    by (cases x) auto
  have "steady c v d u (last_t (snd (track_update f fx t err))) xs" "locked c v d u (snd (track_update f fx t err))"
    using Cons.prems track_update_keeps_locked [of c v d u f t fx err] by (simp_all add: x)
  then have "track_run (snd (track_update f fx t err)) xs = map fst xs"
    by (intro Cons.IH)
  then show ?case
    using Cons.prems by (simp add: x track_update_locked)
qed simp

theorem track_stays_locked_witness:
  "track_run \<lparr>tf_lat = 47, tf_lon = 2, vlat = 0.5, vlon = 0, last_t = 0, tf_n = 9\<rparr>
    [(\<lparr>lat_deg = 48, lon_deg = 2, alt_m = 10\<rparr>, 2, 100), (\<lparr>lat_deg = 49, lon_deg = 2, alt_m = 30\<rparr>, 4, 5)]
   = [\<lparr>lat_deg = 48, lon_deg = 2, alt_m = 10\<rparr>, \<lparr>lat_deg = 49, lon_deg = 2, alt_m = 30\<rparr>]"
  using track_stays_locked [of 47 "0.5" 2 0 "\<lparr>tf_lat = 47, tf_lon = 2, vlat = 0.5, vlon = 0, last_t = 0, tf_n = 9\<rparr>"
    "[(\<lparr>lat_deg = 48, lon_deg = 2, alt_m = 10\<rparr>, 2, 100), (\<lparr>lat_deg = 49, lon_deg = 2, alt_m = 30\<rparr>, 4, 5)]"]
  by (simp add: locked_def)

end
