(* ===== verification/Solve.thy ===== *)
theory Solve
  imports Geo
begin

text \<open>
  The position solver of \<^verbatim>\<open>crates/mlatd/src/solve.rs\<close>: Gauss-Newton on latitude,
  longitude and transmit time with the altitude fixed, the leave-one-out retry and the
  test for the mirror lobe. Three-vectors and 3x3 matrices are tuples of their entries.
  Real arithmetic has no NaN, so the code's finiteness tests are vacuous here.
\<close>

type_synonym vec3 = "real \<times> real \<times> real"
type_synonym mat3 = "vec3 \<times> vec3 \<times> vec3"

record observation =
  obs_rx :: ecef
  t_s :: real
  err_s :: real

record solution =
  pos :: geodetic
  rms_s :: real
  err_est_m :: real
  err_geom_m :: real
  iterations :: nat
  t_tx :: real
  residuals_s :: "real list"

definition MAX_ITER :: nat where "MAX_ITER = 15"
definition MAX_RMS_S :: real where "MAX_RMS_S = 3 / 10 ^ 6"
definition LOBE_TEST_RMS_FACTOR :: real where "LOBE_TEST_RMS_FACTOR = 3"
definition LOBE_AMBIGUOUS_FACTOR :: real where "LOBE_AMBIGUOUS_FACTOR = 3"

subsection \<open>Linear algebra\<close>

fun det3 :: "mat3 \<Rightarrow> real" where
  "det3 ((a00, a01, a02), (a10, a11, a12), (a20, a21, a22)) =
     a00 * (a11 * a22 - a12 * a21) - a01 * (a10 * a22 - a12 * a20) + a02 * (a10 * a21 - a11 * a20)"

text \<open>Replace column \<open>k\<close> by a vector.\<close>

fun set_col :: "mat3 \<Rightarrow> nat \<Rightarrow> vec3 \<Rightarrow> mat3" where
  "set_col ((a00, a01, a02), (a10, a11, a12), (a20, a21, a22)) k (b0, b1, b2) =
     (if k = 0 then ((b0, a01, a02), (b1, a11, a12), (b2, a21, a22))
      else if k = 1 then ((a00, b0, a02), (a10, b1, a12), (a20, b2, a22))
      else ((a00, a01, b0), (a10, a11, b1), (a20, a21, b2)))"

definition solve3 :: "mat3 \<Rightarrow> vec3 \<Rightarrow> vec3 option" where
  "solve3 a b =
     (let det = det3 a
      in if \<bar>det\<bar> < 1 / 10 ^ 30 then None
         else Some (det3 (set_col a 0 b) / det, det3 (set_col a 1 b) / det, det3 (set_col a 2 b) / det))"

definition invert3 :: "mat3 \<Rightarrow> mat3 option" where
  "invert3 a =
     (case solve3 a (1, 0, 0) of
        None \<Rightarrow> None
      | Some (c00, c10, c20) \<Rightarrow>
          (case solve3 a (0, 1, 0) of
             None \<Rightarrow> None
           | Some (c01, c11, c21) \<Rightarrow>
               (case solve3 a (0, 0, 1) of
                  None \<Rightarrow> None
                | Some (c02, c12, c22) \<Rightarrow> Some ((c00, c01, c02), (c10, c11, c12), (c20, c21, c22)))))"

fun mat_vec :: "mat3 \<Rightarrow> vec3 \<Rightarrow> vec3" where
  "mat_vec ((a00, a01, a02), (a10, a11, a12), (a20, a21, a22)) (x, y, z) =
     (a00 * x + a01 * y + a02 * z, a10 * x + a11 * y + a12 * z, a20 * x + a21 * y + a22 * z)"

fun dot3 :: "vec3 \<Rightarrow> vec3 \<Rightarrow> real" where
  "dot3 (x, y, z) (x', y', z') = x * x' + y * y' + z * z'"

subsection \<open>Residuals and the normal equations\<close>

definition obs_residuals :: "observation list \<Rightarrow> real \<Rightarrow> real \<Rightarrow> real \<Rightarrow> real \<Rightarrow> real list" where
  "obs_residuals obs lat lon alt t =
     (let p = to_ecef \<lparr>lat_deg = lat, lon_deg = lon, alt_m = alt\<rparr>
      in map (\<lambda>ob. t + sqrt ((ecef_x p - ecef_x (obs_rx ob)) ^ 2 + (ecef_y p - ecef_y (obs_rx ob)) ^ 2
                 + (ecef_z p - ecef_z (obs_rx ob)) ^ 2) / C_MPS - t_s ob) obs)"

definition residuals_w :: "observation list \<Rightarrow> real \<Rightarrow> real \<Rightarrow> real \<Rightarrow> real \<Rightarrow> real list" where
  "residuals_w obs lat lon alt t =
     map2 (\<lambda>r ob. r / max (err_s ob) (1 / 10 ^ 9)) (obs_residuals obs lat lon alt t) obs"

definition jac_dlat :: real where "jac_dlat = 1 / 10 ^ 5"
definition jac_dlon :: "real \<Rightarrow> real" where "jac_dlon lat = 1 / 10 ^ 5 / max (cos (to_radians lat)) 0.2"
definition jac_dt :: real where "jac_dt = 1 / 10 ^ 7"

text \<open>The rows of the numeric Jacobian.\<close>

definition jacobian :: "observation list \<Rightarrow> real \<Rightarrow> real \<Rightarrow> real \<Rightarrow> real \<Rightarrow> vec3 list" where
  "jacobian obs lat lon alt t =
     (let r = residuals_w obs lat lon alt t;
          jl = residuals_w obs (lat + jac_dlat) lon alt t;
          jo = residuals_w obs lat (lon + jac_dlon lat) alt t;
          jt = residuals_w obs lat lon alt (t + jac_dt)
      in map (\<lambda>i. ((jl ! i - r ! i) / jac_dlat, (jo ! i - r ! i) / jac_dlon lat, (jt ! i - r ! i) / jac_dt))
           [0..<length obs])"

fun add_outer :: "mat3 \<Rightarrow> vec3 \<Rightarrow> mat3" where
  "add_outer ((m00, m01, m02), (m10, m11, m12), (m20, m21, m22)) (x, y, z) =
     ((m00 + x * x, m01 + x * y, m02 + x * z), (m10 + y * x, m11 + y * y, m12 + y * z), (m20 + z * x, m21 + z * y, m22 + z * z))"

fun sub_scaled :: "vec3 \<Rightarrow> vec3 \<times> real \<Rightarrow> vec3" where
  "sub_scaled (v0, v1, v2) ((x, y, z), r) = (v0 - x * r, v1 - y * r, v2 - z * r)"

definition jtj_of :: "vec3 list \<Rightarrow> mat3" where
  "jtj_of js = foldl add_outer ((0, 0, 0), (0, 0, 0), (0, 0, 0)) js"

definition jtr_of :: "vec3 list \<Rightarrow> real list \<Rightarrow> vec3" where
  "jtr_of js rs = foldl sub_scaled (0, 0, 0) (zip js rs)"

definition normal_matrix :: "observation list \<Rightarrow> real \<Rightarrow> real \<Rightarrow> real \<Rightarrow> real \<Rightarrow> mat3" where
  "normal_matrix obs lat lon alt t = jtj_of (jacobian obs lat lon alt t)"

definition gn_step :: "observation list \<Rightarrow> real \<Rightarrow> real \<Rightarrow> real \<Rightarrow> real \<Rightarrow> vec3 option" where
  "gn_step obs lat lon alt t =
     (let js = jacobian obs lat lon alt t
      in solve3 (jtj_of js) (jtr_of js (residuals_w obs lat lon alt t)))"

text \<open>The iteration: at most \<open>k\<close> further steps, \<open>it\<close> done; \<open>None\<close> when a step is singular.\<close>

fun gn_loop :: "nat \<Rightarrow> nat \<Rightarrow> observation list \<Rightarrow> real \<Rightarrow> real \<Rightarrow> real \<Rightarrow> real \<Rightarrow> (real \<times> real \<times> real \<times> nat) option" where
  "gn_loop 0 it obs alt lat lon t = Some (lat, lon, t, it)"
| "gn_loop (Suc k) it obs alt lat lon t =
     (case gn_step obs lat lon alt t of
        None \<Rightarrow> None
      | Some (s0, s1, s2) \<Rightarrow>
          let sl = clamp s0 (- 1) 1; so = clamp s1 (- 1) 1; st = clamp s2 (- (1 / 10 ^ 3)) (1 / 10 ^ 3)
          in if \<bar>sl\<bar> < 1 / 10 ^ 9 \<and> \<bar>so\<bar> < 1 / 10 ^ 9 \<and> \<bar>st\<bar> < 1 / 10 ^ 12
             then Some (lat + sl, lon + so, t + st, it + 1)
             else gn_loop k (it + 1) obs alt (lat + sl) (lon + so) (t + st))"

definition rms_of :: "real list \<Rightarrow> real" where
  "rms_of rs = sqrt (sum_list (map (\<lambda>x. x * x) rs) / of_nat (length rs))"

definition geom_m2_of :: "mat3 \<Rightarrow> real \<Rightarrow> real" where
  "geom_m2_of cov lat =
     (let ((c00, _, _), (_, c11, _), _) = cov;
          m_per_deg_lat = 111320; m_per_deg_lon = 111320 * max (cos (to_radians lat)) 0.05
      in c00 * m_per_deg_lat * m_per_deg_lat + c11 * m_per_deg_lon * m_per_deg_lon)"

definition solve :: "observation list \<Rightarrow> real \<Rightarrow> geodetic \<Rightarrow> solution option" where
  "solve obs alt init =
     (if length obs < 4 then None
      else let t_min = fold min (map t_s (tl obs)) (t_s (hd obs))
           in case gn_loop MAX_ITER 0 obs alt (lat_deg init) (lon_deg init) (t_min - 200000 / C_MPS) of
                None \<Rightarrow> None
              | Some (lat, lon, t, iters) \<Rightarrow>
                  if \<bar>lat\<bar> > 90 then None
                  else let final_resid = obs_residuals obs lat lon alt t; rms = rms_of final_resid
                       in if rms > MAX_RMS_S then None
                          else let lon = rem_euclid (lon + 540) 360 - 180;
                                   r = residuals_w obs lat lon alt t;
                                   dof = max (of_nat (length obs) - 3) 1;
                                   sigma2 = sum_list (map (\<lambda>x. x * x) r) / dof
                               in case invert3 (normal_matrix obs lat lon alt t) of
                                    None \<Rightarrow> None
                                  | Some cov \<Rightarrow>
                                      let geom_m2 = geom_m2_of cov lat
                                      in Some \<lparr>pos = \<lparr>lat_deg = lat, lon_deg = lon, alt_m = alt\<rparr>, rms_s = rms,
                                           err_est_m = sqrt \<bar>sigma2 * geom_m2\<bar>, err_geom_m = sqrt \<bar>geom_m2\<bar>,
                                           iterations = iters, t_tx = t, residuals_s = final_resid\<rparr>)"

subsection \<open>The mirror lobe\<close>

definition centroid :: "observation list \<Rightarrow> vec3" where
  "centroid obs =
     (let n = of_nat (length obs)
      in foldl (\<lambda>(x, y, z) ob. (x + ecef_x (obs_rx ob) / n, y + ecef_y (obs_rx ob) / n, z + ecef_z (obs_rx ob) / n)) (0, 0, 0) obs)"

definition scatter :: "observation list \<Rightarrow> vec3 \<Rightarrow> mat3" where
  "scatter obs c =
     (let (cx, cy, cz) = c
      in jtj_of (map (\<lambda>ob. (ecef_x (obs_rx ob) - cx, ecef_y (obs_rx ob) - cy, ecef_z (obs_rx ob) - cz)) obs))"

fun power_iter :: "nat \<Rightarrow> mat3 \<Rightarrow> vec3 \<Rightarrow> vec3 option" where
  "power_iter 0 m u = Some u"
| "power_iter (Suc k) m u =
     (let (v0, v1, v2) = mat_vec m u; norm = sqrt (v0 * v0 + v1 * v1 + v2 * v2)
      in if norm < 1 then None else power_iter k m (v0 / norm, v1 / norm, v2 / norm))"

definition reflect :: "vec3 \<Rightarrow> vec3 \<Rightarrow> ecef \<Rightarrow> ecef" where
  "reflect c u pe =
     (let (c0, c1, c2) = c; (u0, u1, u2) = u;
          d0 = ecef_x pe - c0; d1 = ecef_y pe - c1; d2 = ecef_z pe - c2;
          along = d0 * u0 + d1 * u1 + d2 * u2
      in \<lparr>ecef_x = c0 + 2 * along * u0 - d0, ecef_y = c1 + 2 * along * u1 - d1, ecef_z = c2 + 2 * along * u2 - d2\<rparr>)"

definition mirror_across_receivers :: "observation list \<Rightarrow> geodetic \<Rightarrow> geodetic option" where
  "mirror_across_receivers obs p =
     (let c = centroid obs
      in case power_iter 50 (scatter obs c) (1, 1, 1) of
           None \<Rightarrow> None
         | Some u \<Rightarrow> Some ((to_geodetic (reflect c u (to_ecef p)))\<lparr>alt_m := alt_m p\<rparr>))"

definition across_the_line :: "observation list \<Rightarrow> real \<Rightarrow> solution \<Rightarrow> solution option" where
  "across_the_line obs alt sol =
     (let expected_rms = sqrt (sum_list (map (\<lambda>ob. err_s ob * err_s ob) obs) / of_nat (length obs))
      in if length obs > 4 \<and> rms_s sol \<le> LOBE_TEST_RMS_FACTOR * expected_rms then Some sol
         else case mirror_across_receivers obs (pos sol) of
                None \<Rightarrow> None
              | Some mirror \<Rightarrow>
                  (case solve obs alt mirror of
                     None \<Rightarrow> Some sol
                   | Some other \<Rightarrow>
                       if haversine_m (pos other) (pos sol) < 3 * max (max (err_geom_m sol) (err_geom_m other)) 100
                       then Some sol
                       else let (good, bad) = (if rms_s other < rms_s sol then (other, sol) else (sol, other))
                            in if rms_s bad < LOBE_AMBIGUOUS_FACTOR * rms_s good then None else Some good))"

subsection \<open>The robust entry point\<close>

definition drop_nth :: "nat \<Rightarrow> 'a list \<Rightarrow> 'a list" where
  "drop_nth i xs = take i xs @ drop (Suc i) xs"

definition better :: "solution option \<Rightarrow> solution option \<Rightarrow> solution option" where
  "better best s =
     (case s of
        None \<Rightarrow> best
      | Some s \<Rightarrow> (case best of None \<Rightarrow> Some s | Some b \<Rightarrow> if rms_s s < rms_s b then Some s else best))"

definition solve_robust :: "observation list \<Rightarrow> real \<Rightarrow> geodetic \<Rightarrow> solution option" where
  "solve_robust obs alt init =
     (let full = Option.bind (solve obs alt init) (across_the_line obs alt);
          trigger = (case full of Some s \<Rightarrow> rms_s s > 0.5 / 10 ^ 6 | None \<Rightarrow> True)
      in if \<not> trigger \<or> length obs < 5 then full
         else foldl (\<lambda>best skip. better best (solve (drop_nth skip obs) alt init)) full [0..<length obs])"

subsection \<open>Cramer's rule\<close>

lemma solve3_Some: "solve3 a b = Some x \<Longrightarrow> mat_vec a x = b \<and> 1 / 10 ^ 30 \<le> \<bar>det3 a\<bar>"
proof -
  assume s: "solve3 a b = Some x"
  obtain a00 a01 a02 a10 a11 a12 a20 a21 a22 where a: "a = ((a00, a01, a02), (a10, a11, a12), (a20, a21, a22))"
    by (metis prod.collapse)
  obtain b0 b1 b2 where b: "b = (b0, b1, b2)"
    by (metis prod.collapse)
  define d where "d = det3 a"
  from s have d: "1 / 10 ^ 30 \<le> \<bar>d\<bar>" and x: "x = (det3 (set_col a 0 b) / d, det3 (set_col a 1 b) / d, det3 (set_col a 2 b) / d)"
    by (auto simp: solve3_def Let_def d_def split: if_splits)
  have nz: "d \<noteq> 0"
    using d by auto
  have row: "p * (u / d) + q * (v / d) + r * (w / d) = e" if "p * u + q * v + r * w = e * d" for p q r u v w e
    using that nz by (simp add: field_simps)
  have "mat_vec a x = b"
    unfolding x unfolding a b mat_vec.simps prod.inject
    by (intro conjI row; simp add: d_def a algebra_simps)
  with d show ?thesis
    by (simp add: d_def)
qed

lemma solve3_None: "solve3 a b = None \<longleftrightarrow> \<bar>det3 a\<bar> < 1 / 10 ^ 30"
  by (simp add: solve3_def Let_def)

lemma invert3_Some:
  assumes "invert3 a = Some ((c00, c01, c02), (c10, c11, c12), (c20, c21, c22))"
  shows "mat_vec a (c00, c10, c20) = (1, 0, 0) \<and> mat_vec a (c01, c11, c21) = (0, 1, 0) \<and> mat_vec a (c02, c12, c22) = (0, 0, 1)"
  using assms by (auto simp: invert3_def dest!: solve3_Some split: option.splits prod.splits)

text \<open>A product with a matrix, column by column.\<close>

lemma mat_vec_columns:
  "mat_vec a (mat_vec ((ca, cb, cc), (da, db, dc), (ea, eb, ec)) (x, y, z)) =
    (let (p0, p1, p2) = mat_vec a (ca, da, ea); (q0, q1, q2) = mat_vec a (cb, db, eb); (r0, r1, r2) = mat_vec a (cc, dc, ec)
     in (p0 * x + q0 * y + r0 * z, p1 * x + q1 * y + r1 * z, p2 * x + q2 * y + r2 * z))"
  by (cases a rule: det3.cases) (simp add: algebra_simps)

subsection \<open>The step minimises the linearised cost\<close>

definition lin_cost :: "vec3 list \<Rightarrow> real list \<Rightarrow> vec3 \<Rightarrow> real" where
  "lin_cost js rs d = sum_list (map2 (\<lambda>j r. (r + dot3 j d) ^ 2) js rs)"

lemma jtj_fold:
  "foldl add_outer ((m00, m01, m02), (m10, m11, m12), (m20, m21, m22)) js =
    ((m00 + (\<Sum>(x, y, z)\<leftarrow>js. x * x), m01 + (\<Sum>(x, y, z)\<leftarrow>js. x * y), m02 + (\<Sum>(x, y, z)\<leftarrow>js. x * z)),
     (m10 + (\<Sum>(x, y, z)\<leftarrow>js. x * y), m11 + (\<Sum>(x, y, z)\<leftarrow>js. y * y), m12 + (\<Sum>(x, y, z)\<leftarrow>js. y * z)),
     (m20 + (\<Sum>(x, y, z)\<leftarrow>js. x * z), m21 + (\<Sum>(x, y, z)\<leftarrow>js. y * z), m22 + (\<Sum>(x, y, z)\<leftarrow>js. z * z)))"
proof (induction js arbitrary: m00 m01 m02 m10 m11 m12 m20 m21 m22)
  case (Cons j js)
  obtain x y z where "j = (x, y, z)"
    by (cases j) auto
  with Cons show ?case
    by (simp add: algebra_simps)
qed simp

lemma jtr_fold:
  "length js = length rs \<Longrightarrow> foldl sub_scaled (v0, v1, v2) (zip js rs) =
    (v0 - (\<Sum>((x, y, z), r)\<leftarrow>zip js rs. x * r), v1 - (\<Sum>((x, y, z), r)\<leftarrow>zip js rs. y * r),
     v2 - (\<Sum>((x, y, z), r)\<leftarrow>zip js rs. z * r))"
proof (induction js rs arbitrary: v0 v1 v2 rule: list_induct2)
  case (Cons j js r rs)
  obtain x y z where "j = (x, y, z)"
    by (cases j) auto
  with Cons show ?case
    by (simp add: algebra_simps)
qed simp

text \<open>The cost is a quadratic form in the step: \<open>r\<cdot>r - 2 d\<cdot>jtr + d\<cdot>(jtj d)\<close>.\<close>

lemma lin_cost_quadratic:
  assumes "length js = length rs"
  shows "lin_cost js rs d = lin_cost js rs (0, 0, 0) - 2 * dot3 d (jtr_of js rs) + dot3 d (mat_vec (jtj_of js) d)"
proof -
  obtain p q s where d: "d = (p, q, s)"
    by (cases d) auto
  show ?thesis
    unfolding d lin_cost_def jtr_of_def jtj_of_def jtj_fold jtr_fold [OF assms] using assms
  proof (induction js rs rule: list_induct2)
    case (Cons j js r rs)
    obtain x y z where j: "j = (x, y, z)"
      by (cases j) auto
    show ?case
      using Cons.IH by (simp add: j power2_eq_square algebra_simps)
  qed simp
qed

lemma jtj_symmetric: "dot3 d (mat_vec (jtj_of js) e) = dot3 e (mat_vec (jtj_of js) d)"
  by (cases d; cases e) (simp add: jtj_of_def jtj_fold algebra_simps)

lemma jtj_nonneg: "0 \<le> dot3 d (mat_vec (jtj_of js) d)"
proof -
  have "dot3 d (mat_vec (jtj_of js) d) = (\<Sum>j\<leftarrow>js. (dot3 j d) ^ 2)"
  proof (cases d)
    case (fields p q s)
    show ?thesis
      unfolding fields jtj_of_def jtj_fold
    proof (induction js)
      case (Cons j js)
      then show ?case
        by (cases j) (simp add: power2_eq_square algebra_simps)
    qed simp
  qed
  moreover have "0 \<le> (\<Sum>j\<leftarrow>js. (dot3 j d) ^ 2)"
    by (rule sum_list_nonneg) auto
  ultimately show ?thesis
    by simp
qed

lemma bilinear3:
  fixes sa sb sc da db dc :: real and m :: mat3
  defines "s \<equiv> (sa, sb, sc)" and "d \<equiv> (da, db, dc)" and "h \<equiv> (da - sa, db - sb, dc - sc)"
  shows "dot3 d (mat_vec m d) = dot3 s (mat_vec m s) + dot3 s (mat_vec m h) + dot3 h (mat_vec m s) + dot3 h (mat_vec m h)"
  unfolding s_def d_def h_def by (cases m rule: det3.cases) (simp add: algebra_simps)

lemma gn_minimises:
  assumes "length js = length rs" "solve3 (jtj_of js) (jtr_of js rs) = Some s"
  shows "lin_cost js rs s \<le> lin_cost js rs d"
proof -
  have e: "mat_vec (jtj_of js) s = jtr_of js rs"
    using solve3_Some [OF assms(2)] by simp
  obtain d0 d1 d2 s0 s1 s2 where ds: "d = (d0, d1, d2)" "s = (s0, s1, s2)"
    by (metis prod.collapse)
  define h where "h = (d0 - s0, d1 - s1, d2 - s2)"
  let ?m = "mat_vec (jtj_of js)"
  have split: "dot3 d (?m d) = dot3 s (?m s) + 2 * dot3 h (?m s) + dot3 h (?m h)"
    using bilinear3 [where m = "jtj_of js" and da = d0 and db = d1 and dc = d2 and sa = s0 and sb = s1 and sc = s2] jtj_symmetric [of s js h] by (simp add: ds h_def)
  have "dot3 d v = dot3 s v + dot3 h v" for v
    by (cases v) (simp add: ds h_def algebra_simps)
  then have "lin_cost js rs d - lin_cost js rs s = dot3 h (?m h)"
    unfolding lin_cost_quadratic [OF assms(1), of d] lin_cost_quadratic [OF assms(1), of s] split e by simp
  then show ?thesis
    using jtj_nonneg [of h js] by simp
qed

subsection \<open>Facts on a returned solution\<close>

lemma length_obs_residuals [simp]: "length (obs_residuals obs lat lon alt t) = length obs"
  by (simp add: obs_residuals_def Let_def)

lemma length_residuals_w [simp]: "length (residuals_w obs lat lon alt t) = length obs"
  by (simp add: residuals_w_def)

lemma length_jacobian [simp]: "length (jacobian obs lat lon alt t) = length obs"
  by (simp add: jacobian_def Let_def)

lemma gn_loop_iterations: "gn_loop k it obs alt lat lon t = Some (lat', lon', t', n) \<Longrightarrow> it \<le> n \<and> n \<le> it + k"
  by (induction k it obs alt lat lon t rule: gn_loop.induct) (fastforce simp: Let_def split: option.splits prod.splits if_splits)+

lemma to_ecef_turns: "to_ecef \<lparr>lat_deg = lat, lon_deg = lon + 360 * of_int k, alt_m = alt\<rparr> = to_ecef \<lparr>lat_deg = lat, lon_deg = lon, alt_m = alt\<rparr>"
proof -
  have "to_radians (lon + 360 * of_int k) = to_radians lon + of_int k * (2 * pi)"
    by (simp add: to_radians_def algebra_simps)
  then have "cos (to_radians (lon + 360 * of_int k)) = cos (to_radians lon)" "sin (to_radians (lon + 360 * of_int k)) = sin (to_radians lon)"
    by (simp_all add: cos_add sin_add mult.commute [of "of_int k"])
  then show ?thesis
    by (simp add: to_ecef_def Let_def)
qed

lemma wrapped_residuals: "obs_residuals obs lat (rem_euclid (lon + 540) 360 - 180) alt t = obs_residuals obs lat lon alt t"
proof -
  have "rem_euclid (lon + 540) 360 - 180 = lon + 360 * of_int (1 - \<lfloor>(lon + 540) / 360\<rfloor>)"
    by (simp add: rem_euclid_def algebra_simps)
  then show ?thesis
    by (simp only: obs_residuals_def to_ecef_turns)
qed

definition sound_fix :: "observation list \<Rightarrow> real \<Rightarrow> solution \<Rightarrow> bool" where
  "sound_fix obs alt s \<longleftrightarrow> 4 \<le> length obs \<and> alt_m (pos s) = alt \<and> \<bar>lat_deg (pos s)\<bar> \<le> 90 \<and>
     - 180 \<le> lon_deg (pos s) \<and> lon_deg (pos s) < 180 \<and> iterations s \<le> MAX_ITER \<and>
     residuals_s s = obs_residuals obs (lat_deg (pos s)) (lon_deg (pos s)) alt (t_tx s) \<and>
     rms_s s = rms_of (residuals_s s) \<and> rms_s s \<le> MAX_RMS_S \<and> 0 \<le> err_est_m s \<and> 0 \<le> err_geom_m s"

lemma solve_sound:
  assumes "solve obs alt init = Some s"
  shows "sound_fix obs alt s"
proof -
  obtain lat lon t n t0 cov where g: "gn_loop MAX_ITER 0 obs alt (lat_deg init) (lon_deg init) t0 = Some (lat, lon, t, n)"
    and b: "4 \<le> length obs" "\<bar>lat\<bar> \<le> 90" "rms_of (obs_residuals obs lat lon alt t) \<le> MAX_RMS_S"
    and s: "pos s = \<lparr>lat_deg = lat, lon_deg = rem_euclid (lon + 540) 360 - 180, alt_m = alt\<rparr>" "iterations s = n" "t_tx s = t"
      "residuals_s s = obs_residuals obs lat lon alt t" "rms_s s = rms_of (obs_residuals obs lat lon alt t)"
      "0 \<le> err_est_m s" "0 \<le> err_geom_m s"
    using assms by (fastforce simp: solve_def Let_def split: if_splits option.splits prod.splits)
  show ?thesis
    using b s gn_loop_iterations [OF g] rem_euclid_range [of 360 "lon + 540"]
    by (simp add: sound_fix_def wrapped_residuals)
qed

lemma across_the_line_sound:
  "across_the_line obs alt sol = Some s \<Longrightarrow> s = sol \<or> (\<exists>m. mirror_across_receivers obs (pos sol) = Some m \<and> solve obs alt m = Some s \<and> rms_s s < rms_s sol)"
  by (auto simp: across_the_line_def Let_def split: if_splits option.splits)

lemma length_drop_nth: "i < length xs \<Longrightarrow> length (drop_nth i xs) = length xs - 1"
  by (auto simp: drop_nth_def)

lemma better_cases: "better best s = Some b \<Longrightarrow> s = Some b \<or> best = Some b"
  by (auto simp: better_def split: option.splits if_splits)

lemma better_keeps: "best = Some b \<Longrightarrow> \<exists>c. better best s = Some c \<and> rms_s c \<le> rms_s b"
  by (auto simp: better_def split: option.splits)

lemma robust_fold:
  assumes "foldl (\<lambda>best skip. better best (g skip)) full ks = Some s"
  shows "full = Some s \<or> (\<exists>k \<in> set ks. g k = Some s)"
  using assms
proof (induction ks rule: rev_induct)
  case (snoc k ks)
  then show ?case
    using better_cases by fastforce
qed simp

lemma robust_fold_keeps:
  "full = Some f \<Longrightarrow> \<exists>c. foldl (\<lambda>best skip. better best (g skip)) full ks = Some c \<and> rms_s c \<le> rms_s f"
proof (induction ks rule: rev_induct)
  case (snoc k ks)
  then show ?case
    using better_keeps by (metis (no_types, lifting) foldl_Cons foldl_Nil foldl_append order_trans)
qed simp

lemma robust_fold_best:
  "k \<in> set ks \<Longrightarrow> g k = Some c \<Longrightarrow> \<exists>s. foldl (\<lambda>best skip. better best (g skip)) full ks = Some s \<and> rms_s s \<le> rms_s c"
proof (induction ks rule: rev_induct)
  case (snoc j ks)
  show ?case
  proof (cases "k \<in> set ks")
    case True
    with snoc show ?thesis
      using better_keeps by (metis (no_types, lifting) foldl_Cons foldl_Nil foldl_append order_trans)
  next
    case False
    with snoc have "g j = Some c"
      by simp
    then show ?thesis
      by (auto simp: better_def split: option.split)
  qed
qed simp

lemma solve_robust_sound:
  assumes "solve_robust obs alt init = Some s"
  shows "sound_fix obs alt s \<or> (5 \<le> length obs \<and> (\<exists>k < length obs. sound_fix (drop_nth k obs) alt s))"
proof -
  define full where "full = Option.bind (solve obs alt init) (across_the_line obs alt)"
  define g where "g k = solve (drop_nth k obs) alt init" for k
  have r: "full = Some s \<or> (5 \<le> length obs \<and> foldl (\<lambda>best skip. better best (g skip)) full [0..<length obs] = Some s)"
    using assms by (auto simp: solve_robust_def full_def g_def Let_def split: if_splits)
  have fs: "sound_fix obs alt s" if "full = Some s" for s
    using that across_the_line_sound solve_sound by (fastforce simp: full_def bind_eq_Some_conv)
  have gs: "sound_fix (drop_nth k obs) alt s" if "g k = Some s" for k s
    using that solve_sound by (simp add: g_def)
  show ?thesis
    using r fs gs robust_fold [of g full "[0..<length obs]" s] by force
qed

subsection \<open>The reflection\<close>

fun on_axis :: "vec3 \<Rightarrow> vec3 \<Rightarrow> real \<Rightarrow> ecef" where
  "on_axis (ca, cb, cc) (ua, ub, uc) s = \<lparr>ecef_x = ca + s * ua, ecef_y = cb + s * ub, ecef_z = cc + s * uc\<rparr>"

lemma reflect_dist:
  assumes "dot3 u u = 1"
  shows "dist (reflect c u p) (on_axis c u s) = dist p (on_axis c u s)"
proof -
  obtain ua ub uc where u: "u = (ua, ub, uc)"
    by (cases u) auto
  obtain ca cb cc where c: "c = (ca, cb, cc)"
    by (cases c) auto
  define x y z where "x = ecef_x p - ca" and "y = ecef_y p - cb" and "z = ecef_z p - cc"
  define a where "a = x * ua + y * ub + z * uc"
  have n: "ua * ua + ub * ub + uc * uc = 1"
    using assms by (simp add: u)
  have p: "ecef_x p = ca + x" "ecef_y p = cb + y" "ecef_z p = cc + z"
    by (simp_all add: x_def y_def z_def)
  have "(2 * a * ua - x - s * ua) ^ 2 + (2 * a * ub - y - s * ub) ^ 2 + (2 * a * uc - z - s * uc) ^ 2
      = (x - s * ua) ^ 2 + (y - s * ub) ^ 2 + (z - s * uc) ^ 2"
    using n a_def by algebra
  then show ?thesis
    by (simp add: dist_def reflect_def u c p Let_def a_def algebra_simps)
qed

lemma reflect_reflect:
  assumes "dot3 u u = 1"
  shows "reflect c u (reflect c u p) = p"
proof -
  obtain ua ub uc where u: "u = (ua, ub, uc)"
    by (cases u) auto
  obtain ca cb cc where c: "c = (ca, cb, cc)"
    by (cases c) auto
  have n: "ua * ua + ub * ub + uc * uc = 1"
    using assms by (simp add: u)
  define x y z where "x = ecef_x p - ca" and "y = ecef_y p - cb" and "z = ecef_z p - cc"
  define a where "a = x * ua + y * ub + z * uc"
  define x' y' z' where "x' = 2 * a * ua - x" and "y' = 2 * a * ub - y" and "z' = 2 * a * uc - z"
  have p: "p = \<lparr>ecef_x = ca + x, ecef_y = cb + y, ecef_z = cc + z\<rparr>"
    by (simp add: x_def y_def z_def)
  have 1: "reflect c u p = \<lparr>ecef_x = ca + x', ecef_y = cb + y', ecef_z = cc + z'\<rparr>"
    by (simp add: p reflect_def u c Let_def x'_def y'_def z'_def a_def)
  have 2: "x' * ua + y' * ub + z' * uc = a"
    using n a_def unfolding x'_def y'_def z'_def by algebra
  show ?thesis
    unfolding 1 unfolding reflect_def u c Let_def prod.case ecef.simps p add_diff_cancel_left' 2
    by (simp add: x'_def y'_def z'_def)
qed

lemma power_iter_unit: "0 < k \<Longrightarrow> power_iter k m v = Some u \<Longrightarrow> dot3 u u = 1"
proof (induction k m v rule: power_iter.induct)
  case (2 k m v)
  obtain a b c where abc: "mat_vec m v = (a, b, c)"
    by (cases "mat_vec m v") auto
  define r where "r = sqrt (a * a + b * b + c * c)"
  have r: "\<not> r < 1" "power_iter k m (a / r, b / r, c / r) = Some u"
    using 2(3) by (auto simp: abc r_def Let_def split: if_splits)
  show ?case
  proof (cases k)
    case 0
    have "r * r = a * a + b * b + c * c"
      by (simp add: r_def)
    moreover have "a / r * (a / r) + b / r * (b / r) + c / r * (c / r) = (a * a + b * b + c * c) / (r * r)"
      by (simp add: add_divide_distrib)
    moreover have "r * r \<noteq> 0"
      using r(1) by auto
    ultimately show ?thesis
      using r(2) 0 by auto
  next
    case (Suc j)
    with 2(1) r show ?thesis
      by (simp add: abc r_def Let_def)
  qed
qed simp

subsection \<open>Properties\<close>

text \<open>
  C33. Every fix the solver returns is sound: it comes from at least four observations, its
  latitude is within 90 degrees, its longitude in [-180, 180) however far the iteration
  ran, its altitude is the given one, at most fifteen iterations were made, and the
  residuals it reports are those of the returned position and transmit time, with an RMS
  of at most three microseconds.
\<close>

theorem solve_result_sound: "pred_option (sound_fix obs alt) (solve obs alt init)"
  by (cases "solve obs alt init") (simp_all add: solve_sound)

text \<open>
  C34. The Gauss-Newton step is optimal: whenever the step exists it minimises the sum of
  squares of the linearised weighted residuals over all steps; it fails to exist only when
  the determinant of the normal matrix is below the threshold.
\<close>

theorem gn_step_optimal:
  "case gn_step obs lat lon alt t of
     None \<Rightarrow> \<bar>det3 (normal_matrix obs lat lon alt t)\<bar> < 1 / 10 ^ 30
   | Some s \<Rightarrow> lin_cost (jacobian obs lat lon alt t) (residuals_w obs lat lon alt t) s
       \<le> lin_cost (jacobian obs lat lon alt t) (residuals_w obs lat lon alt t) d"
proof (cases "gn_step obs lat lon alt t")
  case None
  then show ?thesis
    using solve3_None [of "normal_matrix obs lat lon alt t"]
    by (simp only: option.case) (simp only: gn_step_def normal_matrix_def Let_def)
next
  case (Some s)
  then show ?thesis
    by (simp add: gn_step_def Let_def gn_minimises)
qed

text \<open>
  Cramer's rule is right: the 3x3 solver returns a solution of the system and the
  inverse is a right inverse, and each refuses exactly a determinant below the threshold.
\<close>

theorem linear_solver_correct:
  "(case solve3 a b of None \<Rightarrow> \<bar>det3 a\<bar> < 1 / 10 ^ 30 | Some x \<Rightarrow> mat_vec a x = b) \<and>
   (case invert3 a of None \<Rightarrow> \<bar>det3 a\<bar> < 1 / 10 ^ 30 | Some c \<Rightarrow> mat_vec a (mat_vec c v) = v)"
proof
  show "case solve3 a b of None \<Rightarrow> \<bar>det3 a\<bar> < 1 / 10 ^ 30 | Some x \<Rightarrow> mat_vec a x = b"
    using solve3_Some solve3_None by (auto split: option.split)
  show "case invert3 a of None \<Rightarrow> \<bar>det3 a\<bar> < 1 / 10 ^ 30 | Some c \<Rightarrow> mat_vec a (mat_vec c v) = v"
  proof (cases "invert3 a")
    case None
    then show ?thesis
      by (auto simp: invert3_def solve3_None split: option.splits)
  next
    case (Some c)
    obtain c00 c01 c02 c10 c11 c12 c20 c21 c22 where c: "c = ((c00, c01, c02), (c10, c11, c12), (c20, c21, c22))"
      by (metis prod.collapse)
    note I = invert3_Some [OF Some [unfolded c]]
    have "mat_vec a (mat_vec c (x, y, z)) = (x, y, z)" for x y z
      using I mat_vec_columns [of a c00 c01 c02 c10 c11 c12 c20 c21 c22 x y z] by (simp add: c)
    then show ?thesis
      using Some by (cases v) simp
  qed
qed

text \<open>
  C35. The robust solve is at least as good as the plain one: it returns a sound fix over
  all observations, or over all but one of at least five; when the full solve with its lobe
  test gives a fix, the answer is a fix with no larger RMS; and with fewer than five
  observations it is exactly the full solve.
\<close>

theorem solve_robust_improves:
  "(case solve_robust obs alt init of None \<Rightarrow> True
    | Some s \<Rightarrow> sound_fix obs alt s \<or> (5 \<le> length obs \<and> (\<exists>k < length obs. sound_fix (drop_nth k obs) alt s))) \<and>
   (case Option.bind (solve obs alt init) (across_the_line obs alt) of
      None \<Rightarrow> 5 \<le> length obs \<or> solve_robust obs alt init = None
    | Some f \<Rightarrow> \<exists>s. solve_robust obs alt init = Some s \<and> rms_s s \<le> rms_s f \<and> (5 \<le> length obs \<or> s = f))"
proof -
  define full where "full = Option.bind (solve obs alt init) (across_the_line obs alt)"
  define g where "g k = solve (drop_nth k obs) alt init" for k
  have r: "solve_robust obs alt init = full \<or> (5 \<le> length obs \<and>
      solve_robust obs alt init = foldl (\<lambda>best skip. better best (g skip)) full [0..<length obs])"
    by (simp add: solve_robust_def full_def g_def Let_def split: option.split)
  have "case solve_robust obs alt init of None \<Rightarrow> True
    | Some s \<Rightarrow> sound_fix obs alt s \<or> (5 \<le> length obs \<and> (\<exists>k < length obs. sound_fix (drop_nth k obs) alt s))"
    using solve_robust_sound by (auto split: option.split)
  moreover have "case full of None \<Rightarrow> 5 \<le> length obs \<or> solve_robust obs alt init = None
    | Some f \<Rightarrow> \<exists>s. solve_robust obs alt init = Some s \<and> rms_s s \<le> rms_s f \<and> (5 \<le> length obs \<or> s = f)"
    using r robust_fold_keeps [of full _ g "[0..<length obs]"] by (fastforce split: option.split)
  ultimately show ?thesis
    by (simp add: full_def)
qed

text \<open>
  The mirror lobe: the axis the power iteration finds is a unit vector, so the point
  reflected across it has exactly the same distance to every point of the axis, and
  reflecting twice gives the point back. Receivers on one line hear both at the same
  times: timing alone cannot tell the two lobes apart.
\<close>

theorem mirror_lobe_equidistant:
  assumes "power_iter 50 m v = Some u"
  shows "dist (reflect c u p) (on_axis c u s) = dist p (on_axis c u s) \<and> reflect c u (reflect c u p) = p"
proof -
  have "dot3 u u = 1"
    by (rule power_iter_unit [OF _ assms]) simp
  then show ?thesis
    using reflect_dist reflect_reflect by simp
qed

lemma power_iter_axis: "1 \<le> l \<Longrightarrow> power_iter k ((l, 0, 0), (0, 0, 0), (0, 0, 0)) (1, 0, 0) = Some (1, 0, 0)"
proof (induction k)
  case (Suc k)
  then have "\<not> l * l < 1"
    using mult_mono [of 1 l 1 l] by simp
  with Suc show ?case
    by (simp add: Let_def)
qed simp

theorem mirror_lobe_equidistant_witness:
  "reflect (0, 0, 0) (1, 0, 0) \<lparr>ecef_x = 5, ecef_y = 6, ecef_z = 0\<rparr> = \<lparr>ecef_x = 5, ecef_y = - 6, ecef_z = 0\<rparr> \<and>
   dist \<lparr>ecef_x = 5, ecef_y = - 6, ecef_z = 0\<rparr> \<lparr>ecef_x = 9, ecef_y = 0, ecef_z = 0\<rparr>
     = dist \<lparr>ecef_x = 5, ecef_y = 6, ecef_z = 0\<rparr> \<lparr>ecef_x = 9, ecef_y = 0, ecef_z = 0\<rparr>"
proof -
  have "power_iter 50 ((4, 0, 0), (0, 0, 0), (0, 0, 0)) (1, 0, 0) = Some (1, 0, 0)"
    by (rule power_iter_axis) simp
  from mirror_lobe_equidistant [OF this, of "(0, 0, 0)" "\<lparr>ecef_x = 5, ecef_y = 6, ecef_z = 0\<rparr>" 9] show ?thesis
    by (simp add: reflect_def)
qed

end
