(* ===== verification/State.thy ===== *)
theory State
  imports Geo Clocksync Track Solve
begin

text \<open>
  The per-shard state of \<^verbatim>\<open>crates/mlatd/src/state.rs\<close>: its records, the receiver slots
  with their generations, and the operations that hand slots out and take them back. A
  \<open>Vec\<close> is a list (pushed and popped at its end), a \<open>HashMap\<close> a map. \<open>Instant\<close> values are
  seconds on a monotonic clock; the clock is an argument \<open>now\<close> of the operations that
  read it. The output channel is a list of the messages offered to it.
\<close>

unbundle bit_operations_syntax

subsection \<open>Data\<close>

record receiver_info =
  user :: string
  uid :: nat
  uuid :: "string option"
  privacy :: bool
  connection_info :: string
  source_ip :: string
  source_port :: nat
  geo :: geodetic
  rx_ecef :: ecef
  freq_hz :: real
  gps :: bool
  jitter_s :: real
  last_read :: real

definition CONNECTION_LIVE_S :: real where "CONNECTION_LIVE_S = 150"

record rx_ref =
  rr_idx :: nat
  rr_gen :: u32

record ac_track =
  last_pos :: "geodetic option"
  last_time_scaled :: real
  last_attempt_scaled :: real
  last_gated_attempt_scaled :: real
  speed_rejects :: nat

record sync_point =
  sp_created :: real
  reporters :: "(nat \<times> real \<times> real) list"

record rx_group =
  g_created :: real
  g_icao :: icao
  g_df17 :: bool
  g_entries :: "(nat \<times> real \<times> real) list"

record rx_bias_rec =
  bias_s :: real
  mad_s :: real
  rb_n :: nat

definition QUARANTINE_MAD_S :: real where "QUARANTINE_MAD_S = 1.5 / 10 ^ 6"
definition QUARANTINE_MIN_N :: nat where "QUARANTINE_MIN_N = 30"
definition AC_EXPIRE_S :: real where "AC_EXPIRE_S = 300"
definition EXPIRE_EVERY_S :: real where "EXPIRE_EVERY_S = 10"
definition INTEREST_S :: real where "INTEREST_S = 60"
definition RESULT_RANGE_M :: real where "RESULT_RANGE_M = 600000"

record rx_log_rec =
  msgs :: nat
  rl_sync :: "icao \<rightharpoonup> real"
  rl_mlat :: "icao \<rightharpoonup> real"
  map_pos :: "(real \<times> real) option"

record fix_rec =
  fx_t :: real
  fx_pos :: geodetic
  fx_err_m :: real

record ac_log_rec =
  seen :: real
  sync_good :: real
  sync_bad :: real
  mlat_msgs :: nat
  results :: nat
  al_fixes :: "fix_rec list"
  al_rx_mlat :: "nat \<rightharpoonup> real"
  al_rx_sync :: "nat \<rightharpoonup> real"

record prediction =
  pr_pos :: geodetic
  reach_m :: real
  sigma_m :: real

definition FIT_WINDOW_S :: real where "FIT_WINDOW_S = 10"
definition FIT_MIN_SPAN_S :: real where "FIT_MIN_SPAN_S = 2"
definition MAX_SPEED_MPS :: real where "MAX_SPEED_MPS = 400"
definition MAX_ACCEL_MPS2 :: real where "MAX_ACCEL_MPS2 = 15"
definition TRACK_STALE_S :: real where "TRACK_STALE_S = 30"

definition fix_err_m :: "solution \<Rightarrow> real" where
  "fix_err_m sol = max (err_est_m sol) (err_geom_m sol)"

text \<open>
  What a shard sends to the output task. A fix row carries the values its text lines are
  formatted from instead of the formatted lines.
\<close>

record out_row =
  or_shard :: nat
  or_lat :: real
  or_lon :: real
  or_icao :: icao
  or_stamp :: real
  or_alt_ft :: int
  or_err_m :: real
  or_nstations :: nat
  or_users :: "string list"
  or_filtered :: "geodetic option"
  or_recipients :: "nat list"

datatype out_msg =
    OutFix out_row
  | SelfTruth real icao real real nat

record state =
  shard_id :: nat
  out :: "out_msg list option"
  adsb_pos :: "icao \<rightharpoonup> geodetic \<times> real"
  mlat_adsb :: bool
  stamp_offset :: "nat \<rightharpoonup> real"
  rx_bias :: "rx_bias_rec list"
  rx_sync :: "(real \<times> real) list"
  rx_log :: "rx_log_rec list"
  ac_log :: "icao \<rightharpoonup> ac_log_rec"
  st_receivers :: "receiver_info list"
  gens :: "u32 list"
  alive :: "bool list"
  free_slots :: "nat list"
  by_user :: "string \<rightharpoonup> nat"
  reference :: "nat option"
  pairs :: "nat \<times> nat \<rightharpoonup> pair_model"
  syncpoints :: "string \<times> string \<rightharpoonup> sync_point"
  groups :: "string \<rightharpoonup> rx_group"
  alts_ft :: "icao \<rightharpoonup> int"
  tracks :: "icao \<rightharpoonup> ac_track"
  filters :: "icao \<rightharpoonup> track_filter"
  emit_filtered :: bool
  t0_real :: real
  t0_unix :: real
  time_scale :: real
  last_expire :: real
  stats_solved :: nat
  stats_rejected :: nat
  stats_sync_obs :: nat

definition track_default :: ac_track where
  "track_default = \<lparr>last_pos = None, last_time_scaled = 0, last_attempt_scaled = 0, last_gated_attempt_scaled = 0, speed_rejects = 0\<rparr>"

definition bias_default :: rx_bias_rec where
  "bias_default = \<lparr>bias_s = 0, mad_s = 0, rb_n = 0\<rparr>"

definition ac_log_default :: ac_log_rec where
  "ac_log_default = \<lparr>seen = 0, sync_good = 0, sync_bad = 0, mlat_msgs = 0, results = 0, al_fixes = [], al_rx_mlat = Map.empty, al_rx_sync = Map.empty\<rparr>"

definition state_new :: "nat \<Rightarrow> real \<Rightarrow> bool \<Rightarrow> bool \<Rightarrow> real \<times> real \<Rightarrow> real \<Rightarrow> state" where
  "state_new sid scale adsb filtered epoch now =
     \<lparr>shard_id = sid, out = None, adsb_pos = Map.empty, mlat_adsb = adsb, stamp_offset = Map.empty, rx_bias = [],
      rx_sync = [], rx_log = [], ac_log = Map.empty, st_receivers = [], gens = [], alive = [], free_slots = [],
      by_user = Map.empty, reference = None, pairs = Map.empty, syncpoints = Map.empty, groups = Map.empty,
      alts_ft = Map.empty, tracks = Map.empty, filters = Map.empty, emit_filtered = filtered, t0_real = snd epoch,
      t0_unix = fst epoch, time_scale = scale, last_expire = now, stats_solved = 0, stats_rejected = 0, stats_sync_obs = 0\<rparr>"

definition set_output :: "state \<Rightarrow> state" where
  "set_output s = s\<lparr>out := Some []\<rparr>"

definition emit :: "out_msg \<Rightarrow> state \<Rightarrow> state" where
  "emit m s = s\<lparr>out := map_option (\<lambda>ms. ms @ [m]) (out s)\<rparr>"

definition scaled_now :: "state \<Rightarrow> real \<Rightarrow> real" where
  "scaled_now s now = t0_unix s + (now - t0_real s) * time_scale s"

subsection \<open>The map position\<close>

definition fnv1a :: "string \<Rightarrow> u64" where
  "fnv1a bs = foldl (\<lambda>h b. (h XOR of_nat (of_char b)) * 0x00000100000001b3) 0xcbf29ce484222325 bs"

definition hash_unit :: "u64 \<Rightarrow> real" where
  "hash_unit x = of_nat (unat x mod 10000) / 10000"

definition snap :: "real \<Rightarrow> real \<Rightarrow> real" where
  "snap v off = (of_int (round_real (v * 20)) / 20 + off) * 100"

definition map_position :: "receiver_info \<Rightarrow> (real \<times> real) option" where
  "map_position info =
     (if privacy info then None
      else let h = fnv1a (user info);
               off_x = - (1 / 20) + hash_unit h / 20; off_y = - (1 / 20) + hash_unit (drop_bit 20 h) / 20
           in Some (of_int (round_real (snap (lat_deg (geo info)) off_x)) / 100,
                    of_int (round_real (snap (lon_deg (geo info)) off_y)) / 100))"

subsection \<open>Slots\<close>

definition live :: "state \<Rightarrow> rx_ref \<Rightarrow> bool" where
  "live s r \<longleftrightarrow> rr_idx r < length (st_receivers s) \<and> alive s ! rr_idx r \<and> gens s ! rr_idx r = rr_gen r"

definition forget_pending :: "nat \<Rightarrow> state \<Rightarrow> state" where
  "forget_pending rx s =
     s\<lparr>syncpoints := (\<lambda>k. map_option (\<lambda>sp. sp\<lparr>reporters := filter (\<lambda>r. fst r \<noteq> rx) (reporters sp)\<rparr>) (syncpoints s k)),
       groups := (\<lambda>k. map_option (\<lambda>g. g\<lparr>g_entries := filter (\<lambda>e. fst e \<noteq> rx) (g_entries g)\<rparr>) (groups s k))\<rparr>"

definition drop_pairs :: "nat \<Rightarrow> state \<Rightarrow> state" where
  "drop_pairs rx s = s\<lparr>pairs := retain (\<lambda>(a, b) _. a \<noteq> rx \<and> b \<noteq> rx) (pairs s)\<rparr>"

definition remove_receiver :: "state \<Rightarrow> rx_ref \<Rightarrow> state" where
  "remove_receiver s r =
     (if \<not> live s r then s
      else let rx = rr_idx r;
               s = s\<lparr>alive := (alive s)[rx := False]\<rparr>;
               s = forget_pending rx (drop_pairs rx s);
               s = s\<lparr>ac_log := (\<lambda>k. map_option (\<lambda>a. a\<lparr>al_rx_mlat := (al_rx_mlat a)(rx := None), al_rx_sync := (al_rx_sync a)(rx := None)\<rparr>) (ac_log s k))\<rparr>;
               s = s\<lparr>rx_log := (rx_log s)[rx := (rx_log s ! rx)\<lparr>rl_sync := Map.empty, rl_mlat := Map.empty\<rparr>]\<rparr>;
               s = s\<lparr>stamp_offset := (stamp_offset s)(rx := None)\<rparr>;
               u = user (st_receivers s ! rx);
               s = (if by_user s u = Some rx then s\<lparr>by_user := (by_user s)(u := None)\<rparr> else s)
           in s\<lparr>free_slots := free_slots s @ [rx]\<rparr>)"

definition clock_reset :: "state \<Rightarrow> rx_ref \<Rightarrow> state" where
  "clock_reset s r = (if \<not> live s r then s else forget_pending (rr_idx r) (drop_pairs (rr_idx r) s))"

text \<open>The connection in a slot is live: occupied, and heard within the limit on the output clock.\<close>

definition conn_live :: "state \<Rightarrow> real \<Rightarrow> nat \<Rightarrow> bool" where
  "conn_live s now i \<longleftrightarrow>
     alive s ! i \<and> scaled_now s now - last_read (st_receivers s ! i) < CONNECTION_LIVE_S * time_scale s"

definition is_alnum :: "char \<Rightarrow> bool" where
  "is_alnum c = (let n = of_char c :: nat in (48 \<le> n \<and> n \<le> 57) \<or> (65 \<le> n \<and> n \<le> 90) \<or> (97 \<le> n \<and> n \<le> 122))"

definition slot_ref :: "state \<Rightarrow> nat \<Rightarrow> rx_ref" where
  "slot_ref s i = \<lparr>rr_idx = i, rr_gen = gens s ! i\<rparr>"

text \<open>Who the newcomer is: its final name, and the state with the slot it replaces freed; \<open>None\<close> refuses it.\<close>

definition claim_user :: "state \<Rightarrow> real \<Rightarrow> receiver_info \<Rightarrow> (receiver_info \<times> state) option" where
  "claim_user s now info =
     (case by_user s (user info) of
        None \<Rightarrow> Some (info, s)
      | Some old \<Rightarrow>
          let same_feeder = (case (uuid (st_receivers s ! old), uuid info) of (Some a, Some b) \<Rightarrow> a = b | _ \<Rightarrow> False)
          in if \<not> same_feeder \<and> conn_live s now old
             then (case uuid info of
                     None \<Rightarrow> None
                   | Some u \<Rightarrow>
                       if u = [] then None
                       else let tag = take 8 (filter is_alnum u)
                            in if tag = [] then None
                               else let alias = user info @ ''-'' @ tag
                                    in case by_user s alias of
                                         None \<Rightarrow> Some (info\<lparr>user := alias\<rparr>, s)
                                       | Some held \<Rightarrow>
                                           if uuid (st_receivers s ! held) \<noteq> Some u \<and> conn_live s now held then None
                                           else Some (info\<lparr>user := alias\<rparr>, remove_receiver s (slot_ref s held)))
             else Some (info, remove_receiver s (slot_ref s old)))"

definition occupy :: "state \<Rightarrow> receiver_info \<Rightarrow> nat \<times> state" where
  "occupy s info =
     (let log = \<lparr>msgs = 0, rl_sync = Map.empty, rl_mlat = Map.empty, map_pos = map_position info\<rparr>
      in if free_slots s \<noteq> []
         then let i = last (free_slots s)
              in (i, s\<lparr>free_slots := butlast (free_slots s), st_receivers := (st_receivers s)[i := info],
                     rx_bias := (rx_bias s)[i := bias_default], rx_sync := (rx_sync s)[i := (0, 0)],
                     rx_log := (rx_log s)[i := log], gens := (gens s)[i := gens s ! i + 1], alive := (alive s)[i := True]\<rparr>)
         else (length (st_receivers s),
               s\<lparr>st_receivers := st_receivers s @ [info], rx_bias := rx_bias s @ [bias_default], rx_sync := rx_sync s @ [(0, 0)],
                 rx_log := rx_log s @ [log], gens := gens s @ [0], alive := alive s @ [True]\<rparr>))"

definition elect_reference :: "state \<Rightarrow> nat \<Rightarrow> bool \<Rightarrow> state" where
  "elect_reference s idx is_gps =
     (case reference s of
        None \<Rightarrow> s\<lparr>reference := Some idx\<rparr>
      | Some r \<Rightarrow> if is_gps \<and> \<not> gps (st_receivers s ! r) then s\<lparr>reference := Some idx\<rparr> else s)"

definition add_receiver :: "state \<Rightarrow> real \<Rightarrow> receiver_info \<Rightarrow> rx_ref option \<times> state" where
  "add_receiver s now info =
     (case claim_user s now info of
        None \<Rightarrow> (None, s)
      | Some (info, s) \<Rightarrow>
          let (idx, s) = occupy s info;
              s = s\<lparr>by_user := (by_user s)(user info \<mapsto> idx)\<rparr>;
              s = elect_reference s idx (gps info)
          in (Some (slot_ref s idx), s))"

definition live_receivers :: "state \<Rightarrow> nat" where
  "live_receivers s = length (filter id (alive s))"

text \<open>The connection stores the time of its last read where the state can see it.\<close>

definition note_read :: "state \<Rightarrow> rx_ref \<Rightarrow> real \<Rightarrow> state" where
  "note_read s r at_t =
     (if live s r then s\<lparr>st_receivers := (st_receivers s)[rr_idx r := (st_receivers s ! rr_idx r)\<lparr>last_read := at_t\<rparr>]\<rparr> else s)"

subsection \<open>The slot invariant\<close>

text \<open>
  All per-slot vectors have one length; the free list holds exactly the empty slots, each
  once; the name index and the occupied slots agree both ways, so no two occupied slots
  share a name.
\<close>

definition slots_ok :: "state \<Rightarrow> bool" where
  "slots_ok s \<longleftrightarrow>
     (let n = length (st_receivers s)
      in length (rx_bias s) = n \<and> length (rx_sync s) = n \<and> length (rx_log s) = n \<and> length (gens s) = n \<and> length (alive s) = n \<and>
         distinct (free_slots s) \<and> set (free_slots s) = {i. i < n \<and> \<not> alive s ! i} \<and>
         (\<forall>u i. by_user s u = Some i \<longleftrightarrow> i < n \<and> alive s ! i \<and> user (st_receivers s ! i) = u) \<and>
         (\<forall>r. reference s = Some r \<longrightarrow> r < n))"

text \<open>Everything that names a receiver slot in flight names an occupied one.\<close>

definition refs_ok :: "state \<Rightarrow> bool" where
  "refs_ok s \<longleftrightarrow>
     (let occ = (\<lambda>i. i < length (st_receivers s) \<and> alive s ! i)
      in (\<forall>a b. (a, b) \<in> dom (pairs s) \<longrightarrow> a \<noteq> b \<and> occ a \<and> occ b) \<and>
         (\<forall>sp \<in> ran (syncpoints s). \<forall>r \<in> set (reporters sp). occ (fst r)) \<and>
         (\<forall>g \<in> ran (groups s). \<forall>e \<in> set (g_entries g). occ (fst e)) \<and>
         (\<forall>a \<in> ran (ac_log s). \<forall>i \<in> dom (al_rx_mlat a) \<union> dom (al_rx_sync a). occ i) \<and>
         (\<forall>i \<in> dom (stamp_offset s). occ i))"

definition state_ok :: "state \<Rightarrow> bool" where
  "state_ok s \<longleftrightarrow> slots_ok s \<and> refs_ok s"

lemma slots_okD:
  assumes "slots_ok s"
  shows "length (rx_bias s) = length (st_receivers s)" "length (rx_sync s) = length (st_receivers s)"
    "length (rx_log s) = length (st_receivers s)" "length (gens s) = length (st_receivers s)"
    "length (alive s) = length (st_receivers s)" "distinct (free_slots s)"
    "set (free_slots s) = {i. i < length (st_receivers s) \<and> \<not> alive s ! i}"
    "\<And>u i. by_user s u = Some i \<longleftrightarrow> i < length (st_receivers s) \<and> alive s ! i \<and> user (st_receivers s ! i) = u"
    "\<And>r. reference s = Some r \<Longrightarrow> r < length (st_receivers s)"
  using assms unfolding slots_ok_def Let_def by blast+

lemma refs_okD:
  assumes "refs_ok s"
  shows "\<And>a b m. pairs s (a, b) = Some m \<Longrightarrow> a \<noteq> b \<and> a < length (st_receivers s) \<and> alive s ! a \<and> b < length (st_receivers s) \<and> alive s ! b"
    "\<And>k sp r. syncpoints s k = Some sp \<Longrightarrow> r \<in> set (reporters sp) \<Longrightarrow> fst r < length (st_receivers s) \<and> alive s ! fst r"
    "\<And>k g e. groups s k = Some g \<Longrightarrow> e \<in> set (g_entries g) \<Longrightarrow> fst e < length (st_receivers s) \<and> alive s ! fst e"
    "\<And>k a i t. ac_log s k = Some a \<Longrightarrow> al_rx_mlat a i = Some t \<or> al_rx_sync a i = Some t \<Longrightarrow> i < length (st_receivers s) \<and> alive s ! i"
    "\<And>i t. stamp_offset s i = Some t \<Longrightarrow> i < length (st_receivers s) \<and> alive s ! i"
  using assms unfolding refs_ok_def Let_def ran_def by blast+

lemma refs_okI:
  assumes "\<And>a b m. pairs s (a, b) = Some m \<Longrightarrow> a \<noteq> b \<and> a < length (st_receivers s) \<and> alive s ! a \<and> b < length (st_receivers s) \<and> alive s ! b"
    "\<And>k sp r. syncpoints s k = Some sp \<Longrightarrow> r \<in> set (reporters sp) \<Longrightarrow> fst r < length (st_receivers s) \<and> alive s ! fst r"
    "\<And>k g e. groups s k = Some g \<Longrightarrow> e \<in> set (g_entries g) \<Longrightarrow> fst e < length (st_receivers s) \<and> alive s ! fst e"
    "\<And>k a i t. ac_log s k = Some a \<Longrightarrow> al_rx_mlat a i = Some t \<or> al_rx_sync a i = Some t \<Longrightarrow> i < length (st_receivers s) \<and> alive s ! i"
    "\<And>i t. stamp_offset s i = Some t \<Longrightarrow> i < length (st_receivers s) \<and> alive s ! i"
  shows "refs_ok s"
  using assms unfolding refs_ok_def Let_def ran_def by blast

lemma state_okD: "state_ok s \<Longrightarrow> slots_ok s" "state_ok s \<Longrightarrow> refs_ok s"
  by (simp_all add: state_ok_def)

text \<open>Operations that leave the slots alone.\<close>

definition same_slots :: "state \<Rightarrow> state \<Rightarrow> bool" where
  "same_slots s s' \<longleftrightarrow> st_receivers s' = st_receivers s \<and> gens s' = gens s \<and> alive s' = alive s \<and> free_slots s' = free_slots s \<and>
     by_user s' = by_user s \<and> reference s' = reference s \<and>
     length (rx_bias s') = length (rx_bias s) \<and> length (rx_sync s') = length (rx_sync s) \<and> length (rx_log s') = length (rx_log s)"

lemma same_slots_refl [simp]: "same_slots s s"
  by (simp add: same_slots_def)

lemma same_slots_trans: "same_slots s s' \<Longrightarrow> same_slots s' s'' \<Longrightarrow> same_slots s s''"
  by (simp add: same_slots_def)

lemma same_slots_ok: "same_slots s s' \<Longrightarrow> slots_ok s \<Longrightarrow> slots_ok s'"
  by (simp add: same_slots_def slots_ok_def)

lemma same_slots_live: "same_slots s s' \<Longrightarrow> live s' r \<longleftrightarrow> live s r"
  by (simp add: same_slots_def live_def)

subsection \<open>Freeing a slot\<close>

lemma remove_slots:
  assumes "live s r"
  shows "st_receivers (remove_receiver s r) = st_receivers s" "gens (remove_receiver s r) = gens s"
    "alive (remove_receiver s r) = (alive s)[rr_idx r := False]" "free_slots (remove_receiver s r) = free_slots s @ [rr_idx r]"
    "by_user (remove_receiver s r) = (if by_user s (user (st_receivers s ! rr_idx r)) = Some (rr_idx r)
       then (by_user s)(user (st_receivers s ! rr_idx r) := None) else by_user s)"
    "reference (remove_receiver s r) = reference s" "rx_bias (remove_receiver s r) = rx_bias s" "rx_sync (remove_receiver s r) = rx_sync s"
    "length (rx_log (remove_receiver s r)) = length (rx_log s)"
  using assms by (simp_all add: remove_receiver_def forget_pending_def drop_pairs_def Let_def)

lemma remove_refs:
  assumes "live s r"
  shows "pairs (remove_receiver s r) = retain (\<lambda>(a, b) _. a \<noteq> rr_idx r \<and> b \<noteq> rr_idx r) (pairs s)"
    "syncpoints (remove_receiver s r) = (\<lambda>k. map_option (\<lambda>sp. sp\<lparr>reporters := filter (\<lambda>x. fst x \<noteq> rr_idx r) (reporters sp)\<rparr>) (syncpoints s k))"
    "groups (remove_receiver s r) = (\<lambda>k. map_option (\<lambda>g. g\<lparr>g_entries := filter (\<lambda>e. fst e \<noteq> rr_idx r) (g_entries g)\<rparr>) (groups s k))"
    "ac_log (remove_receiver s r) = (\<lambda>k. map_option (\<lambda>a. a\<lparr>al_rx_mlat := (al_rx_mlat a)(rr_idx r := None), al_rx_sync := (al_rx_sync a)(rr_idx r := None)\<rparr>) (ac_log s k))"
    "stamp_offset (remove_receiver s r) = (stamp_offset s)(rr_idx r := None)"
  using assms by (simp_all add: remove_receiver_def forget_pending_def drop_pairs_def Let_def)

lemma slots_ok_remove:
  assumes ok: "slots_ok s"
  shows "slots_ok (remove_receiver s r)"
proof (cases "live s r")
  case True
  then have i: "rr_idx r < length (st_receivers s)" "alive s ! rr_idx r"
    by (simp_all add: live_def)
  note D = slots_okD [OF ok]
  have bu: "by_user s (user (st_receivers s ! rr_idx r)) = Some (rr_idx r)"
    using D(8) i by simp
  have idx: "((by_user s)(user (st_receivers s ! rr_idx r) := None)) u = Some j \<longleftrightarrow>
      j < length (st_receivers s) \<and> (alive s)[rr_idx r := False] ! j \<and> user (st_receivers s ! j) = u" for u j
    using D(5,8) i bu by (cases "j = rr_idx r") (auto simp: nth_list_update; metis option.inject)+
  have fl: "distinct (free_slots s @ [rr_idx r])"
      "set (free_slots s @ [rr_idx r]) = {j. j < length (st_receivers s) \<and> \<not> (alive s)[rr_idx r := False] ! j}"
    using D(5,6,7) i by (auto simp: nth_list_update)
  show ?thesis
    unfolding slots_ok_def Let_def remove_slots [OF True] if_P [OF bu]
    using D(1-5,9) fl idx by simp
next
  case False
  then show ?thesis
    using ok by (simp add: remove_receiver_def)
qed

lemma refs_ok_remove:
  assumes ok: "slots_ok s" and refs: "refs_ok s"
  shows "refs_ok (remove_receiver s r)"
proof (cases "live s r")
  case True
  then have i: "rr_idx r < length (alive s)"
    using slots_okD(5) [OF ok] by (simp add: live_def)
  note R = refs_okD [OF refs]
  show ?thesis
    by (rule refs_okI; simp add: remove_slots [OF True] remove_refs [OF True] split: if_splits)
      (auto simp: nth_list_update split: if_splits dest: R)
next
  case False
  then show ?thesis
    using refs by (simp add: remove_receiver_def)
qed

lemma state_ok_remove: "state_ok s \<Longrightarrow> state_ok (remove_receiver s r)"
  by (simp add: state_ok_def slots_ok_remove refs_ok_remove)

subsection \<open>Handing a slot out\<close>

lemma live_slot_ref: "live s (slot_ref s i) \<longleftrightarrow> i < length (st_receivers s) \<and> alive s ! i"
  by (simp add: live_def slot_ref_def)

lemma slot_ref_simps [simp]: "rr_idx (slot_ref s i) = i" "rr_gen (slot_ref s i) = gens s ! i"
  by (simp_all add: slot_ref_def)

lemma remove_frees_name:
  assumes "slots_ok s" "by_user s u = Some i"
  shows "by_user (remove_receiver s (slot_ref s i)) u = None" "live s (slot_ref s i)"
proof -
  have i: "i < length (st_receivers s)" "alive s ! i" "user (st_receivers s ! i) = u"
    using slots_okD(8) [OF assms(1)] assms(2) by auto
  then show l: "live s (slot_ref s i)"
    by (simp add: live_slot_ref)
  show "by_user (remove_receiver s (slot_ref s i)) u = None"
    using i assms(2) by (simp add: remove_slots [OF l])
qed

lemma claim_user_cases:
  assumes ok: "slots_ok s" and c: "claim_user s now info = Some (info', s')"
  shows "by_user s' (user info') = None \<and> (s' = s \<or> (\<exists>i. live s (slot_ref s i) \<and> s' = remove_receiver s (slot_ref s i)))"
proof -
  have "(s' = s \<and> by_user s (user info') = None) \<or>
      (\<exists>i. by_user s (user info') = Some i \<and> s' = remove_receiver s (slot_ref s i))"
    using c by (auto simp: claim_user_def Let_def split: option.splits if_splits)
  then show ?thesis
  proof (elim disjE exE conjE)
    fix i assume "by_user s (user info') = Some i" "s' = remove_receiver s (slot_ref s i)"
    with remove_frees_name [OF ok this(1)] show ?thesis
      by blast
  qed simp
qed

lemma name_free:
  assumes "slots_ok s" "by_user s u = None"
  shows "j < length (st_receivers s) \<Longrightarrow> alive s ! j \<Longrightarrow> user (st_receivers s ! j) \<noteq> u"
  using slots_okD(8) [OF assms(1), of u j] assms(2) by auto

definition named :: "state \<Rightarrow> receiver_info \<Rightarrow> nat \<Rightarrow> state" where
  "named s info i = s\<lparr>by_user := (by_user s)(user info \<mapsto> i)\<rparr>"

lemma occupy_reused:
  assumes ok: "slots_ok s" and f: "free_slots s \<noteq> []" and free: "by_user s (user info) = None"
    and o: "occupy s info = (i, s')"
  shows "slots_ok (named s' info i)" "i < length (st_receivers s)" "\<not> alive s ! i" "st_receivers s' = (st_receivers s)[i := info]"
    "gens s' = (gens s)[i := gens s ! i + 1]" "alive s' = (alive s)[i := True]"
proof -
  note D = slots_okD [OF ok]
  have i: "i = last (free_slots s)" and s': "st_receivers s' = (st_receivers s)[i := info]" "gens s' = (gens s)[i := gens s ! i + 1]"
      "alive s' = (alive s)[i := True]" "free_slots s' = butlast (free_slots s)" "by_user s' = by_user s" "reference s' = reference s"
      "length (rx_bias s') = length (rx_bias s)" "length (rx_sync s') = length (rx_sync s)" "length (rx_log s') = length (rx_log s)"
    using o f by (auto simp: occupy_def Let_def)
  have fs: "free_slots s = butlast (free_slots s) @ [i]"
    using f i by simp
  then have d: "distinct (butlast (free_slots s))" "i \<notin> set (butlast (free_slots s))" "i \<in> set (free_slots s)"
      "set (free_slots s) = insert i (set (butlast (free_slots s)))"
    using D(6) by (metis distinct_append, metis distinct_append disjoint_insert(2) list.set(2), metis in_set_conv_decomp, metis Un_insert_right list.simps(15) set_append sup_bot.right_neutral empty_set)
  then have ia: "i < length (st_receivers s)" "\<not> alive s ! i"
    using D(7) by auto
  then show "i < length (st_receivers s)" "\<not> alive s ! i"
    by simp_all
  have names: "((by_user s)(user info \<mapsto> i)) u = Some j \<longleftrightarrow>
      j < length (st_receivers s) \<and> (alive s)[i := True] ! j \<and> user ((st_receivers s)[i := info] ! j) = u" for u j
  proof (cases "j = i")
    case True
    then show ?thesis
      using D(5) D(8) [of u i] ia by auto
  next
    case False
    then show ?thesis
      using D(8) [of u j] name_free [OF ok free, of j] by auto
  qed
  have "set (butlast (free_slots s)) = {j. j < length (st_receivers s) \<and> \<not> (alive s)[i := True] ! j}"
  proof -
    have "set (butlast (free_slots s)) = set (free_slots s) - {i}"
      using d(2,4) by blast
    also have "\<dots> = {j. j < length (st_receivers s) \<and> \<not> (alive s)[i := True] ! j}"
      unfolding D(7) using D(5) ia by (auto simp: nth_list_update)
    finally show ?thesis .
  qed
  then show "slots_ok (named s' info i)"
    unfolding slots_ok_def Let_def named_def using D(1-5,9) d(1) names by (simp add: s')
  show "st_receivers s' = (st_receivers s)[i := info]" "gens s' = (gens s)[i := gens s ! i + 1]" "alive s' = (alive s)[i := True]"
    by (rule s')+
qed

lemma occupy_fresh:
  assumes ok: "slots_ok s" and f: "free_slots s = []" and free: "by_user s (user info) = None"
    and o: "occupy s info = (i, s')"
  shows "slots_ok (named s' info i)" "i = length (st_receivers s)" "st_receivers s' = st_receivers s @ [info]"
    "gens s' = gens s @ [0]" "alive s' = alive s @ [True]"
proof -
  note D = slots_okD [OF ok]
  have i: "i = length (st_receivers s)" and s': "st_receivers s' = st_receivers s @ [info]" "gens s' = gens s @ [0]"
      "alive s' = alive s @ [True]" "free_slots s' = []" "by_user s' = by_user s" "reference s' = reference s"
      "length (rx_bias s') = Suc (length (rx_bias s))" "length (rx_sync s') = Suc (length (rx_sync s))" "length (rx_log s') = Suc (length (rx_log s))"
    using o f by (auto simp: occupy_def Let_def)
  have names: "((by_user s)(user info \<mapsto> i)) u = Some j \<longleftrightarrow>
      j < Suc (length (st_receivers s)) \<and> (alive s @ [True]) ! j \<and> user ((st_receivers s @ [info]) ! j) = u" for u j
  proof (cases "j = i")
    case True
    then show ?thesis
      using D(5) D(8) [of u i] i by (auto simp: nth_append)
  next
    case False
    then show ?thesis
      using D(5) D(8) [of u j] name_free [OF ok free, of j] i by (auto simp: nth_append)
  qed
  have "{j. j < Suc (length (st_receivers s)) \<and> \<not> (alive s @ [True]) ! j} = {}"
    using D(5,7) f by (auto simp: nth_append less_Suc_eq)
  then show "slots_ok (named s' info i)"
    unfolding slots_ok_def Let_def named_def using D(1-5,9) names by (auto simp: s' intro: less_SucI)
  show "i = length (st_receivers s)" "st_receivers s' = st_receivers s @ [info]" "gens s' = gens s @ [0]" "alive s' = alive s @ [True]"
    by (rule i s')+
qed

lemma elect_reference_ok: "slots_ok s \<Longrightarrow> i < length (st_receivers s) \<Longrightarrow> slots_ok (elect_reference s i b)"
  by (auto simp: elect_reference_def slots_ok_def Let_def split: option.split)

lemma elect_reference_frame [simp]:
  "st_receivers (elect_reference s i b) = st_receivers s" "gens (elect_reference s i b) = gens s" "alive (elect_reference s i b) = alive s"
  "pairs (elect_reference s i b) = pairs s" "syncpoints (elect_reference s i b) = syncpoints s" "groups (elect_reference s i b) = groups s"
  "ac_log (elect_reference s i b) = ac_log s" "stamp_offset (elect_reference s i b) = stamp_offset s" "by_user (elect_reference s i b) = by_user s"
  by (simp_all add: elect_reference_def split: option.split)

lemma occupy_refs:
  "occupy s info = (i, s') \<Longrightarrow> pairs s' = pairs s \<and> syncpoints s' = syncpoints s \<and> groups s' = groups s \<and> ac_log s' = ac_log s \<and> stamp_offset s' = stamp_offset s"
  by (auto simp: occupy_def Let_def split: if_splits)

text \<open>More slots become occupied, none becomes empty.\<close>

lemma refs_ok_grow:
  assumes "refs_ok s" and f: "pairs s' = pairs s" "syncpoints s' = syncpoints s" "groups s' = groups s" "ac_log s' = ac_log s" "stamp_offset s' = stamp_offset s"
    and g: "\<And>i. i < length (st_receivers s) \<Longrightarrow> alive s ! i \<Longrightarrow> i < length (st_receivers s') \<and> alive s' ! i"
  shows "refs_ok s'"
  by (rule refs_okI; simp add: f) (blast dest: refs_okD [OF assms(1)] g)+

lemma add_receiver_cases:
  assumes ok: "state_ok s" and a: "add_receiver s now info = (res, s')"
  obtains "res = None" "s' = s"
  | i s1 info' where "res = Some (slot_ref s' i)" "state_ok s'" "i < length (st_receivers s')" "alive s' ! i" "st_receivers s' ! i = info'"
      "by_user s' (user info') = Some i" "s1 = s \<or> (\<exists>j. live s (slot_ref s j) \<and> s1 = remove_receiver s (slot_ref s j))"
      "claim_user s now info = Some (info', s1)"
      "(i < length (st_receivers s1) \<and> \<not> alive s1 ! i \<and> gens s' = (gens s1)[i := gens s1 ! i + 1] \<and> alive s' = (alive s1)[i := True]
          \<and> length (st_receivers s') = length (st_receivers s1))
       \<or> (i = length (st_receivers s1) \<and> gens s' = gens s1 @ [0] \<and> alive s' = alive s1 @ [True] \<and> length (st_receivers s') = Suc (length (st_receivers s1)))"
proof (cases "claim_user s now info")
  case None
  then show thesis
    using a that(1) by (simp add: add_receiver_def)
next
  case (Some c)
  obtain info' s1 where c: "claim_user s now info = Some (info', s1)"
    using Some by (cases c) auto
  obtain i s2 where o: "occupy s1 info' = (i, s2)"
    by fastforce
  have s1: "by_user s1 (user info') = None" "s1 = s \<or> (\<exists>j. live s (slot_ref s j) \<and> s1 = remove_receiver s (slot_ref s j))"
    using claim_user_cases [OF state_okD(1) [OF ok] c] by auto
  have ok1: "slots_ok s1" "refs_ok s1"
    using s1(2) ok state_ok_remove [OF ok] by (auto simp: state_ok_def)
  define s3 where "s3 = named s2 info' i"
  have s': "s' = elect_reference s3 i (gps info')" "res = Some (slot_ref s' i)"
    using a c o by (auto simp: add_receiver_def named_def s3_def Let_def)
  have grow: "refs_ok s'" if "\<And>j. j < length (st_receivers s1) \<Longrightarrow> alive s1 ! j \<Longrightarrow> j < length (st_receivers s3) \<and> alive s3 ! j"
    by (rule refs_ok_grow [OF ok1(2)]) (use occupy_refs [OF o] that in \<open>simp_all add: s'(1) s3_def named_def\<close>)
  have e: "st_receivers s3 = st_receivers s2" "gens s3 = gens s2" "alive s3 = alive s2" "by_user s3 (user info') = Some i"
    by (simp_all add: s3_def named_def)
  show thesis
  proof (cases "free_slots s1 = []")
    case True
    note F = occupy_fresh [OF ok1(1) True s1(1) o, folded s3_def]
    have "refs_ok s'"
      by (rule grow) (use F slots_okD(5) [OF ok1(1)] in \<open>auto simp: e nth_append\<close>)
    moreover have "slots_ok s'"
      unfolding s'(1) by (rule elect_reference_ok [OF F(1)]) (simp add: e F)
    ultimately show thesis
      by (intro that(2) [of i info' s1]) (use F slots_okD(5) [OF ok1(1)] s1 s' c in \<open>auto simp: e state_ok_def nth_append\<close>)
  next
    case False
    note F = occupy_reused [OF ok1(1) False s1(1) o, folded s3_def]
    have "refs_ok s'"
      by (rule grow) (use F slots_okD(5) [OF ok1(1)] in \<open>auto simp: e nth_list_update\<close>)
    moreover have "slots_ok s'"
      unfolding s'(1) by (rule elect_reference_ok [OF F(1)]) (simp add: e F)
    ultimately show thesis
      by (intro that(2) [of i info' s1]) (use F slots_okD(5) [OF ok1(1)] s1 s' c in \<open>auto simp: e state_ok_def\<close>)
  qed
qed

lemma clock_reset_slots: "same_slots s (clock_reset s r)"
  by (simp add: clock_reset_def same_slots_def forget_pending_def drop_pairs_def)

lemma state_ok_clock_reset:
  assumes "state_ok s"
  shows "state_ok (clock_reset s r)"
proof (cases "live s r")
  case True
  note R = refs_okD [OF state_okD(2) [OF assms]]
  have "refs_ok (clock_reset s r)"
    by (rule refs_okI; simp add: clock_reset_def True forget_pending_def drop_pairs_def) (auto dest: R)
  then show ?thesis
    using same_slots_ok [OF clock_reset_slots] assms by (simp add: state_ok_def)
next
  case False
  then show ?thesis
    using assms by (simp add: clock_reset_def)
qed

lemma note_read_ok:
  assumes "state_ok s"
  shows "state_ok (note_read s r t)"
proof -
  have u: "user ((st_receivers s)[i := (st_receivers s ! i)\<lparr>last_read := t\<rparr>] ! j) = user (st_receivers s ! j)" for i j
    by (cases "i = j"; cases "j < length (st_receivers s)") (simp_all add: not_less list_update_beyond)
  show ?thesis
    using assms by (simp add: state_ok_def note_read_def) (simp add: slots_ok_def refs_ok_def u)
qed

lemma state_new_ok: "state_ok (state_new sid scale adsb filtered epoch now)"
  by (simp add: state_ok_def state_new_def slots_ok_def refs_ok_def)

lemma set_output_ok: "state_ok s \<Longrightarrow> state_ok (set_output s)"
  by (simp add: state_ok_def set_output_def slots_ok_def refs_ok_def)


subsection \<open>The map position stays near\<close>

lemma round_real_near: "\<bar>of_int (round_real x) - x\<bar> \<le> 1 / 2"
proof (cases "0 \<le> x")
  case True
  then show ?thesis
    using floor_correct [of "x + 1 / 2"] unfolding round_real_def if_P [OF True] abs_le_iff by linarith
next
  case False
  then show ?thesis
    using ceiling_correct [of "x - 1 / 2"] unfolding round_real_def if_not_P [OF False] abs_le_iff by linarith
qed

lemma hash_unit_range: "0 \<le> hash_unit h" "hash_unit h < 1"
  by (simp_all add: hash_unit_def)

lemma snap_near:
  assumes "0 \<le> u" "u < 1"
  shows "of_int (round_real (snap v (- (1 / 20) + u / 20))) / 100 - v \<in> {- 0.08 ..< 0.03}"
proof -
  define k where "k = real_of_int (round_real (v * 20))"
  define m where "m = real_of_int (round_real (snap v (- (1 / 20) + u / 20)))"
  have "\<bar>k - v * 20\<bar> \<le> 1 / 2" "\<bar>m - (k / 20 + (- (1 / 20) + u / 20)) * 100\<bar> \<le> 1 / 2"
    using round_real_near by (simp_all add: k_def m_def snap_def del: abs_le_iff)
  then have "- 0.08 \<le> m / 100 - v" "m / 100 - v < 0.03"
    using assms unfolding abs_le_iff by (simp_all add: field_simps)
  then show ?thesis
    by (simp add: m_def)
qed

text \<open>
  The position shown on the public map: none for a receiver that asked for privacy;
  otherwise each coordinate is a whole number of hundredths of a degree, at least 0.08
  below and less than 0.03 above the true one.
\<close>

theorem map_position_near:
  "case map_position info of
     None \<Rightarrow> privacy info
   | Some (la, lo) \<Rightarrow> \<not> privacy info \<and> la - lat_deg (geo info) \<in> {- 0.08 ..< 0.03} \<and> lo - lon_deg (geo info) \<in> {- 0.08 ..< 0.03} \<and>
       la * 100 \<in> \<int> \<and> lo * 100 \<in> \<int>"
  using snap_near [OF hash_unit_range] by (simp add: map_position_def Let_def del: atLeastLessThan_iff)

end
