(* ===== verification/Ingest.thy ===== *)
theory Ingest
  imports State Frames
begin

text \<open>
  What a shard does with the messages of its receivers: \<open>on_sync\<close>, \<open>on_mlat\<close>,
  \<open>receiver_stats\<close> and the expiry pass of \<^verbatim>\<open>crates/mlatd/src/state.rs\<close>. The hexadecimal
  decoder of the \<open>hex\<close> crate is the parameter \<open>hx\<close>; nothing is assumed of it.
\<close>

subsection \<open>Frames for multilateration\<close>

text \<open>The aircraft a frame belongs to and the altitude it reports; \<open>None\<close> drops the frame.\<close>

definition mlat_frame :: "bool \<Rightarrow> bytes \<Rightarrow> (icao \<times> int option) option" where
  "mlat_frame adsb m =
     (case df_of m of
        None \<Rightarrow> None
      | Some df \<Rightarrow>
          if df = 17 then (if \<not> adsb then None else map_option (\<lambda>d. (df17_icao d, None)) (parse_df17_airborne m))
          else if df = 4 then parse_df4 m
          else if df = 11 then map_option (\<lambda>i. (i, None)) (parse_df11 m)
          else None)"

definition ac_entry :: "state \<Rightarrow> icao \<Rightarrow> ac_log_rec" where
  "ac_entry s i = (case ac_log s i of None \<Rightarrow> ac_log_default | Some a \<Rightarrow> a)"

definition log_mlat :: "nat \<Rightarrow> icao \<Rightarrow> real \<Rightarrow> state \<Rightarrow> state" where
  "log_mlat rx i at_t s =
     (let l = rx_log s ! rx; a = ac_entry s i
      in s\<lparr>rx_log := (rx_log s)[rx := l\<lparr>msgs := msgs l + 1, rl_mlat := (rl_mlat l)(i \<mapsto> at_t)\<rparr>],
           ac_log := (ac_log s)(i \<mapsto> a\<lparr>seen := at_t, mlat_msgs := mlat_msgs a + 1, al_rx_mlat := (al_rx_mlat a)(rx \<mapsto> at_t)\<rparr>)\<rparr>)"

definition group_entry :: "string \<Rightarrow> real \<Rightarrow> icao \<Rightarrow> bytes \<Rightarrow> nat \<times> real \<times> real \<Rightarrow> state \<Rightarrow> state" where
  "group_entry m_hex now i m e s =
     (let g = (case groups s m_hex of
                 Some g \<Rightarrow> g
               | None \<Rightarrow> \<lparr>g_created = now, g_icao = i, g_df17 = (m \<noteq> [] \<and> drop_bit 3 (hd m) = 17), g_entries = []\<rparr>)
      in s\<lparr>groups := (groups s)(m_hex \<mapsto> g\<lparr>g_entries := g_entries g @ [e]\<rparr>)\<rparr>)"

definition on_mlat :: "(string \<Rightarrow> bytes option) \<Rightarrow> state \<Rightarrow> real \<Rightarrow> rx_ref \<Rightarrow> real \<Rightarrow> string \<Rightarrow> real \<Rightarrow> state" where
  "on_mlat hx s now r t_counts m_hex at_t =
     (if \<not> live s r then s
      else case hx m_hex of
             None \<Rightarrow> s
           | Some m \<Rightarrow>
               (case mlat_frame (mlat_adsb s) m of
                  None \<Rightarrow> s
                | Some (i, alt) \<Rightarrow>
                    let rx = rr_idx r;
                        s = (case alt of None \<Rightarrow> s | Some a \<Rightarrow> s\<lparr>alts_ft := (alts_ft s)(i \<mapsto> a)\<rparr>);
                        s = log_mlat rx i at_t s;
                        ts = t_counts / freq_hz (st_receivers s ! rx)
                    in group_entry m_hex now i m (rx, ts, at_t) s))"

subsection \<open>Sync pairs\<close>

definition pair_entry :: "state \<Rightarrow> nat \<times> nat \<Rightarrow> pair_model" where
  "pair_entry s k = (case pairs s k of None \<Rightarrow> pair_default | Some m \<Rightarrow> m)"

text \<open>Train both directions of one pair with one shared event, and count the outcome.\<close>

definition train :: "icao \<Rightarrow> nat \<Rightarrow> nat \<Rightarrow> real \<Rightarrow> real \<Rightarrow> state \<Rightarrow> state" where
  "train i a b ta tb s =
     (let (ok, m1) = push (pair_entry s (a, b)) ta tb;
          s = s\<lparr>pairs := (pairs s)((a, b) \<mapsto> m1)\<rparr>;
          m2 = snd (push (pair_entry s (b, a)) tb ta);
          s = s\<lparr>pairs := (pairs s)((b, a) \<mapsto> m2)\<rparr>;
          (acc, rej) = rx_sync s ! a; l = ac_entry s i
      in s\<lparr>rx_sync := (rx_sync s)[a := if ok then (acc + 1, rej) else (acc, rej + 1)],
           ac_log := (ac_log s)(i \<mapsto> if ok then l\<lparr>sync_good := sync_good l + 1\<rparr> else l\<lparr>sync_bad := sync_bad l + 1\<rparr>),
           stats_sync_obs := stats_sync_obs s + 1\<rparr>)"

definition train_with :: "icao \<Rightarrow> nat \<Rightarrow> real \<Rightarrow> real \<Rightarrow> state \<Rightarrow> nat \<times> real \<times> real \<Rightarrow> state" where
  "train_with i rx te to s other =
     (let (rx2, te2, to2) = other
      in if rx2 = rx \<or> \<not> alive s ! rx2 then s
         else train i rx rx2 to to2 (train i rx rx2 te te2 s))"

definition log_sync :: "nat \<Rightarrow> icao \<Rightarrow> real \<Rightarrow> state \<Rightarrow> state" where
  "log_sync rx i at_t s =
     (let l = rx_log s ! rx; a = ac_entry s i
      in s\<lparr>rx_log := (rx_log s)[rx := l\<lparr>msgs := msgs l + 1, rl_sync := (rl_sync l)(i \<mapsto> at_t)\<rparr>],
           ac_log := (ac_log s)(i \<mapsto> a\<lparr>seen := at_t, al_rx_sync := (al_rx_sync a)(rx \<mapsto> at_t)\<rparr>)\<rparr>)"

text \<open>Join the sync point of this pair of messages and train against its earlier reporters, at most fifteen.\<close>

definition join_syncpoint :: "string \<times> string \<Rightarrow> real \<Rightarrow> icao \<Rightarrow> nat \<Rightarrow> real \<Rightarrow> real \<Rightarrow> state \<Rightarrow> state" where
  "join_syncpoint key now i rx te to s =
     (let sp = (case syncpoints s key of Some sp \<Rightarrow> sp | None \<Rightarrow> \<lparr>sp_created = now, reporters = []\<rparr>);
          s = s\<lparr>syncpoints := (syncpoints s)(key \<mapsto> sp)\<rparr>
      in if length (reporters sp) \<ge> 15 then s
         else foldl (train_with i rx te to)
                (s\<lparr>syncpoints := (syncpoints s)(key \<mapsto> sp\<lparr>reporters := reporters sp @ [(rx, te, to)]\<rparr>)\<rparr>) (reporters sp))"

text \<open>The decoded pair: correct both times for propagation, keep what the aircraft says of itself, and train.\<close>

definition sync_event ::
  "(string \<Rightarrow> bytes option) \<Rightarrow> real \<Rightarrow> rx_ref \<Rightarrow> real \<Rightarrow> real \<Rightarrow> string \<Rightarrow> string \<Rightarrow> real \<Rightarrow> df17_airborne \<Rightarrow> real \<times> real \<Rightarrow> real \<times> real \<Rightarrow> state \<Rightarrow> state" where
  "sync_event hx now r et ot em_hex om_hex at_t de pe po s =
     (let rx = rr_idx r; i = df17_icao de;
          alt = of_int (case df17_alt_ft de of None \<Rightarrow> 0 | Some a \<Rightarrow> a) * 0.3048;
          ge = \<lparr>lat_deg = fst pe, lon_deg = snd pe, alt_m = alt\<rparr>;
          go = \<lparr>lat_deg = fst po, lon_deg = snd po, alt_m = alt\<rparr>;
          freq = freq_hz (st_receivers s ! rx); rxe = rx_ecef (st_receivers s ! rx);
          te = et / freq - dist rxe (to_ecef ge) / C_MPS;
          to = ot / freq - dist rxe (to_ecef go) / C_MPS;
          s = (case df17_alt_ft de of None \<Rightarrow> s | Some a \<Rightarrow> s\<lparr>alts_ft := (alts_ft s)(i \<mapsto> a)\<rparr>);
          s = s\<lparr>adsb_pos := (adsb_pos s)(i \<mapsto> (ge, at_t))\<rparr>;
          s = (if mlat_adsb s then on_mlat hx s now r et em_hex at_t else s)
      in join_syncpoint (em_hex, om_hex) now i rx te to s)"

definition on_sync :: "(string \<Rightarrow> bytes option) \<Rightarrow> state \<Rightarrow> real \<Rightarrow> rx_ref \<Rightarrow> real \<Rightarrow> real \<Rightarrow> string \<Rightarrow> string \<Rightarrow> real \<Rightarrow> state" where
  "on_sync hx s now r et ot em_hex om_hex at_t =
     (if \<not> live s r then s
      else case (hx em_hex, hx om_hex) of
        (Some em, Some om) \<Rightarrow>
          (case (parse_df17_airborne em, parse_df17_airborne om) of
             (Some de, Some d) \<Rightarrow>
               if df17_icao de \<noteq> df17_icao d \<or> df17_odd de \<or> \<not> df17_odd d then s
               else let s = log_sync (rr_idx r) (df17_icao de) at_t s;
                        evn = (cpr_lat de, cpr_lon de); od = (cpr_lat d, cpr_lon d)
                    in (case (global_decode_airborne evn od False, global_decode_airborne evn od True) of
                          (Some pe, Some po) \<Rightarrow> sync_event hx now r et ot em_hex om_hex at_t de pe po s
                        | _ \<Rightarrow> s)
           | _ \<Rightarrow> s)
      | _ \<Rightarrow> s)"

subsection \<open>Statistics and expiry\<close>

definition quarantined :: "rx_bias_rec \<Rightarrow> bool" where
  "quarantined b \<longleftrightarrow> rb_n b \<ge> QUARANTINE_MIN_N \<and> mad_s b > QUARANTINE_MAD_S"

definition receiver_stats :: "state \<Rightarrow> rx_ref \<Rightarrow> (nat \<times> real \<times> bool) option \<times> state" where
  "receiver_stats s r =
     (if \<not> live s r then (None, s)
      else let rx = rr_idx r;
               peers = card {k \<in> dom (pairs s). fst k = rx \<and> alive s ! snd k};
               (acc, rej) = rx_sync s ! rx;
               outlier_percent = (if acc + rej > 0 then 100 * rej / (acc + rej) else 0)
           in (Some (peers, outlier_percent, quarantined (rx_bias s ! rx)),
               s\<lparr>rx_sync := (rx_sync s)[rx := (acc * 0.25, rej * 0.25)]\<rparr>))"

definition expire_at :: "state \<Rightarrow> real \<Rightarrow> state" where
  "expire_at s now =
     (let fresh = (\<lambda>t. now - t < INTEREST_S);
          keep = (\<lambda>a. a\<lparr>al_rx_mlat := retain (\<lambda>rx t. fresh t \<and> alive s ! rx) (al_rx_mlat a),
                        al_rx_sync := retain (\<lambda>rx t. fresh t \<and> alive s ! rx) (al_rx_sync a)\<rparr>);
          al = (\<lambda>k. map_option keep (retain (\<lambda>_ a. now - seen a < AC_EXPIRE_S) (ac_log s) k));
          known = (\<lambda>k. al k \<noteq> None)
      in s\<lparr>ac_log := al,
           alts_ft := retain (\<lambda>k _. known k) (alts_ft s), adsb_pos := retain (\<lambda>k _. known k) (adsb_pos s),
           tracks := retain (\<lambda>k _. known k) (tracks s), filters := retain (\<lambda>k _. known k) (filters s),
           rx_log := map (\<lambda>i. if \<not> alive s ! i then rx_log s ! i
                              else (rx_log s ! i)\<lparr>rl_sync := retain (\<lambda>_ t. fresh t) (rl_sync (rx_log s ! i)),
                                     rl_mlat := retain (\<lambda>_ t. fresh t) (rl_mlat (rx_log s ! i))\<rparr>)
                       [0..<length (rx_log s)]\<rparr>)"

subsection \<open>Each step keeps the state well-formed\<close>

text \<open>A step that leaves the slots alone and only mentions occupied ones.\<close>

definition tame :: "state \<Rightarrow> state \<Rightarrow> bool" where
  "tame s s' \<longleftrightarrow> same_slots s s' \<and> (state_ok s \<longrightarrow> state_ok s')"

lemma tame_refl [simp]: "tame s s"
  by (simp add: tame_def)

lemma tame_trans: "tame s s' \<Longrightarrow> tame s' s'' \<Longrightarrow> tame s s''"
  by (auto simp: tame_def intro: same_slots_trans)

lemma tame_live: "tame s s' \<Longrightarrow> live s' r \<longleftrightarrow> live s r"
  by (simp add: tame_def same_slots_live)

lemma tame_fold: "(\<And>s x. x \<in> set xs \<Longrightarrow> tame s (f s x)) \<Longrightarrow> tame s (foldl f s xs)"
  by (rule map_foldl_invariant [where P = "tame s"]) (auto intro: tame_trans)

definition occ :: "state \<Rightarrow> nat \<Rightarrow> bool" where
  "occ s i \<longleftrightarrow> i < length (st_receivers s) \<and> alive s ! i"

lemma live_occ: "live s r \<Longrightarrow> occ s (rr_idx r)"
  by (simp add: live_def occ_def)

lemma tameI:
  assumes "same_slots s s'" "state_ok s \<Longrightarrow> refs_ok s'"
  shows "tame s s'"
  using assms same_slots_ok by (auto simp: tame_def state_ok_def)

lemma tame_data:
  assumes "same_slots s s'" "pairs s' = pairs s" "syncpoints s' = syncpoints s" "groups s' = groups s" "ac_log s' = ac_log s" "stamp_offset s' = stamp_offset s"
  shows "tame s s'"
  using assms(1)
proof (rule tameI)
  assume "state_ok s"
  then show "refs_ok s'"
    by (rule refs_ok_grow [OF state_okD(2)]) (use assms in \<open>simp_all add: same_slots_def\<close>)
qed

lemma ac_entry_refs: "state_ok s \<Longrightarrow> al_rx_mlat (ac_entry s k) i = Some t \<or> al_rx_sync (ac_entry s k) i = Some t \<Longrightarrow> occ s i"
  by (auto simp: ac_entry_def ac_log_default_def occ_def dest: refs_okD(4) [OF state_okD(2)] split: option.splits)

lemma tame_ac_log:
  assumes s: "same_slots s s'" "pairs s' = pairs s" "syncpoints s' = syncpoints s" "groups s' = groups s" "stamp_offset s' = stamp_offset s"
    and l: "ac_log s' = (ac_log s)(i \<mapsto> a)"
    and r: "\<And>j t. al_rx_mlat a j = Some t \<or> al_rx_sync a j = Some t \<Longrightarrow> occ s j \<or> al_rx_mlat (ac_entry s i) j = Some t \<or> al_rx_sync (ac_entry s i) j = Some t"
  shows "tame s s'"
  using s(1)
proof (rule tameI)
  assume ok: "state_ok s"
  note R = refs_okD [OF state_okD(2) [OF ok]]
  have a: "occ s j" if "al_rx_mlat a j = Some t \<or> al_rx_sync a j = Some t" for j t
    using r [OF that] ac_entry_refs [OF ok] by blast
  have e: "st_receivers s' = st_receivers s" "alive s' = alive s"
    using s(1) by (simp_all add: same_slots_def)
  show "refs_ok s'"
    apply (rule refs_okI; simp add: s l e split: if_splits)
    apply (erule R(1))
    apply (erule (1) R(2))
    apply (erule (1) R(3))
    apply (use a in \<open>auto simp: occ_def\<close>)[1]
    apply (erule (1) R(4))
    apply (erule R(5))
    done
qed

lemma tame_log_mlat: "occ s rx \<Longrightarrow> tame s (log_mlat rx i t s)"
  by (rule tame_ac_log) (auto simp: log_mlat_def same_slots_def Let_def split: if_splits)

lemma tame_log_sync: "occ s rx \<Longrightarrow> tame s (log_sync rx i t s)"
  by (rule tame_ac_log) (auto simp: log_sync_def same_slots_def Let_def split: if_splits)

lemma tame_group_entry:
  assumes "occ s (fst e)"
  shows "tame s (group_entry m_hex now i m e s)"
proof (rule tameI)
  show "same_slots s (group_entry m_hex now i m e s)"
    by (simp add: group_entry_def same_slots_def Let_def)
  assume "state_ok s"
  note R = refs_okD [OF state_okD(2) [OF this]]
  show "refs_ok (group_entry m_hex now i m e s)"
    using assms
    by (intro refs_okI) (auto simp: group_entry_def occ_def Let_def dest: R(1,2,4,5) split: if_splits option.splits; use R(3) in fastforce)+
qed

lemma occ_tame: "tame s s' \<Longrightarrow> occ s' i \<longleftrightarrow> occ s i"
  by (simp add: tame_def same_slots_def occ_def)

lemma tame_on_mlat: "tame s (on_mlat hx s now r t_counts m_hex at_t)"
proof (cases "live s r \<and> hx m_hex \<noteq> None \<and> mlat_frame (mlat_adsb s) (the (hx m_hex)) \<noteq> None")
  case True
  then obtain m i alt where m: "live s r" "hx m_hex = Some m" "mlat_frame (mlat_adsb s) m = Some (i, alt)"
    by auto
  define s1 where "s1 = (case alt of None \<Rightarrow> s | Some a \<Rightarrow> s\<lparr>alts_ft := (alts_ft s)(i \<mapsto> a)\<rparr>)"
  have 1: "tame s s1"
    by (rule tame_data) (auto simp: s1_def same_slots_def split: option.split)
  have 2: "tame s (log_mlat (rr_idx r) i at_t s1)"
    using 1 tame_log_mlat [of s1 "rr_idx r" i at_t] occ_tame [OF 1] live_occ [OF m(1)] tame_trans by blast
  show ?thesis
    unfolding on_mlat_def Let_def using m occ_tame [OF 2] live_occ [OF m(1)]
    by (simp flip: s1_def) (rule tame_trans [OF 2 tame_group_entry], simp)
next
  case False
  then show ?thesis
    by (auto simp: on_mlat_def split: option.split)
qed

lemma tame_train:
  assumes "occ s a" "occ s b" "a \<noteq> b"
  shows "tame s (train i a b ta tb s)"
proof -
  define m1 where "m1 = snd (push (pair_entry s (a, b)) ta tb)"
  define s1 where "s1 = s\<lparr>pairs := (pairs s)((a, b) \<mapsto> m1)\<rparr>"
  define s2 where "s2 = s1\<lparr>pairs := (pairs s1)((b, a) \<mapsto> snd (push (pair_entry s1 (b, a)) tb ta))\<rparr>"
  have "tame s s2"
  proof (rule tameI)
    show "same_slots s s2"
      by (simp add: s1_def s2_def same_slots_def)
    assume "state_ok s"
    note R = refs_okD [OF state_okD(2) [OF this]]
    show "refs_ok s2"
      using assms by (intro refs_okI) (auto simp: s1_def s2_def occ_def dest: R split: if_splits)
  qed
  moreover have "tame s2 (train i a b ta tb s)"
    by (rule tame_ac_log [where i = i and a = "let l = ac_entry s2 i in if fst (push (pair_entry s (a, b)) ta tb)
        then l\<lparr>sync_good := sync_good l + 1\<rparr> else l\<lparr>sync_bad := sync_bad l + 1\<rparr>"])
      (auto simp: train_def s2_def s1_def m1_def same_slots_def Let_def ac_entry_def split: prod.splits if_splits)
  ultimately show ?thesis
    by (rule tame_trans)
qed

lemma tame_train_with: "occ s rx \<Longrightarrow> occ s (fst other) \<or> \<not> alive s ! fst other \<Longrightarrow> tame s (train_with i rx te to s other)"
  by (cases other) (auto simp: train_with_def occ_tame [OF tame_train] intro!: tame_train tame_trans [OF tame_train tame_train])

lemma tame_ok: "tame s s' \<Longrightarrow> state_ok s \<Longrightarrow> state_ok s'"
  by (simp add: tame_def)

lemma tame_join:
  assumes ok: "state_ok s" and rx: "occ s rx"
  shows "tame s (join_syncpoint key now i rx te to s)"
proof -
  define sp where "sp = (case syncpoints s key of Some sp \<Rightarrow> sp | None \<Rightarrow> \<lparr>sp_created = now, reporters = []\<rparr>)"
  have others: "occ s (fst x)" if "x \<in> set (reporters sp)" for x
    using that refs_okD(2) [OF state_okD(2) [OF ok]] by (auto simp: sp_def occ_def split: option.splits)
  have sps: "tame s (s\<lparr>syncpoints := (syncpoints s)(key \<mapsto> sp\<lparr>reporters := rs\<rparr>)\<rparr>)" if rs: "\<forall>x \<in> set rs. occ s (fst x)" for rs
  proof (rule tameI)
    show "same_slots s (s\<lparr>syncpoints := (syncpoints s)(key \<mapsto> sp\<lparr>reporters := rs\<rparr>)\<rparr>)"
      by (simp add: same_slots_def)
    note R = refs_okD [OF state_okD(2) [OF ok]]
    show "refs_ok (s\<lparr>syncpoints := (syncpoints s)(key \<mapsto> sp\<lparr>reporters := rs\<rparr>)\<rparr>)"
      using rs by (intro refs_okI) (auto simp: occ_def dest: R(1,3,4,5) split: if_splits; use R(2) in fastforce)+
  qed
  define s1 where "s1 = s\<lparr>syncpoints := (syncpoints s)(key \<mapsto> sp\<lparr>reporters := reporters sp @ [(rx, te, to)]\<rparr>)\<rparr>"
  have 1: "tame s s1"
    unfolding s1_def by (rule sps) (use others rx in auto)
  have "tame s (foldl (train_with i rx te to) s1 (reporters sp))"
  proof (rule map_foldl_invariant [where P = "tame s"])
    fix s' x assume x: "x \<in> set (reporters sp)" and t: "tame s s'"
    show "tame s (train_with i rx te to s' x)"
      by (rule tame_trans [OF t tame_train_with]) (use others [OF x] rx occ_tame [OF t] in auto)
  qed (rule 1)
  moreover have "tame s (s\<lparr>syncpoints := (syncpoints s)(key \<mapsto> sp)\<rparr>)"
    using sps [of "reporters sp"] others by simp
  ultimately show ?thesis
    by (simp add: join_syncpoint_def Let_def s1_def flip: sp_def)
qed

lemma tame_sync_event:
  assumes ok: "state_ok s" and rx: "occ s (rr_idx r)"
  shows "tame s (sync_event hx now r et ot em_hex om_hex at_t de pe po s)"
proof -
  define s1 where "s1 = (case df17_alt_ft de of None \<Rightarrow> s | Some a \<Rightarrow> s\<lparr>alts_ft := (alts_ft s)(df17_icao de \<mapsto> a)\<rparr>)"
  have step: "tame s (join_syncpoint key now i (rr_idx r) te to (if b then on_mlat hx s2 now r et em_hex at_t else s2))"
    if s2: "tame s s2" for key i te to b s2
  proof -
    have t: "tame s (if b then on_mlat hx s2 now r et em_hex at_t else s2)"
      using s2 tame_on_mlat tame_trans by (cases b) auto
    show ?thesis
      by (rule tame_trans [OF t tame_join]) (use tame_ok [OF t ok] occ_tame [OF t] rx in auto)
  qed
  have "tame s (s1\<lparr>adsb_pos := g\<rparr>)" for g
    by (rule tame_data) (auto simp: s1_def same_slots_def split: option.split)
  then show ?thesis
    unfolding sync_event_def Let_def s1_def [symmetric] by (intro step)
qed

lemma tame_on_sync:
  assumes ok: "state_ok s"
  shows "tame s (on_sync hx s now r et ot em_hex om_hex at_t)"
proof (cases "live s r")
  case True
  then have occ: "occ s (rr_idx r)"
    by (rule live_occ)
  have log: "tame s (log_sync (rr_idx r) i at_t s)" for i
    by (rule tame_log_sync [OF occ])
  have ev: "tame s (sync_event hx now r et ot em_hex om_hex at_t de pe po (log_sync (rr_idx r) i at_t s))" for i de pe po
    by (rule tame_trans [OF log tame_sync_event]) (use tame_ok [OF log ok] occ_tame [OF log] occ in auto)
  show ?thesis
    unfolding on_sync_def Let_def using True log ev by (auto split: option.split)
next
  case False
  then show ?thesis
    by (simp add: on_sync_def)
qed

lemma tame_stats: "tame s (snd (receiver_stats s r))"
  by (rule tame_data) (auto simp: receiver_stats_def same_slots_def Let_def split: prod.split)

lemma tame_expire: "tame s (expire_at s now)"
proof (rule tameI)
  show "same_slots s (expire_at s now)"
    by (simp add: expire_at_def same_slots_def Let_def)
  assume ok: "state_ok s"
  note R = refs_okD [OF state_okD(2) [OF ok]]
  have R4: "ac_log s k = Some a \<Longrightarrow> al_rx_mlat a i = Some t \<Longrightarrow> i < length (st_receivers s)"
    "ac_log s k = Some a \<Longrightarrow> al_rx_sync a i = Some t \<Longrightarrow> i < length (st_receivers s)" for k a i t
    using R(4) by blast+
  show "refs_ok (expire_at s now)"
    by (intro refs_okI) (auto simp: expire_at_def Let_def dest: R(1,2,3,5) R4)
qed

lemma train_counts: "stats_sync_obs (train i a b ta tb s) = stats_sync_obs s + 1" "alive (train i a b ta tb s) = alive s"
  by (simp_all add: train_def Let_def split: prod.split)

lemma train_with_counts:
  "stats_sync_obs (train_with i rx te to s x) = stats_sync_obs s + (if fst x = rx \<or> \<not> alive s ! fst x then 0 else 2)"
  "alive (train_with i rx te to s x) = alive s"
  by (simp_all add: train_with_def train_counts Let_def split: prod.split)

lemma train_fold_counts:
  "stats_sync_obs (foldl (train_with i rx te to) s xs) = stats_sync_obs s + 2 * length (filter (\<lambda>x. fst x \<noteq> rx \<and> alive s ! fst x) xs)"
  by (induction xs arbitrary: s) (simp_all add: train_with_counts)

subsection \<open>Properties\<close>

text \<open>
  C38. Nothing survives expiry that is not heard of: after the expiry pass at time \<open>now\<close>,
  every aircraft with an altitude, an own position, a track or a filter still has a log
  entry, each log entry was heard within \<open>AC_EXPIRE_S\<close>, and every receiver it lists is
  connected and reported it within \<open>INTEREST_S\<close>. Nothing recent is dropped: an aircraft
  heard within the limit keeps its entry and all four.
\<close>

theorem expiry_sound_and_complete:
  fixes s now
  defines "s' \<equiv> expire_at s now"
  shows "dom (alts_ft s') \<union> dom (adsb_pos s') \<union> dom (tracks s') \<union> dom (filters s') \<subseteq> dom (ac_log s') \<and>
    dom (ac_log s') = {i. \<exists>a. ac_log s i = Some a \<and> now - seen a < AC_EXPIRE_S} \<and>
    (\<Union>a \<in> ran (ac_log s'). dom (al_rx_mlat a) \<union> dom (al_rx_sync a)) \<subseteq> {rx. alive s ! rx} \<and>
    (\<Union>a \<in> ran (ac_log s'). ran (al_rx_mlat a) \<union> ran (al_rx_sync a)) \<subseteq> {t. now - t < INTEREST_S} \<and>
    alts_ft s' = alts_ft s |` dom (ac_log s') \<and> adsb_pos s' = adsb_pos s |` dom (ac_log s') \<and>
    tracks s' = tracks s |` dom (ac_log s') \<and> filters s' = filters s |` dom (ac_log s')"
proof -
  have restrict: "retain (\<lambda>k _. P k) m = m |` {k. P k}" for P and m :: "icao \<rightharpoonup> 'v"
    by (rule ext) (simp add: retain_def restrict_map_def split: option.split)
  have d: "dom (ac_log s') = {i. \<exists>a. ac_log s i = Some a \<and> now - seen a < AC_EXPIRE_S}"
    by (auto simp: s'_def expire_at_def Let_def dom_def)
  have m: "alts_ft s' = alts_ft s |` dom (ac_log s')" "adsb_pos s' = adsb_pos s |` dom (ac_log s')"
    "tracks s' = tracks s |` dom (ac_log s')" "filters s' = filters s |` dom (ac_log s')"
    by (simp_all add: s'_def expire_at_def Let_def restrict dom_def)
  have "(\<Union>a \<in> ran (ac_log s'). dom (al_rx_mlat a) \<union> dom (al_rx_sync a)) \<subseteq> {rx. alive s ! rx}"
    "(\<Union>a \<in> ran (ac_log s'). ran (al_rx_mlat a) \<union> ran (al_rx_sync a)) \<subseteq> {t. now - t < INTEREST_S}"
    by (auto simp: s'_def expire_at_def Let_def ran_def)
  then show ?thesis
    using d m by simp
qed

text \<open>
  At most fifteen receivers train on one sync event, and an event trains both
  directions of a pair: in a sync point with \<open>n\<close> earlier reporters, all connected and
  none of them the newcomer, a newcomer adds two observations per earlier reporter if
  \<open>n < 15\<close> and none otherwise.
\<close>

theorem syncpoint_training_bounded:
  fixes key now i rx te to s
  defines "rs \<equiv> (case syncpoints s key of Some sp \<Rightarrow> reporters sp | None \<Rightarrow> [])"
  shows "stats_sync_obs (join_syncpoint key now i rx te to s) = stats_sync_obs s +
      (if length rs < 15 then 2 * length (filter (\<lambda>x. fst x \<noteq> rx \<and> alive s ! fst x) rs) else 0) \<and>
    stats_sync_obs (join_syncpoint key now i rx te to s) \<le> stats_sync_obs s + 28"
proof -
  have "length (filter P rs) \<le> 14" if "length rs < 15" for P
    using that length_filter_le [of P rs] by linarith
  then show ?thesis
    by (auto simp: join_syncpoint_def rs_def train_fold_counts Let_def not_le split: option.splits)
qed

end
