(* ===== verification/Publish.thy ===== *)
theory Publish
  imports Ingest
begin

text \<open>
  From grouped frames to published fixes: \<open>solve_group\<close>, \<open>solve_cluster\<close> with its gates,
  the track prediction, the recipients and the sweep of \<^verbatim>\<open>crates/mlatd/src/state.rs\<close>.
  The order in which a sweep takes the ready groups out of their \<open>HashMap\<close> is an argument
  of the sweep.
\<close>

definition RESOLVE_BACKOFF_S :: real where "RESOLVE_BACKOFF_S = 0.4"
definition MAX_ERR_M :: real where "MAX_ERR_M = 10000"
definition THROTTLE_SCALE_M :: real where "THROTTLE_SCALE_M = 1500"
definition CLUSTER_SPAN_S :: real where "CLUSTER_SPAN_S = 2.5 / 10 ^ 3"

definition hypot :: "real \<Rightarrow> real \<Rightarrow> real" where "hypot x y = sqrt (x * x + y * y)"

subsection \<open>Where the track expects the aircraft\<close>

definition four_rx_consistent :: "prediction \<Rightarrow> solution \<Rightarrow> bool" where
  "four_rx_consistent pred sol \<longleftrightarrow>
     haversine_m (pos sol) (pr_pos pred) \<le> max (3 * hypot (fix_err_m sol) (sigma_m pred)) 500 + reach_m pred"

definition fix_weight :: "fix_rec \<Rightarrow> real" where
  "fix_weight f = 1 / (max (fx_err_m f) 100) ^ 2"

definition sum_over :: "('a \<Rightarrow> real) \<Rightarrow> 'a list \<Rightarrow> real" where
  "sum_over f xs = sum_list (map f xs)"

text \<open>The straight-line fit over the window, in metres east and north of the last fix.\<close>

definition fit_prediction :: "fix_rec \<Rightarrow> fix_rec list \<Rightarrow> real \<Rightarrow> real \<Rightarrow> prediction \<Rightarrow> prediction" where
  "fit_prediction lst window alt now reachable =
     (let m_lat = 111320; m_lon = m_lat * max (cos (to_radians (lat_deg (fx_pos lst)))) 0.05;
          east = (\<lambda>f. (rem_euclid (lon_deg (fx_pos f) - lon_deg (fx_pos lst) + 540) 360 - 180) * m_lon);
          north = (\<lambda>f. (lat_deg (fx_pos f) - lat_deg (fx_pos lst)) * m_lat);
          sw = sum_over fix_weight window;
          t_mid = sum_over (\<lambda>f. fix_weight f * fx_t f) window / sw;
          sxx = sum_over (\<lambda>f. fix_weight f * (fx_t f - t_mid) ^ 2) window;
          e_mid = sum_over (\<lambda>f. fix_weight f * east f / sw) window;
          n_mid = sum_over (\<lambda>f. fix_weight f * north f / sw) window;
          ve = sum_over (\<lambda>f. fix_weight f * (fx_t f - t_mid) * east f / sxx) window;
          vn = sum_over (\<lambda>f. fix_weight f * (fx_t f - t_mid) * north f / sxx) window
      in if hypot ve vn > MAX_SPEED_MPS then reachable
         else let tau = now - t_mid; e = e_mid + ve * tau; n = n_mid + vn * tau
              in \<lparr>pr_pos = \<lparr>lat_deg = lat_deg (fx_pos lst) + n / m_lat,
                           lon_deg = rem_euclid (lon_deg (fx_pos lst) + e / m_lon + 540) 360 - 180, alt_m = alt\<rparr>,
                  reach_m = 0.5 * MAX_ACCEL_MPS2 * tau * tau, sigma_m = sqrt (1 / sw + tau * tau / sxx)\<rparr>)"

definition track_prediction :: "state \<Rightarrow> icao \<Rightarrow> real \<Rightarrow> real \<Rightarrow> prediction option" where
  "track_prediction s i alt now =
     (case ac_log s i of
        None \<Rightarrow> None
      | Some a \<Rightarrow>
          if al_fixes a = [] then None
          else let lst = last (al_fixes a); horizon = now - fx_t lst
               in if \<not> (0 \<le> horizon \<and> horizon < TRACK_STALE_S) then None
                  else let reachable = \<lparr>pr_pos = (fx_pos lst)\<lparr>alt_m := alt\<rparr>, reach_m = MAX_SPEED_MPS * horizon, sigma_m = fx_err_m lst\<rparr>;
                           window = filter (\<lambda>f. fx_t lst - fx_t f \<le> FIT_WINDOW_S) (al_fixes a)
                       in if fx_t lst - fx_t (hd window) < FIT_MIN_SPAN_S then Some reachable
                          else Some (fit_prediction lst window alt now reachable))"

definition recipients :: "state \<Rightarrow> nat list \<Rightarrow> geodetic \<Rightarrow> nat list" where
  "recipients s members fx =
     map (\<lambda>rx. uid (st_receivers s ! rx))
       (filter (\<lambda>rx. alive s ! rx \<and> haversine_m (geo (st_receivers s ! rx)) fx \<le> RESULT_RANGE_M) members)"

subsection \<open>One cluster\<close>

text \<open>One usable observation of a receiver: slot, observation, user, output-clock stamp.\<close>

type_synonym used_obs = "nat \<times> observation \<times> string \<times> real"

fun gather :: "state \<Rightarrow> (nat \<times> real \<times> real \<times> real) list \<Rightarrow> nat set \<Rightarrow> used_obs list \<times> (nat \<times> real) list" where
  "gather s [] sn = ([], [])"
| "gather s ((rx, t, sigma, at_t) # cs) sn =
     (let (used, benched) = gather s cs (insert rx sn)
      in if rx \<in> sn \<or> \<not> alive s ! rx then (used, benched)
         else let b = rx_bias s ! rx
              in if quarantined b then (used, (rx, t) # benched)
                 else ((rx, \<lparr>obs_rx = rx_ecef (st_receivers s ! rx), t_s = t + bias_s b, err_s = sigma\<rparr>,
                        user (st_receivers s ! rx), at_t) # used, benched))"

definition min_of :: "real list \<Rightarrow> real" where
  "min_of xs = fold min (tl xs) (hd xs)"

text \<open>The sixteen most precise observations, in their original order.\<close>

definition keep_best :: "used_obs list \<Rightarrow> used_obs list" where
  "keep_best xs =
     (if length xs > 16
      then map (\<lambda>i. xs ! i) (sort (take 16 (sort_key (\<lambda>i. err_s (fst (snd (xs ! i)))) [0..<length xs])))
      else xs)"

definition next_offset :: "real option \<Rightarrow> real \<Rightarrow> real" where
  "next_offset prev delta =
     (case prev of None \<Rightarrow> delta | Some o1 \<Rightarrow> if delta < o1 then delta else o1 + 0.001 * (delta - o1))"

definition receiver_centroid :: "state \<Rightarrow> real \<Rightarrow> nat list \<Rightarrow> geodetic" where
  "receiver_centroid s alt rx_ids =
     (let n = of_nat (length rx_ids);
          (x, y, z) = foldl (\<lambda>(x, y, z) i. let e = rx_ecef (st_receivers s ! i) in (x + ecef_x e, y + ecef_y e, z + ecef_z e)) (0, 0, 0) rx_ids
      in (to_geodetic \<lparr>ecef_x = x / n, ecef_y = y / n, ecef_z = z / n\<rparr>)\<lparr>alt_m := alt\<rparr>)"

definition start_position :: "state \<Rightarrow> ac_track \<Rightarrow> real \<Rightarrow> real \<Rightarrow> nat list \<Rightarrow> geodetic" where
  "start_position s trk now_scaled alt rx_ids =
     (case last_pos trk of
        Some p \<Rightarrow> if now_scaled - last_time_scaled trk < 60 then p\<lparr>alt_m := alt\<rparr> else receiver_centroid s alt rx_ids
      | None \<Rightarrow> receiver_centroid s alt rx_ids)"

definition reject :: "state \<Rightarrow> state" where
  "reject s = s\<lparr>stats_rejected := stats_rejected s + 1\<rparr>"

text \<open>The fix implies more than 400 m/s against the last accepted one.\<close>

definition too_fast :: "ac_track \<Rightarrow> real \<Rightarrow> solution \<Rightarrow> bool" where
  "too_fast trk elapsed sol =
     (case last_pos trk of
        None \<Rightarrow> False
      | Some lst \<Rightarrow> elapsed < 30 \<and> elapsed > 0.05 \<and> haversine_m (pos sol) lst / elapsed > 400)"

definition track_of :: "state \<Rightarrow> icao \<Rightarrow> ac_track" where
  "track_of s i = (case tracks s i of None \<Rightarrow> track_default | Some t \<Rightarrow> t)"

definition speed_reject :: "icao \<Rightarrow> state \<Rightarrow> state" where
  "speed_reject i s =
     (let t = track_of s i; t = t\<lparr>speed_rejects := speed_rejects t + 1\<rparr>
      in if speed_rejects t \<ge> 5
         then reject (s\<lparr>tracks := (tracks s)(i \<mapsto> t\<lparr>last_pos := None, speed_rejects := 0\<rparr>),
                        ac_log := (case ac_log s i of None \<Rightarrow> ac_log s | Some a \<Rightarrow> (ac_log s)(i \<mapsto> a\<lparr>al_fixes := []\<rparr>))\<rparr>)
         else reject (s\<lparr>tracks := (tracks s)(i \<mapsto> t)\<rparr>))"

definition train_benched :: "solution \<Rightarrow> real \<Rightarrow> state \<Rightarrow> nat \<times> real \<Rightarrow> state" where
  "train_benched sol alt s b =
     (let (rx, t) = b; tx = to_ecef ((pos sol)\<lparr>alt_m := alt\<rparr>); rb = rx_bias s ! rx;
          r = t_tx sol + dist tx (rx_ecef (st_receivers s ! rx)) / C_MPS - (t + bias_s rb);
          bias = bias_s rb + 0.02 * r
      in s\<lparr>rx_bias := (rx_bias s)[rx := rb\<lparr>bias_s := bias, mad_s := mad_s rb + 0.02 * (\<bar>r - bias\<bar> - mad_s rb)\<rparr>]\<rparr>)"

text \<open>Bias learning from one residual; the scatter is only learnt from published fixes.\<close>

definition learn_bias :: "bool \<Rightarrow> state \<Rightarrow> nat \<times> real \<Rightarrow> state" where
  "learn_bias with_mad s x =
     (let (rx, r) = x; rb = rx_bias s ! rx; k = (if rb_n rb < 50 then 0.10 else 0.02); bias = bias_s rb + k * r
      in s\<lparr>rx_bias := (rx_bias s)[rx := rb\<lparr>bias_s := bias, mad_s := (if with_mad then mad_s rb + k * (\<bar>r - bias\<bar> - mad_s rb) else mad_s rb),
           rb_n := rb_n rb + 1\<rparr>]\<rparr>)"

definition learn_biases :: "bool \<Rightarrow> solution \<Rightarrow> nat list \<Rightarrow> state \<Rightarrow> state" where
  "learn_biases with_mad sol rx_ids s =
     (if length (residuals_s sol) = length rx_ids \<and> length rx_ids \<ge> 5 \<and> err_est_m sol < 500
      then foldl (learn_bias with_mad) s (zip rx_ids (residuals_s sol)) else s)"

definition score_df17 :: "icao \<Rightarrow> real \<Rightarrow> real \<Rightarrow> nat \<Rightarrow> solution \<Rightarrow> state \<Rightarrow> state" where
  "score_df17 i now_scaled stamp n sol s =
     (case adsb_pos s i of
        None \<Rightarrow> s
      | Some (claimed, at_t) \<Rightarrow>
          if \<bar>now_scaled - at_t\<bar> < 5 then emit (SelfTruth stamp i (haversine_m (pos sol) claimed) (err_est_m sol) n) s else s)"

fun trim_fixes :: "real \<Rightarrow> fix_rec list \<Rightarrow> fix_rec list" where
  "trim_fixes now (f # g # h # fs) = (if now - fx_t f > FIT_WINDOW_S then trim_fixes now (g # h # fs) else f # g # h # fs)"
| "trim_fixes now fs = fs"

definition record_fix :: "icao \<Rightarrow> real \<Rightarrow> solution \<Rightarrow> state \<Rightarrow> state" where
  "record_fix i now_scaled sol s =
     (let t = track_of s i; a = ac_entry s i
      in s\<lparr>tracks := (tracks s)(i \<mapsto> t\<lparr>last_pos := Some (pos sol), last_time_scaled := now_scaled, last_attempt_scaled := now_scaled, speed_rejects := 0\<rparr>),
           ac_log := (ac_log s)(i \<mapsto> a\<lparr>results := results a + 1,
             al_fixes := trim_fixes now_scaled (al_fixes a @ [\<lparr>fx_t = now_scaled, fx_pos = pos sol, fx_err_m = fix_err_m sol\<rparr>])\<rparr>)\<rparr>)"

definition smooth :: "icao \<Rightarrow> real \<Rightarrow> solution \<Rightarrow> state \<Rightarrow> geodetic option \<times> state" where
  "smooth i stamp sol s =
     (if \<not> emit_filtered s then (None, s)
      else case filters s i of
             Some f \<Rightarrow> let (sm, f) = track_update f (pos sol) stamp (err_est_m sol) in (Some sm, s\<lparr>filters := (filters s)(i \<mapsto> f)\<rparr>)
           | None \<Rightarrow> (Some (pos sol), s\<lparr>filters := (filters s)(i \<mapsto> track_new (pos sol) stamp)\<rparr>))"

definition publish_fix :: "icao \<Rightarrow> real \<Rightarrow> real \<Rightarrow> int \<Rightarrow> used_obs list \<Rightarrow> nat list \<Rightarrow> solution \<Rightarrow> state \<Rightarrow> state" where
  "publish_fix i now_scaled stamp alt_ft used members sol s =
     (let s = s\<lparr>stats_solved := stats_solved s + 1\<rparr>;
          s = learn_biases True sol (map fst used) s;
          s = record_fix i now_scaled sol s;
          (sm, s) = smooth i stamp sol s
      in emit (OutFix \<lparr>or_shard = shard_id s, or_lat = lat_deg (pos sol), or_lon = lon_deg (pos sol), or_icao = i, or_stamp = stamp,
           or_alt_ft = alt_ft, or_err_m = err_est_m sol, or_nstations = length used, or_users = map (\<lambda>u. fst (snd (snd u))) used,
           or_filtered = sm, or_recipients = recipients s members (pos sol)\<rparr>) s)"

text \<open>The publication gates on a solution, in the order of the code.\<close>

definition judge_fix ::
  "icao \<Rightarrow> bool \<Rightarrow> real \<Rightarrow> real \<Rightarrow> int \<Rightarrow> ac_track \<Rightarrow> prediction option \<Rightarrow> used_obs list \<Rightarrow> (nat \<times> real) list \<Rightarrow> nat list \<Rightarrow> solution \<Rightarrow> state \<Rightarrow> state" where
  "judge_fix i df17 now_scaled stamp alt_ft trk gate used benched members sol s =
     (let elapsed = now_scaled - last_time_scaled trk; alt = of_int alt_ft * 0.3048
      in if err_est_m sol > MAX_ERR_M then reject s
         else if last_pos trk \<noteq> None \<and> elapsed / 20 < err_est_m sol / THROTTLE_SCALE_M then reject s
         else if (case gate of None \<Rightarrow> False | Some g \<Rightarrow> \<not> four_rx_consistent g sol) then reject s
         else if too_fast trk elapsed sol then speed_reject i s
         else let s = (if length used \<ge> 5 \<and> err_est_m sol < 150 then foldl (train_benched sol alt) s benched else s)
              in if df17 then score_df17 i now_scaled stamp (length used) sol (learn_biases False sol (map fst used) s)
                 else publish_fix i now_scaled stamp alt_ft used members sol s)"

definition solve_cluster ::
  "state \<Rightarrow> real \<Rightarrow> icao \<Rightarrow> bool \<Rightarrow> nat \<Rightarrow> (nat \<times> real \<times> real \<times> real) list \<Rightarrow> nat list \<Rightarrow> state" where
  "solve_cluster s now i df17 local_ref cluster members =
     (let (used, benched) = gather s cluster {}
      in if length used < 4 then s
         else let t_ref_min = min_of (map (\<lambda>u. t_s (fst (snd u))) used);
                  delta = min_of (map (\<lambda>u. snd (snd (snd u))) used) - t_ref_min;
                  off = next_offset (stamp_offset s local_ref) delta;
                  s = s\<lparr>stamp_offset := (stamp_offset s)(local_ref \<mapsto> off)\<rparr>;
                  stamp = t_ref_min + off;
                  used = keep_best used;
                  now_scaled = scaled_now s now;
                  trk = track_of s i;
                  s = s\<lparr>tracks := (tracks s)(i \<mapsto> trk)\<rparr>
              in case alts_ft s i of
                   None \<Rightarrow> s
                 | Some alt_ft \<Rightarrow>
                     let alt = of_int alt_ft * 0.3048;
                         gate = (if length used = 4 then track_prediction s i alt now_scaled else None);
                         last_attempt = (if gate \<noteq> None then max (last_attempt_scaled trk) (last_gated_attempt_scaled trk) else last_attempt_scaled trk)
                     in if now_scaled - last_attempt < RESOLVE_BACKOFF_S then s
                        else let s = s\<lparr>tracks := (tracks s)(i \<mapsto> if gate \<noteq> None then trk\<lparr>last_gated_attempt_scaled := now_scaled\<rparr>
                                                                     else trk\<lparr>last_attempt_scaled := now_scaled\<rparr>)\<rparr>;
                                 init = start_position s trk now_scaled alt (map fst used)
                             in case solve_robust (map (\<lambda>u. fst (snd u)) used) alt init of
                                  None \<Rightarrow> reject s
                                | Some sol \<Rightarrow> judge_fix i df17 now_scaled stamp alt_ft trk gate used benched members sol s)"

subsection \<open>One group\<close>

definition firsts :: "'a list \<Rightarrow> 'a list" where
  "firsts xs = foldl (\<lambda>ms x. if x \<in> set ms then ms else ms @ [x]) [] xs"

definition pair_usable :: "state \<Rightarrow> nat \<times> nat \<Rightarrow> bool" where
  "pair_usable s k = (case pairs s k of None \<Rightarrow> False | Some m \<Rightarrow> usable m)"

definition pair_convert :: "state \<Rightarrow> nat \<times> nat \<Rightarrow> real \<Rightarrow> (real \<times> real) option" where
  "pair_convert s k t = (case pairs s k of None \<Rightarrow> None | Some m \<Rightarrow> convert m t)"

definition elect_local_ref :: "state \<Rightarrow> nat list \<Rightarrow> nat option" where
  "elect_local_ref s members =
     max_by_key (\<lambda>cand. length (filter (\<lambda>other. other \<noteq> cand \<and> pair_usable s (other, cand)) members)) members"

definition two_hop :: "state \<Rightarrow> nat list \<Rightarrow> nat \<Rightarrow> nat \<Rightarrow> real \<Rightarrow> (real \<times> real) option" where
  "two_hop s members rx ref t =
     foldl (\<lambda>best h.
       if h = rx \<or> h = ref then best
       else case pair_convert s (rx, h) t of
              None \<Rightarrow> best
            | Some (t1, s1) \<Rightarrow>
                (case pair_convert s (h, ref) t1 of
                   None \<Rightarrow> best
                 | Some (t2, s2) \<Rightarrow>
                     let sig = sqrt (s1 * s1 + s2 * s2)
                     in case best of None \<Rightarrow> Some (t2, sig) | Some (_, bs) \<Rightarrow> if sig < bs then Some (t2, sig) else best)) None members"

definition to_ref :: "state \<Rightarrow> nat list \<Rightarrow> nat \<Rightarrow> nat \<Rightarrow> real \<Rightarrow> (real \<times> real) option" where
  "to_ref s members ref rx t =
     (if rx = ref then Some (t, jitter_s (st_receivers s ! rx))
      else case pair_convert s (rx, ref) t of Some direct \<Rightarrow> Some direct | None \<Rightarrow> two_hop s members rx ref t)"

definition converted :: "state \<Rightarrow> nat list \<Rightarrow> nat \<Rightarrow> (nat \<times> real \<times> real) list \<Rightarrow> (nat \<times> real \<times> real \<times> real) list" where
  "converted s members ref es =
     List.map_filter (\<lambda>(rx, t, at_t). map_option (\<lambda>(t', sigma). (rx, t', max sigma (jitter_s (st_receivers s ! rx)), at_t)) (to_ref s members ref rx t)) es"

function clusters :: "(nat \<times> real \<times> real \<times> real) list \<Rightarrow> (nat \<times> real \<times> real \<times> real) list list" where
  "clusters [] = []"
| "clusters (c # cs) =
     (c # takeWhile (\<lambda>d. fst (snd d) - fst (snd c) \<le> CLUSTER_SPAN_S) cs)
       # clusters (dropWhile (\<lambda>d. fst (snd d) - fst (snd c) \<le> CLUSTER_SPAN_S) cs)"
  by pat_completeness auto
termination
  by (relation "measure length") (auto intro: le_less_trans [OF length_dropWhile_le])

text \<open>
  \<open>solve_cluster\<close> reads the clock anew for each cluster that has four receivers; \<open>clk n\<close> is the
  reading for the \<open>n\<close>-th cluster of the group.
\<close>

definition solve_group :: "(nat \<Rightarrow> real) \<Rightarrow> state \<Rightarrow> rx_group \<Rightarrow> state" where
  "solve_group clk s g =
     (let members = firsts (map fst (g_entries g))
      in if length members < 4 then s
         else case elect_local_ref s members of
                None \<Rightarrow> s
              | Some ref \<Rightarrow>
                  let conv = converted s members ref (g_entries g)
                  in if length conv < 4 then s
                     else foldl (\<lambda>s (n, cl). solve_cluster s (clk n) (g_icao g) (g_df17 g) ref cl members) s
                            (enumerate 0 (clusters (sort_key (\<lambda>c. fst (snd c)) conv))))"

definition take_group :: "(string \<Rightarrow> nat \<Rightarrow> real) \<Rightarrow> state \<Rightarrow> string \<Rightarrow> state" where
  "take_group clk s key =
     (case groups s key of
        None \<Rightarrow> s
      | Some g \<Rightarrow> solve_group (clk key) (s\<lparr>groups := (groups s)(key := None)\<rparr>) g)"

definition ready_groups :: "state \<Rightarrow> real \<Rightarrow> real \<Rightarrow> string set" where
  "ready_groups s now window = {k. \<exists>g. groups s k = Some g \<and> now - g_created g \<ge> window}"

text \<open>The clock readings of a sweep: at its start, for the expiry, and for each cluster of each group.\<close>

record sweep_clock =
  at_start :: real
  at_expiry :: real
  at_cluster :: "string \<Rightarrow> nat \<Rightarrow> real"

definition sweep :: "string list \<Rightarrow> state \<Rightarrow> sweep_clock \<Rightarrow> state" where
  "sweep ready s c =
     (let now = at_start c;
          s = s\<lparr>syncpoints := retain (\<lambda>_ sp. now - sp_created sp < 4) (syncpoints s)\<rparr>;
          s = (if now - last_expire s \<ge> EXPIRE_EVERY_S then expire_at (s\<lparr>last_expire := now\<rparr>) (scaled_now s (at_expiry c)) else s)
      in foldl (take_group (at_cluster c)) s ready)"

subsection \<open>Clusters and selections\<close>

lemma firsts_snoc: "firsts (xs @ [x]) = (if x \<in> set (firsts xs) then firsts xs else firsts xs @ [x])"
  by (simp add: firsts_def)

lemma firsts_set: "set (firsts xs) = set xs" and firsts_distinct: "distinct (firsts xs)"
  by (induction xs rule: rev_induct) (auto simp: firsts_snoc firsts_def [of "[]"])

lemma concat_clusters: "concat (clusters cs) = cs"
  by (induction cs rule: clusters.induct) simp_all

lemma clusters_nonempty: "cl \<in> set (clusters cs) \<Longrightarrow> cl \<noteq> []"
  by (induction cs rule: clusters.induct) auto

lemma clusters_sub: "cl \<in> set (clusters cs) \<Longrightarrow> set cl \<subseteq> set cs"
  using concat_clusters [of cs] by (metis UN_upper set_concat)

lemma clusters_span: "cl \<in> set (clusters cs) \<Longrightarrow> c \<in> set cl \<Longrightarrow> fst (snd c) - fst (snd (hd cl)) \<le> CLUSTER_SPAN_S"
  by (induction cs rule: clusters.induct) (auto simp: CLUSTER_SPAN_S_def dest: set_takeWhileD)

lemma gather_used:
  "u \<in> set (fst (gather s cs sn)) \<Longrightarrow>
    fst u \<notin> sn \<and> alive s ! fst u \<and> \<not> quarantined (rx_bias s ! fst u) \<and> fst u \<in> fst ` set cs"
  by (induction s cs sn arbitrary: u rule: gather.induct) (fastforce simp: Let_def split: prod.splits if_splits)+

lemma gather_distinct: "distinct (map fst (fst (gather s cs sn)))"
proof (induction s cs sn rule: gather.induct)
  case (2 s rx t sigma at_t cs sn)
  have "rx \<notin> fst ` set (fst (gather s cs (insert rx sn)))"
    using gather_used [of _ s cs "insert rx sn"] by auto
  with 2 show ?case
    by (auto simp: Let_def split: prod.splits)
qed simp

lemma keep_best_length: "length (keep_best xs) = min 16 (length xs)"
  by (simp add: keep_best_def)

lemma keep_best_index:
  assumes "16 < length xs"
  obtains ixs where "keep_best xs = map (\<lambda>i. xs ! i) ixs" "distinct ixs" "set ixs \<subseteq> {0..<length xs}"
proof -
  let ?ixs = "sort (take 16 (sort_key (\<lambda>i. err_s (fst (snd (xs ! i)))) [0..<length xs]))"
  have "set ?ixs \<subseteq> {0..<length xs}"
    using set_take_subset by fastforce
  then show thesis
    using assms by (intro that [of ?ixs]) (simp_all add: keep_best_def)
qed

lemma keep_best_sub: "set (keep_best xs) \<subseteq> set xs"
proof (cases "16 < length xs")
  case True
  then show ?thesis
    by (rule keep_best_index) auto
qed (simp add: keep_best_def)

lemma keep_best_distinct: "distinct (map fst xs) \<Longrightarrow> distinct (map fst (keep_best xs))"
proof (cases "16 < length xs")
  case True
  assume d: "distinct (map fst xs)"
  from True obtain ixs where i: "keep_best xs = map (\<lambda>i. xs ! i) ixs" "distinct ixs" "set ixs \<subseteq> {0..<length xs}"
    by (rule keep_best_index)
  have "inj_on (\<lambda>i. fst (xs ! i)) (set ixs)"
    using d i(3) by (auto simp: inj_on_def distinct_conv_nth subset_iff)
  then show ?thesis
    using i by (simp add: distinct_map comp_def)
qed (simp add: keep_best_def)

lemma solved_in_range:
  assumes "solve_robust obs alt init = Some sol"
  shows "\<bar>lat_deg (pos sol)\<bar> \<le> 90" "- 180 \<le> lon_deg (pos sol)" "lon_deg (pos sol) < 180"
    "length (residuals_s sol) = length obs \<or> length (residuals_s sol) = length obs - 1" "rms_s sol \<le> MAX_RMS_S"
  using solve_robust_sound [OF assms] by (auto simp: sound_fix_def length_drop_nth)

subsection \<open>Steps that keep the state well-formed\<close>

lemma tame_reject: "tame s (reject s)"
  by (rule tame_data) (simp_all add: reject_def same_slots_def)

lemma tame_emit: "tame s (emit m s)"
  by (rule tame_data) (simp_all add: emit_def same_slots_def)

lemma tame_speed_reject: "tame s (speed_reject i s)"
proof (cases "ac_log s i")
  case None
  then show ?thesis
    by (intro tame_data) (auto simp: speed_reject_def reject_def same_slots_def Let_def)
next
  case (Some a)
  show ?thesis
    by (rule tame_ac_log [where i = i and a = "if speed_rejects (track_of s i) \<ge> 4 then a\<lparr>al_fixes := []\<rparr> else a"])
      (use Some in \<open>auto simp: speed_reject_def reject_def same_slots_def Let_def ac_entry_def fun_upd_idem split: if_splits\<close>)
qed

lemma tame_train_benched: "tame s (foldl (train_benched sol alt) s bs)"
  by (rule tame_fold, rule tame_data) (auto simp: train_benched_def same_slots_def Let_def split: prod.split)

lemma tame_learn_biases: "tame s (learn_biases b sol rx_ids s)"
proof -
  have "tame s (foldl (learn_bias b) s xs)" for xs
    by (rule tame_fold, rule tame_data) (auto simp: learn_bias_def same_slots_def Let_def split: prod.split)
  then show ?thesis
    by (simp add: learn_biases_def)
qed

lemma tame_score_df17: "tame s (score_df17 i now stamp n sol s)"
  by (auto simp: score_df17_def tame_emit split: option.split)

lemma tame_record_fix: "tame s (record_fix i now sol s)"
  by (rule tame_ac_log) (auto simp: record_fix_def same_slots_def Let_def)

lemma tame_smooth: "tame s (snd (smooth i stamp sol s))"
  by (rule tame_data) (auto simp: smooth_def same_slots_def Let_def split: option.split prod.split)

lemma tame_publish: "tame s (publish_fix i now stamp alt used members sol s)"
proof -
  have 0: "tame s (s\<lparr>stats_solved := n\<rparr>)" for s n
    by (rule tame_data) (simp_all add: same_slots_def)
  show ?thesis
    unfolding publish_fix_def Let_def
    by (auto split: prod.split intro!: tame_trans [OF _ tame_emit])
      (metis 0 snd_conv tame_learn_biases tame_record_fix tame_smooth tame_trans)
qed

lemma tame_judge: "tame s (judge_fix i df17 now stamp alt trk gate used benched members sol s)"
proof -
  let ?s = "if length used \<ge> 5 \<and> err_est_m sol < 150 then foldl (train_benched sol (of_int alt * 0.3048)) s benched else s"
  have 1: "tame s ?s"
    by (simp add: tame_train_benched)
  show ?thesis
    unfolding judge_fix_def Let_def
    using tame_reject tame_speed_reject tame_trans [OF 1 tame_publish] tame_trans [OF 1 tame_trans [OF tame_learn_biases tame_score_df17]]
    by simp
qed

lemma tame_solve_cluster:
  assumes "occ s ref"
  shows "tame s (solve_cluster s now i df17 ref cl members)"
proof -
  have off: "tame s (s\<lparr>stamp_offset := (stamp_offset s)(ref \<mapsto> off)\<rparr>)" for off
  proof (rule tameI)
    show "same_slots s (s\<lparr>stamp_offset := (stamp_offset s)(ref \<mapsto> off)\<rparr>)"
      by (simp add: same_slots_def)
    assume "state_ok s"
    note R = refs_okD [OF state_okD(2) [OF this]]
    show "refs_ok (s\<lparr>stamp_offset := (stamp_offset s)(ref \<mapsto> off)\<rparr>)"
      by (rule refs_okI; use assms in \<open>simp add: occ_def split: if_splits\<close>)
        (erule R(1) R(5) | erule (1) R(2) R(3) R(4))+
  qed
  have trk: "tame s (s\<lparr>tracks := m\<rparr>)" for s m
    by (rule tame_data) (simp_all add: same_slots_def)
  have o2: "tame s (s\<lparr>stamp_offset := (stamp_offset s)(ref \<mapsto> off), tracks := m\<rparr>)" for off m
    using tame_trans [OF off trk] by simp
  show ?thesis
    unfolding solve_cluster_def Let_def
    by (auto split: prod.split option.split intro: o2 tame_trans [OF o2 tame_reject] tame_trans [OF o2 tame_judge])
qed

lemma tame_solve_group:
  assumes "\<forall>e \<in> set (g_entries g). occ s (fst e)"
  shows "tame s (solve_group clk s g)"
proof -
  have ref: "occ s ref" if "elect_local_ref s (firsts (map fst (g_entries g))) = Some ref" for ref
    using max_by_key_Some [OF that [unfolded elect_local_ref_def]] assms by (auto simp: firsts_set)
  have "tame s (foldl (\<lambda>s (n, cl). solve_cluster s (clk n) (g_icao g) (g_df17 g) ref cl members) s cls)" if "occ s ref" for ref members cls
  proof (rule map_foldl_invariant [where P = "tame s"])
    fix s' x assume t: "tame s s'"
    show "tame s (case x of (n, cl) \<Rightarrow> solve_cluster s' (clk n) (g_icao g) (g_df17 g) ref cl members)"
      unfolding case_prod_beta by (rule tame_trans [OF t tame_solve_cluster]) (use that occ_tame [OF t] in simp)
  qed simp
  then show ?thesis
    using ref by (auto simp: solve_group_def Let_def split: option.split)
qed

lemma tame_drop_group: "tame s (s\<lparr>groups := (groups s)(k := None)\<rparr>)"
proof (rule tameI)
  assume "state_ok s"
  note R = refs_okD [OF state_okD(2) [OF this]]
  show "refs_ok (s\<lparr>groups := (groups s)(k := None)\<rparr>)"
    by (rule refs_okI; simp split: if_splits) (erule R(1) R(5) | erule (1) R(2) R(3) R(4))+
qed (simp add: same_slots_def)

lemma tame_take_group:
  assumes "state_ok s"
  shows "tame s (take_group clk s k)"
proof (cases "groups s k")
  case (Some g)
  have "\<forall>e \<in> set (g_entries g). occ s (fst e)"
    using refs_okD(3) [OF state_okD(2) [OF assms] Some] by (simp add: occ_def)
  then have "tame s (solve_group (clk k) (s\<lparr>groups := (groups s)(k := None)\<rparr>) g)"
    using tame_trans [OF tame_drop_group tame_solve_group] occ_tame [OF tame_drop_group] by simp
  then show ?thesis
    using Some by (simp add: take_group_def)
qed (simp add: take_group_def)

lemma tame_sweep:
  assumes ok: "state_ok s"
  shows "tame s (sweep ready s c)"
proof -
  define now where "now = at_start c"
  define s1 where "s1 = s\<lparr>syncpoints := retain (\<lambda>_ sp. now - sp_created sp < 4) (syncpoints s)\<rparr>"
  have 1: "tame s s1"
  proof (rule tameI)
    note R = refs_okD [OF state_okD(2) [OF ok]]
    show "refs_ok s1"
      by (rule refs_okI; simp add: s1_def) (erule R(1) R(5) | erule (1) R(3) R(4) | erule conjE, erule (1) R(2))+
  qed (simp add: s1_def same_slots_def)
  define s2 where "s2 = (if now - last_expire s1 \<ge> EXPIRE_EVERY_S then expire_at (s1\<lparr>last_expire := now\<rparr>) (scaled_now s1 (at_expiry c)) else s1)"
  have "tame s1 (s1\<lparr>last_expire := now\<rparr>)"
    by (rule tame_data) (simp_all add: same_slots_def)
  then have 2: "tame s s2"
    unfolding s2_def using tame_trans [OF 1] tame_trans [OF _ tame_expire] 1 by simp
  have "tame s (foldl (take_group (at_cluster c)) s2 ready)"
  proof (rule map_foldl_invariant [where P = "tame s"])
    fix s' k assume t: "tame s s'"
    show "tame s (take_group (at_cluster c) s' k)"
      by (rule tame_trans [OF t tame_take_group [OF tame_ok [OF t ok]]])
  qed (rule 2)
  then show ?thesis
    unfolding sweep_def Let_def s2_def s1_def now_def .
qed


subsection \<open>What a cluster may send out\<close>

text \<open>What the learning steps leave alone.\<close>

definition only_biases :: "state \<Rightarrow> state \<Rightarrow> bool" where
  "only_biases s s' \<longleftrightarrow> (\<exists>b. s' = s\<lparr>rx_bias := b\<rparr>)"

lemma only_biases_refl [simp]: "only_biases s s"
  unfolding only_biases_def by (rule exI [of _ "rx_bias s"]) simp

lemma only_biases_trans: "only_biases s s' \<Longrightarrow> only_biases s' s'' \<Longrightarrow> only_biases s s''"
  by (auto simp: only_biases_def)

lemma only_biases_fold: "(\<And>s x. only_biases s (f s x)) \<Longrightarrow> only_biases s (foldl f s xs)"
  by (rule map_foldl_invariant [where P = "only_biases s"]) (auto intro: only_biases_trans)

lemma only_biases_learn: "only_biases s (learn_biases b sol ids s)"
  by (auto simp: learn_biases_def learn_bias_def only_biases_def [of "_ :: state" "_\<lparr>rx_bias := _\<rparr>"] Let_def
      split: prod.split intro!: only_biases_fold)

lemma only_biases_benched: "only_biases s (foldl (train_benched sol alt) s bs)"
  by (rule only_biases_fold) (auto simp: train_benched_def only_biases_def Let_def split: prod.split)

lemma only_biases_frame:
  assumes "only_biases s s'"
  shows "out s' = out s" "tracks s' = tracks s" "scaled_now s' = scaled_now s" "track_of s' = track_of s" "shard_id s' = shard_id s"
    "st_receivers s' = st_receivers s" "alive s' = alive s" "adsb_pos s' = adsb_pos s"
  using assms by (auto simp: only_biases_def scaled_now_def track_of_def fun_eq_iff)

text \<open>The time of the last ungated attempt on an aircraft, and the messages a step adds.\<close>

definition attempt :: "state \<Rightarrow> icao \<Rightarrow> real" where
  "attempt s i = last_attempt_scaled (track_of s i)"

definition sends :: "state \<Rightarrow> state \<Rightarrow> out_msg list \<Rightarrow> bool" where
  "sends s s' ms \<longleftrightarrow> out s' = map_option (\<lambda>xs. xs @ ms) (out s)"

definition rows :: "out_msg list \<Rightarrow> out_row list" where
  "rows ms = List.map_filter (\<lambda>m. case m of OutFix r \<Rightarrow> Some r | SelfTruth _ _ _ _ _ \<Rightarrow> None) ms"

lemma rows_simps [simp]:
  "rows [] = []" "rows (OutFix r # ms) = r # rows ms" "rows (SelfTruth a b c d e # ms) = rows ms" "rows (ms @ ns) = rows ms @ rows ns"
  by (simp_all add: rows_def List.map_filter_def)

lemma sends_Nil: "out s' = out s \<Longrightarrow> sends s s' []"
  by (simp add: sends_def option.map_ident)

lemma sends_trans: "sends s s' ms \<Longrightarrow> sends s' s'' ns \<Longrightarrow> sends s s'' (ms @ ns)"
  by (simp add: sends_def option.map_comp comp_def)


lemma record_fix_frame:
  "out (record_fix i t sol s) = out s" "scaled_now (record_fix i t sol s) = scaled_now s" "shard_id (record_fix i t sol s) = shard_id s"
  "st_receivers (record_fix i t sol s) = st_receivers s" "alive (record_fix i t sol s) = alive s"
  "attempt (record_fix i t sol s) = (attempt s)(i := t)"
  by (simp_all add: record_fix_def scaled_now_def attempt_def track_of_def fun_eq_iff Let_def)

lemma smooth_frame:
  assumes "smooth i t sol s = (sm, s')"
  shows "out s' = out s" "scaled_now s' = scaled_now s" "shard_id s' = shard_id s" "st_receivers s' = st_receivers s" "alive s' = alive s"
    "attempt s' = attempt s"
  using assms
  by (auto simp: smooth_def scaled_now_def attempt_def track_of_def fun_eq_iff Let_def split: if_splits option.splits prod.splits)

lemma recipients_frame: "st_receivers s' = st_receivers s \<Longrightarrow> alive s' = alive s \<Longrightarrow> recipients s' = recipients s"
  by (simp add: recipients_def fun_eq_iff)

lemma emit_frame: "scaled_now (emit m s) = scaled_now s" "attempt (emit m s) = attempt s" "sends s (emit m s) [m]"
  by (simp_all add: emit_def scaled_now_def attempt_def track_of_def fun_eq_iff sends_def)

lemma only_biases_attempt: "only_biases s s' \<Longrightarrow> attempt s' = attempt s"
  by (simp add: attempt_def only_biases_frame fun_eq_iff)

definition row_of :: "state \<Rightarrow> icao \<Rightarrow> real \<Rightarrow> int \<Rightarrow> used_obs list \<Rightarrow> nat list \<Rightarrow> solution \<Rightarrow> geodetic option \<Rightarrow> out_row" where
  "row_of s i stamp alt_ft used members sol sm =
     \<lparr>or_shard = shard_id s, or_lat = lat_deg (pos sol), or_lon = lon_deg (pos sol), or_icao = i, or_stamp = stamp,
      or_alt_ft = alt_ft, or_err_m = err_est_m sol, or_nstations = length used, or_users = map (\<lambda>u. fst (snd (snd u))) used,
      or_filtered = sm, or_recipients = recipients s members (pos sol)\<rparr>"

lemma publish_sends:
  fixes i t stamp alt used members sol s
  defines "s' \<equiv> publish_fix i t stamp alt used members sol s"
  shows "\<exists>sm. sends s s' [OutFix (row_of s i stamp alt used members sol sm)]"
    and "scaled_now s' = scaled_now s" and "attempt s' = (attempt s)(i := t)"
proof -
  define s1 where "s1 = learn_biases True sol (map fst used) (s\<lparr>stats_solved := stats_solved s + 1\<rparr>)"
  note f1 = only_biases_frame [OF only_biases_learn [of "s\<lparr>stats_solved := stats_solved s + 1\<rparr>" True sol "map fst used", folded s1_def]]
  obtain sm s2 where s2: "smooth i stamp sol (record_fix i t sol s1) = (sm, s2)"
    by fastforce
  note f2 = smooth_frame [OF s2, unfolded record_fix_frame f1]
  have s': "s' = emit (OutFix (row_of s2 i stamp alt used members sol sm)) s2"
    unfolding s'_def publish_fix_def Let_def s1_def [symmetric] s2 by (simp add: row_of_def)
  have "row_of s2 i stamp alt used members sol sm = row_of s i stamp alt used members sol sm"
    using f2 recipients_frame [of s2 s] by (simp add: row_of_def)
  then show "\<exists>sm. sends s s' [OutFix (row_of s i stamp alt used members sol sm)]"
    unfolding s' using f2(1) by (intro exI [of _ sm]) (simp add: sends_def emit_def)
  have "attempt s1 = attempt s"
    by (simp add: attempt_def f1 fun_eq_iff) (simp add: track_of_def)
  then show "scaled_now s' = scaled_now s" "attempt s' = (attempt s)(i := t)"
    unfolding s' using f2 by (simp_all add: emit_frame) (simp add: scaled_now_def fun_eq_iff)
qed

text \<open>The publication gates of the code, all passed.\<close>

definition passes :: "ac_track \<Rightarrow> real \<Rightarrow> prediction option \<Rightarrow> solution \<Rightarrow> bool" where
  "passes trk now_scaled gate sol \<longleftrightarrow>
     (let elapsed = now_scaled - last_time_scaled trk
      in \<not> err_est_m sol > MAX_ERR_M \<and> \<not> (last_pos trk \<noteq> None \<and> elapsed / 20 < err_est_m sol / THROTTLE_SCALE_M) \<and>
         \<not> (case gate of None \<Rightarrow> False | Some g \<Rightarrow> \<not> four_rx_consistent g sol) \<and> \<not> too_fast trk elapsed sol)"

lemma speed_reject_frame:
  "out (speed_reject i s) = out s" "scaled_now (speed_reject i s) = scaled_now s" "attempt (speed_reject i s) = attempt s"
  by (auto simp: speed_reject_def reject_def scaled_now_def attempt_def track_of_def fun_eq_iff Let_def)

lemma reject_frame: "out (reject s) = out s" "scaled_now (reject s) = scaled_now s" "attempt (reject s) = attempt s"
  by (simp_all add: reject_def scaled_now_def attempt_def track_of_def fun_eq_iff)

lemma score_df17_sends:
  "\<exists>ms. length ms \<le> 1 \<and> rows ms = [] \<and> sends s (score_df17 i t stamp n sol s) ms"
  "scaled_now (score_df17 i t stamp n sol s) = scaled_now s" "attempt (score_df17 i t stamp n sol s) = attempt s"
proof -
  show "\<exists>ms. length ms \<le> 1 \<and> rows ms = [] \<and> sends s (score_df17 i t stamp n sol s) ms"
  proof (cases "score_df17 i t stamp n sol s = s")
    case True
    then show ?thesis
      by (intro exI [of _ "[]"]) (simp add: sends_Nil)
  next
    case False
    then obtain a b c d e where "score_df17 i t stamp n sol s = emit (SelfTruth a b c d e) s"
      by (auto simp: score_df17_def split: option.splits if_splits)
    then show ?thesis
      by (intro exI [of _ "[SelfTruth a b c d e]"]) (simp add: emit_frame)
  qed
qed (auto simp: score_df17_def emit_frame split: option.split)

lemma judge_sends:
  fixes i df17 t stamp alt trk gate used benched members sol s
  defines "s' \<equiv> judge_fix i df17 t stamp alt trk gate used benched members sol s"
  shows "\<exists>ms. length ms \<le> 1 \<and> sends s s' ms \<and> (\<forall>r \<in> set (rows ms). \<not> df17 \<and> passes trk t gate sol \<and>
      (\<exists>sm. r = row_of s i stamp alt used members sol sm) \<and> attempt s' i = t)"
    and "scaled_now s' = scaled_now s" and "attempt s' = attempt s \<or> attempt s' = (attempt s)(i := t)"
proof -
  define s1 where "s1 = (if length used \<ge> 5 \<and> err_est_m sol < 150 then foldl (train_benched sol (of_int alt * 0.3048)) s benched else s)"
  define s2 where "s2 = learn_biases False sol (map fst used) s1"
  have b1: "only_biases s s1"
    by (simp add: s1_def only_biases_benched)
  have b2: "only_biases s s2"
    unfolding s2_def by (rule only_biases_trans [OF b1 only_biases_learn])
  note f = only_biases_frame [OF b1] only_biases_frame [OF b2] only_biases_attempt [OF b1] only_biases_attempt [OF b2]
  consider "s' = reject s \<or> s' = speed_reject i s" | "df17" "s' = score_df17 i t stamp (length used) sol s2"
    | "\<not> df17" "passes trk t gate sol" "s' = publish_fix i t stamp alt used members sol s1"
  proof -
    have "s' = reject s \<or> s' = speed_reject i s" if "\<not> passes trk t gate sol"
      using that unfolding s'_def judge_fix_def Let_def passes_def by presburger
    moreover have "s' = (if df17 then score_df17 i t stamp (length used) sol s2 else publish_fix i t stamp alt used members sol s1)"
      if "passes trk t gate sol"
      using that unfolding s'_def judge_fix_def Let_def s1_def [symmetric] s2_def [symmetric] passes_def by presburger
    ultimately show thesis
      using that by (cases "passes trk t gate sol"; cases df17) auto
  qed
  then have "(\<exists>ms. length ms \<le> 1 \<and> sends s s' ms \<and> (\<forall>r \<in> set (rows ms). \<not> df17 \<and> passes trk t gate sol \<and>
      (\<exists>sm. r = row_of s i stamp alt used members sol sm) \<and> attempt s' i = t)) \<and>
    scaled_now s' = scaled_now s \<and> (attempt s' = attempt s \<or> attempt s' = (attempt s)(i := t))"
  proof cases
    case 1
    then show ?thesis
      by (intro conjI exI [of _ "[]"]) (auto simp: sends_Nil reject_frame speed_reject_frame)
  next
    case 2
    obtain ms where "length ms \<le> 1" "rows ms = []" "sends s2 s' ms"
      using score_df17_sends(1) 2(2) by blast
    then show ?thesis
      by (intro conjI exI [of _ ms]) (use f in \<open>auto simp: sends_def 2(2) score_df17_sends(2,3)\<close>)
  next
    case 3
    note P = publish_sends [where s = s1 and i = i and t = t and stamp = stamp and alt = alt and used = used and members = members and sol = sol, folded 3(3)]
    obtain sm where sm: "sends s1 s' [OutFix (row_of s1 i stamp alt used members sol sm)]"
      using P(1) by blast
    have "row_of s1 i stamp alt used members sol sm = row_of s i stamp alt used members sol sm"
      using f recipients_frame [of s1 s] by (simp add: row_of_def)
    with sm show ?thesis
      by (intro conjI exI [of _ "[OutFix (row_of s i stamp alt used members sol sm)]"])
        (use 3(1,2) f P(2,3) in \<open>auto simp: sends_def\<close>)
  qed
  then show "\<exists>ms. length ms \<le> 1 \<and> sends s s' ms \<and> (\<forall>r \<in> set (rows ms). \<not> df17 \<and> passes trk t gate sol \<and>
      (\<exists>sm. r = row_of s i stamp alt used members sol sm) \<and> attempt s' i = t)"
    "scaled_now s' = scaled_now s" "attempt s' = attempt s \<or> attempt s' = (attempt s)(i := t)"
    by blast+
qed

text \<open>Why a row goes out: a solution of the selected observations, at the known altitude, past every gate.\<close>

definition justified :: "state \<Rightarrow> real \<Rightarrow> icao \<Rightarrow> used_obs list \<Rightarrow> nat list \<Rightarrow> out_row \<Rightarrow> bool" where
  "justified s now i used members r \<longleftrightarrow>
     (\<exists>sol alt stamp sm init. alts_ft s i = Some alt \<and> 4 \<le> length used \<and>
        solve_robust (map (\<lambda>u. fst (snd u)) used) (of_int alt * 0.3048) init = Some sol \<and>
        RESOLVE_BACKOFF_S \<le> scaled_now s now - attempt s i \<and>
        passes (track_of s i) (scaled_now s now)
          (if length used = 4 then track_prediction s i (of_int alt * 0.3048) (scaled_now s now) else None) sol \<and>
        r = row_of s i stamp alt used members sol sm)"

lemma attempt_tracks: "attempt (s\<lparr>tracks := (tracks s)(i \<mapsto> t)\<rparr>) = (attempt s)(i := last_attempt_scaled t)"
  by (simp add: attempt_def track_of_def fun_eq_iff)



lemma receiver_centroid_frame:
  "receiver_centroid (s\<lparr>stamp_offset := o1\<rparr>) = receiver_centroid s" "receiver_centroid (s\<lparr>tracks := m\<rparr>) = receiver_centroid s"
  by (simp_all add: receiver_centroid_def fun_eq_iff)

lemma stamp_tracks_frame:
  "scaled_now (s\<lparr>stamp_offset := o1\<rparr>) = scaled_now s" "scaled_now (s\<lparr>tracks := m\<rparr>) = scaled_now s"
  "track_of (s\<lparr>stamp_offset := o1\<rparr>) = track_of s"
  "track_prediction (s\<lparr>stamp_offset := o1\<rparr>) = track_prediction s" "track_prediction (s\<lparr>tracks := m\<rparr>) = track_prediction s"
  "start_position (s\<lparr>stamp_offset := o1\<rparr>) = start_position s" "start_position (s\<lparr>tracks := m\<rparr>) = start_position s"
  by (simp_all add: scaled_now_def track_of_def track_prediction_def start_position_def receiver_centroid_frame fun_eq_iff split: option.split)

text \<open>\<open>solve_cluster\<close> without the local states: the gates of an attempt, in order.\<close>

definition cluster_used :: "state \<Rightarrow> (nat \<times> real \<times> real \<times> real) list \<Rightarrow> used_obs list" where
  "cluster_used s cl = keep_best (fst (gather s cl {}))"

definition gate_for :: "state \<Rightarrow> icao \<Rightarrow> used_obs list \<Rightarrow> int \<Rightarrow> real \<Rightarrow> prediction option" where
  "gate_for s i used alt t = (if length used = 4 then track_prediction s i (of_int alt * 0.3048) t else None)"

definition last_try :: "state \<Rightarrow> icao \<Rightarrow> prediction option \<Rightarrow> real" where
  "last_try s i gate =
     (if gate \<noteq> None then max (last_attempt_scaled (track_of s i)) (last_gated_attempt_scaled (track_of s i)) else last_attempt_scaled (track_of s i))"

definition tried :: "state \<Rightarrow> icao \<Rightarrow> prediction option \<Rightarrow> real \<Rightarrow> ac_track" where
  "tried s i gate t =
     (if gate \<noteq> None then (track_of s i)\<lparr>last_gated_attempt_scaled := t\<rparr> else (track_of s i)\<lparr>last_attempt_scaled := t\<rparr>)"

definition cluster_solution :: "state \<Rightarrow> icao \<Rightarrow> used_obs list \<Rightarrow> int \<Rightarrow> real \<Rightarrow> solution option" where
  "cluster_solution s i used alt t =
     solve_robust (map (\<lambda>u. fst (snd u)) used) (of_int alt * 0.3048) (start_position s (track_of s i) t (of_int alt * 0.3048) (map fst used))"

lemma solve_cluster_flat:
  fixes s now i df17 ref cl members
  defines "used \<equiv> cluster_used s cl" and "t \<equiv> scaled_now s now"
  obtains stamp off where
    "solve_cluster s now i df17 ref cl members =
       (if length used < 4 then s else case alts_ft s i of None \<Rightarrow> s\<lparr>stamp_offset := off, tracks := (tracks s)(i \<mapsto> track_of s i)\<rparr>
        | Some alt \<Rightarrow> let gate = gate_for s i used alt t in
            if t - last_try s i gate < RESOLVE_BACKOFF_S then s\<lparr>stamp_offset := off, tracks := (tracks s)(i \<mapsto> track_of s i)\<rparr>
            else let s' = s\<lparr>stamp_offset := off, tracks := (tracks s)(i \<mapsto> tried s i gate t)\<rparr> in
              case cluster_solution s i used alt t of None \<Rightarrow> reject s'
              | Some sol \<Rightarrow> judge_fix i df17 t stamp alt (track_of s i) gate used (snd (gather s cl {})) members sol s')"
proof -
  obtain used0 benched where g: "gather s cl {} = (used0, benched)"
    by fastforce
  then have used: "used = keep_best used0"
    by (simp add: used_def cluster_used_def)
  have len: "length used < 4 \<longleftrightarrow> length used0 < 4"
    by (auto simp: used keep_best_length)
  define m where "m = min_of (map (\<lambda>u. t_s (fst (snd u))) used0)"
  define off where "off = next_offset (stamp_offset s ref) (min_of (map (\<lambda>u. snd (snd (snd u))) used0) - m)"
  show thesis
    by (rule that [of "(stamp_offset s)(ref \<mapsto> off)" "m + off"])
      (simp add: solve_cluster_def g len Let_def stamp_tracks_frame gate_for_def last_try_def tried_def cluster_solution_def off_def m_def
        used [symmetric] t_def split del: if_split option.split cong: if_cong option.case_cong)
qed

text \<open>The way through \<open>solve_cluster\<close>: nothing to do, an early return, or an attempt.\<close>

lemma solve_cluster_cases:
  fixes s now i df17 ref cl members
  defines "s' \<equiv> solve_cluster s now i df17 ref cl members"
    and "used \<equiv> keep_best (fst (gather s cl {}))" and "t \<equiv> scaled_now s now"
  obtains "s' = s"
  | off where "s' = s\<lparr>stamp_offset := off, tracks := (tracks s)(i \<mapsto> track_of s i)\<rparr>"
  | off trk alt gate where "alts_ft s i = Some alt" "4 \<le> length used" "t - attempt s i \<ge> RESOLVE_BACKOFF_S"
      "gate = (if length used = 4 then track_prediction s i (of_int alt * 0.3048) t else None)"
      "trk = (if gate \<noteq> None then (track_of s i)\<lparr>last_gated_attempt_scaled := t\<rparr> else (track_of s i)\<lparr>last_attempt_scaled := t\<rparr>)"
      "s' = reject (s\<lparr>stamp_offset := off, tracks := (tracks s)(i \<mapsto> trk)\<rparr>) \<or>
       (\<exists>stamp init sol. solve_robust (map (\<lambda>u. fst (snd u)) used) (of_int alt * 0.3048) init = Some sol \<and>
          s' = judge_fix i df17 t stamp alt (track_of s i) gate used (snd (gather s cl {})) members sol
            (s\<lparr>stamp_offset := off, tracks := (tracks s)(i \<mapsto> trk)\<rparr>))"
proof (rule solve_cluster_flat [of s now i df17 ref cl members, folded s'_def used_def t_def cluster_used_def])
  fix stamp off
  assume eq: "s' = (if length (cluster_used s cl) < 4 then s else case alts_ft s i of None \<Rightarrow> s\<lparr>stamp_offset := off, tracks := (tracks s)(i \<mapsto> track_of s i)\<rparr>
        | Some alt \<Rightarrow> let gate = gate_for s i (cluster_used s cl) alt t in
            if t - last_try s i gate < RESOLVE_BACKOFF_S then s\<lparr>stamp_offset := off, tracks := (tracks s)(i \<mapsto> track_of s i)\<rparr>
            else let s' = s\<lparr>stamp_offset := off, tracks := (tracks s)(i \<mapsto> tried s i gate t)\<rparr> in
              case cluster_solution s i (cluster_used s cl) alt t of None \<Rightarrow> reject s'
              | Some sol \<Rightarrow> judge_fix i df17 t stamp alt (track_of s i) gate (cluster_used s cl) (snd (gather s cl {})) members sol s')"
  have used: "cluster_used s cl = used"
    by (simp add: used_def cluster_used_def)
  show thesis
  proof (cases "length used < 4 \<or> alts_ft s i = None")
    case True
    then have "s' = s \<or> s' = s\<lparr>stamp_offset := off, tracks := (tracks s)(i \<mapsto> track_of s i)\<rparr>"
      unfolding eq used by auto
    then show thesis
      using that(1,2) by blast
  next
    case False
    then obtain alt where alt: "alts_ft s i = Some alt" and n: "4 \<le> length used"
      by auto
    let ?gate = "gate_for s i used alt t"
    show thesis
    proof (cases "t - last_try s i ?gate < RESOLVE_BACKOFF_S")
      case True
      then have "s' = s\<lparr>stamp_offset := off, tracks := (tracks s)(i \<mapsto> track_of s i)\<rparr>"
        unfolding eq used using alt n by simp
      then show thesis
        using that(2) by blast
    next
      case nb: False
      have b: "t - attempt s i \<ge> RESOLVE_BACKOFF_S"
        using nb by (auto simp: last_try_def attempt_def split: if_splits)
      have "s' = reject (s\<lparr>stamp_offset := off, tracks := (tracks s)(i \<mapsto> tried s i ?gate t)\<rparr>) \<or>
          (\<exists>stamp init sol. solve_robust (map (\<lambda>u. fst (snd u)) used) (of_int alt * 0.3048) init = Some sol \<and>
            s' = judge_fix i df17 t stamp alt (track_of s i) ?gate used (snd (gather s cl {})) members sol
              (s\<lparr>stamp_offset := off, tracks := (tracks s)(i \<mapsto> tried s i ?gate t)\<rparr>))"
        unfolding eq used using alt n nb
        by (cases "cluster_solution s i used alt t") (simp_all add: Let_def, auto simp: cluster_solution_def)
      then show thesis
        by (intro that(3) [OF alt n b gate_for_def tried_def])
    qed
  qed
qed

lemma solve_cluster_sends:
  fixes s now i df17 ref cl members
  defines "s' \<equiv> solve_cluster s now i df17 ref cl members"
  shows "\<exists>ms. length ms \<le> 1 \<and> sends s s' ms \<and>
      (\<forall>r \<in> set (rows ms). \<not> df17 \<and> justified s now i (keep_best (fst (gather s cl {}))) members r \<and> attempt s' i = scaled_now s now)"
      (is "?sends")
    and "scaled_now s' = scaled_now s" and "attempt s' = attempt s \<or> attempt s i + RESOLVE_BACKOFF_S \<le> scaled_now s now \<and> attempt s' = (attempt s)(i := scaled_now s now)"
proof -
  define t where "t = scaled_now s now"
  define used where "used = keep_best (fst (gather s cl {}))"
  have "?sends \<and> scaled_now s' = scaled_now s \<and> (attempt s' = attempt s \<or> attempt s i + RESOLVE_BACKOFF_S \<le> t \<and> attempt s' = (attempt s)(i := t))"
  proof (rule solve_cluster_cases [of s now i df17 ref cl members, folded s'_def used_def t_def])
    assume "s' = s"
    then show ?thesis
      by (auto intro!: exI [of _ "[]"] sends_Nil)
  next
    fix off assume "s' = s\<lparr>stamp_offset := off, tracks := (tracks s)(i \<mapsto> track_of s i)\<rparr>"
    then show ?thesis
      by (auto intro!: exI [of _ "[]"] sends_Nil simp: stamp_tracks_frame attempt_def track_of_def)
  next
    fix off trk alt gate
    define s3 where "s3 = s\<lparr>stamp_offset := off, tracks := (tracks s)(i \<mapsto> trk)\<rparr>"
    assume a: "alts_ft s i = Some alt" "4 \<le> length used" "RESOLVE_BACKOFF_S \<le> t - attempt s i"
      and gate: "gate = (if length used = 4 then track_prediction s i (of_int alt * 0.3048) t else None)"
      and trk: "trk = (if gate \<noteq> None then (track_of s i)\<lparr>last_gated_attempt_scaled := t\<rparr> else (track_of s i)\<lparr>last_attempt_scaled := t\<rparr>)"
      and s': "s' = reject (s\<lparr>stamp_offset := off, tracks := (tracks s)(i \<mapsto> trk)\<rparr>) \<or>
       (\<exists>stamp init sol. solve_robust (map (\<lambda>u. fst (snd u)) used) (of_int alt * 0.3048) init = Some sol \<and>
          s' = judge_fix i df17 t stamp alt (track_of s i) gate used (snd (gather s cl {})) members sol
            (s\<lparr>stamp_offset := off, tracks := (tracks s)(i \<mapsto> trk)\<rparr>))"
    have f: "out s3 = out s" "scaled_now s3 = scaled_now s" "attempt s3 = attempt s \<or> attempt s3 = (attempt s)(i := t)"
        "row_of s3 = row_of s"
      by (auto simp: s3_def stamp_tracks_frame trk attempt_def track_of_def row_of_def recipients_def fun_eq_iff)
    show ?thesis
      using s'
    proof (elim disjE exE conjE; fold s3_def)
      assume "s' = reject s3"
      then show ?thesis
        by (intro conjI exI [of _ "[]"]) (use f a(3) in \<open>auto simp: reject_frame intro: sends_Nil\<close>)
    next
      fix stamp init sol
      assume sol: "solve_robust (map (\<lambda>u. fst (snd u)) used) (of_int alt * 0.3048) init = Some sol"
        and s': "s' = judge_fix i df17 t stamp alt (track_of s i) gate used (snd (gather s cl {})) members sol s3"
      note J = judge_sends [where i = i and ?df17.0 = df17 and t = t and stamp = stamp and alt = alt and trk = "track_of s i" and gate = gate
          and used = used and benched = "snd (gather s cl {})" and members = members and sol = sol and s = s3, folded s']
      obtain ms where ms: "length ms \<le> 1" "sends s3 s' ms" "\<forall>r \<in> set (rows ms). \<not> df17 \<and> passes (track_of s i) t gate sol \<and>
          (\<exists>sm. r = row_of s3 i stamp alt used members sol sm) \<and> attempt s' i = t"
        using J(1) by blast
      have "\<not> df17 \<and> justified s now i used members r \<and> attempt s' i = t" if "r \<in> set (rows ms)" for r
        unfolding justified_def t_def [symmetric] using ms(3) that a sol gate f(4) by fastforce
      moreover have "attempt s' = attempt s \<or> attempt s i + RESOLVE_BACKOFF_S \<le> t \<and> attempt s' = (attempt s)(i := t)"
        using J(3) f(3) a(3) by auto
      ultimately show ?thesis
        using ms(1,2) J(2) f(1,2) by (intro conjI exI [of _ ms]) (auto simp: sends_def used_def t_def)
    qed
  qed
  then show ?sends "scaled_now s' = scaled_now s"
    "attempt s' = attempt s \<or> attempt s i + RESOLVE_BACKOFF_S \<le> scaled_now s now \<and> attempt s' = (attempt s)(i := scaled_now s now)"
    by (simp_all add: t_def)
qed


subsection \<open>Rows within bounds, at most one per aircraft\<close>

definition row_ok :: "out_row \<Rightarrow> bool" where
  "row_ok r \<longleftrightarrow> \<bar>or_lat r\<bar> \<le> 90 \<and> - 180 \<le> or_lon r \<and> or_lon r < 180 \<and> or_err_m r \<le> 10000 \<and>
     4 \<le> or_nstations r \<and> or_nstations r \<le> 16 \<and> length (or_users r) = or_nstations r \<and> distinct (or_users r)"

lemma gather_user: "u \<in> set (fst (gather s cs sn)) \<Longrightarrow> fst (snd (snd u)) = user (st_receivers s ! fst u)"
  by (induction s cs sn arbitrary: u rule: gather.induct) (auto simp: Let_def split: prod.splits if_splits)

lemma live_users_inj: "slots_ok s \<Longrightarrow> inj_on (\<lambda>i. user (st_receivers s ! i)) {i. occ s i}"
  by (rule inj_onI) (metis (mono_tags, lifting) mem_Collect_eq occ_def option.inject slots_okD(8))

lemma used_users_distinct:
  assumes ok: "slots_ok s" and cl: "\<forall>c \<in> set cl. occ s (fst c)"
  shows "distinct (map (\<lambda>u. fst (snd (snd u))) (keep_best (fst (gather s cl {}))))" (is "distinct (map ?f ?k)")
proof -
  have k: "u \<in> set (fst (gather s cl {}))" if "u \<in> set ?k" for u
    using that keep_best_sub by blast
  have "map ?f ?k = map (\<lambda>i. user (st_receivers s ! i)) (map fst ?k)"
    unfolding map_map comp_def by (rule map_cong [OF refl gather_user [OF k]])
  moreover have "set (map fst ?k) \<subseteq> {i. occ s i}"
    using k gather_used cl by fastforce
  ultimately show ?thesis
    using keep_best_distinct [OF gather_distinct [of s cl "{}"]] inj_on_subset [OF live_users_inj [OF ok]] by (metis distinct_map)
qed

lemma justified_row_ok:
  assumes ok: "slots_ok s" and cl: "\<forall>c \<in> set cl. occ s (fst c)"
    and j: "justified s now i (keep_best (fst (gather s cl {}))) members r"
  shows "row_ok r" "or_icao r = i"
proof -
  obtain sol alt stamp sm init where *: "4 \<le> length (keep_best (fst (gather s cl {})))"
      "solve_robust (map (\<lambda>u. fst (snd u)) (keep_best (fst (gather s cl {})))) (of_int alt * 0.3048) init = Some sol"
      "\<not> err_est_m sol > MAX_ERR_M" "r = row_of s i stamp alt (keep_best (fst (gather s cl {}))) members sol sm"
    using j unfolding justified_def passes_def Let_def by blast
  then show "row_ok r" "or_icao r = i"
    using solved_in_range(1-3) [OF *(2)] used_users_distinct [OF ok cl]
    by (simp_all add: row_ok_def row_of_def keep_best_length MAX_ERR_M_def)
qed

text \<open>
  A run at clock readings from \<open>T\<close>: the messages sent, with the reading each row was published
  at, and rows of one aircraft at least the backoff apart.
\<close>

definition apart :: "out_row \<times> real \<Rightarrow> out_row \<times> real \<Rightarrow> bool" where
  "apart x y \<longleftrightarrow> (or_icao (fst x) = or_icao (fst y) \<longrightarrow> snd x + 0.4 \<le> snd y)"

definition paced :: "real set \<Rightarrow> state \<Rightarrow> state \<Rightarrow> bool" where
  "paced T s s' \<longleftrightarrow> scaled_now s' = scaled_now s \<and>
     (\<exists>ms ts. sends s s' ms \<and> list_all row_ok (rows ms) \<and> length ts = length (rows ms) \<and> set ts \<subseteq> T \<and>
        sorted_wrt apart (zip (rows ms) ts) \<and> (\<forall>(r, t) \<in> set (zip (rows ms) ts). t \<le> attempt s' (or_icao r)))"

lemma paced_same: "out s' = out s \<Longrightarrow> scaled_now s' = scaled_now s \<Longrightarrow> paced T s s'"
  unfolding paced_def by (auto intro!: exI [of _ "[]"] sends_Nil)

lemma paced_cluster:
  assumes p: "paced T s s1" and ok: "state_ok s1" and cl: "\<forall>c \<in> set cl. occ s1 (fst c)" and T: "scaled_now s now \<in> T"
  shows "paced T s (solve_cluster s1 now i df17 ref cl members)" (is "paced T s ?s2")
proof -
  define u where "u = scaled_now s now"
  obtain ms ts where ms: "sends s s1 ms" "list_all row_ok (rows ms)" "length ts = length (rows ms)" "set ts \<subseteq> T"
      "sorted_wrt apart (zip (rows ms) ts)" "\<forall>(r, t) \<in> set (zip (rows ms) ts). t \<le> attempt s1 (or_icao r)"
      and t: "scaled_now s1 = scaled_now s"
    using p by (auto simp: paced_def)
  note S = solve_cluster_sends [of s1 now i df17 ref cl members, unfolded t, folded u_def]
  obtain ns where ns: "length ns \<le> 1" "sends s1 ?s2 ns" "\<And>r. r \<in> set (rows ns) \<Longrightarrow>
      justified s1 now i (keep_best (fst (gather s1 cl {}))) members r \<and> attempt ?s2 i = u"
    using S(1) by blast
  have r: "row_ok r" "or_icao r = i" "attempt s1 i + 0.4 \<le> u" "attempt ?s2 i = u" if "r \<in> set (rows ns)" for r
  proof -
    note j = conjunct1 [OF ns(3) [OF that]]
    show "row_ok r" "or_icao r = i" "attempt ?s2 i = u"
      using justified_row_ok [OF state_okD(1) [OF ok] cl j] ns(3) [OF that] by simp_all
    have "RESOLVE_BACKOFF_S \<le> scaled_now s1 now - attempt s1 i"
      using j unfolding justified_def by blast
    then show "attempt s1 i + 0.4 \<le> u"
      by (simp add: t u_def RESOLVE_BACKOFF_S_def)
  qed
  have later: "attempt s1 j \<le> attempt ?s2 j" for j
    using S(3) by (auto simp: RESOLVE_BACKOFF_S_def)
  have n: "rows ns = [] \<or> (\<exists>r. rows ns = [r])"
    using ns(1) by (cases ns rule: list.exhaust) (auto simp: rows_def List.map_filter_def split: option.split)
  then obtain us where us: "length us = length (rows ns)" "set us \<subseteq> {u}" "zip (rows ns) us = [] \<or> (\<exists>r \<in> set (rows ns). zip (rows ns) us = [(r, u)])"
    by (metis (no_types, lifting) empty_subsetI length_Cons list.set(1) list.set_intros(1) list.simps(15) list.size(3) order_refl zip.simps(1) zip_Cons_Cons zip_Nil)
  have z: "zip (rows (ms @ ns)) (ts @ us) = zip (rows ms) ts @ zip (rows ns) us"
    using ms(3) by simp
  have "attempt s1 i + 0.4 \<le> u" if "(r, u) \<in> set (zip (rows ns) us)" for r
    using that r(3) by (meson set_zip_leftD)
  then have "sorted_wrt apart (zip (rows (ms @ ns)) (ts @ us))"
    unfolding z sorted_wrt_append using ms(5,6) us(3) r(2,3) by (fastforce simp: apart_def)
  moreover have "\<forall>(r, t) \<in> set (zip (rows (ms @ ns)) (ts @ us)). t \<le> attempt ?s2 (or_icao r)"
    unfolding z using ms(6) later us(3) r(2,4) by (fastforce intro: order_trans)
  moreover have "list_all row_ok (rows (ms @ ns))" "length (ts @ us) = length (rows (ms @ ns))" "set (ts @ us) \<subseteq> T"
    using ms(2-4) us(1,2) T r(1) by (auto simp: list_all_iff u_def)
  ultimately show ?thesis
    unfolding paced_def using S(2) sends_trans [OF ms(1) ns(2)] by blast
qed

lemma converted_receivers: "c \<in> set (converted s members ref es) \<Longrightarrow> fst c \<in> fst ` set es"
  by (auto simp: converted_def List.map_filter_def split: option.splits) force

lemma paced_tame_fold:
  assumes s: "paced T s0 s" "state_ok s"
    and step: "\<And>s' x. x \<in> set xs \<Longrightarrow> paced T s0 s' \<Longrightarrow> tame s s' \<Longrightarrow> paced T s0 (f s' x) \<and> tame s' (f s' x)"
  shows "paced T s0 (foldl f s xs) \<and> tame s (foldl f s xs)"
  by (rule map_foldl_invariant [where P = "\<lambda>s'. paced T s0 s' \<and> tame s s'"]) (use s step in \<open>auto intro: tame_trans\<close>)

lemma paced_group:
  assumes p: "paced T s0 s" and ok: "state_ok s" and g: "\<forall>e \<in> set (g_entries g). occ s (fst e)" and T: "\<And>n. scaled_now s0 (clk n) \<in> T"
  shows "paced T s0 (solve_group clk s g)"
proof -
  define members where "members = firsts (map fst (g_entries g))"
  have "paced T s0 (foldl (\<lambda>s (n, cl). solve_cluster s (clk n) (g_icao g) (g_df17 g) ref cl members) s (enumerate k cls))"
    if cls: "\<And>cl c. cl \<in> set cls \<Longrightarrow> c \<in> set cl \<Longrightarrow> occ s (fst c)" and ref: "occ s ref" for cls ref k
  proof (rule conjunct1 [OF paced_tame_fold [OF p ok]])
    fix s' x assume x: "x \<in> set (enumerate k cls)" and s': "paced T s0 s'" "tame s s'"
    have "snd x \<in> set (map snd (enumerate k cls))"
      using x unfolding set_map by (rule imageI)
    then obtain n cl where n: "x = (n, cl)" "cl \<in> set cls"
      by (cases x) simp
    show "paced T s0 (case x of (n, cl) \<Rightarrow> solve_cluster s' (clk n) (g_icao g) (g_df17 g) ref cl members) \<and>
        tame s' (case x of (n, cl) \<Rightarrow> solve_cluster s' (clk n) (g_icao g) (g_df17 g) ref cl members)"
      unfolding n(1) prod.case
      using paced_cluster [OF s'(1) tame_ok [OF s'(2) ok] _ T] tame_solve_cluster cls [OF n(2)] ref occ_tame [OF s'(2)] by simp
  qed
  moreover have "occ s (fst c)" if "cl \<in> set (clusters (sort_key (\<lambda>c. fst (snd c)) (converted s members ref (g_entries g))))" "c \<in> set cl" for cl c ref
    using clusters_sub [OF that(1)] that(2) converted_receivers g by fastforce
  moreover have "occ s ref" if "elect_local_ref s members = Some ref" for ref
    using max_by_key_Some [OF that [unfolded elect_local_ref_def]] g by (auto simp: firsts_set members_def)
  ultimately show ?thesis
    using p by (auto simp: solve_group_def Let_def simp flip: members_def split: option.split)
qed

lemma paced_take_group:
  assumes p: "paced T s0 s" and ok: "state_ok s" and T: "\<And>n. scaled_now s0 (clk k n) \<in> T"
  shows "paced T s0 (take_group clk s k)"
proof (cases "groups s k")
  case (Some g)
  let ?s = "s\<lparr>groups := (groups s)(k := None)\<rparr>"
  have "\<forall>e \<in> set (g_entries g). occ ?s (fst e)"
    using refs_okD(3) [OF state_okD(2) [OF ok] Some] by (simp add: occ_def)
  moreover have "paced T s0 ?s"
    using p by (simp add: paced_def sends_def scaled_now_def attempt_def track_of_def fun_eq_iff)
  ultimately show ?thesis
    using paced_group [OF _ tame_ok [OF tame_drop_group ok] _ T] Some by (simp add: take_group_def)
qed (simp add: take_group_def p)

text \<open>The scaled readings at which the clusters of the given groups are solved.\<close>

definition readings :: "state \<Rightarrow> sweep_clock \<Rightarrow> string list \<Rightarrow> real set" where
  "readings s c ready = {scaled_now s (at_cluster c k n) | k n. k \<in> set ready}"

lemma paced_sweep:
  assumes ok: "state_ok s"
  shows "paced (readings s c ready) s (sweep ready s c)"
proof -
  define s2 where "s2 = sweep [] s c"
  have s2: "state_ok s2"
    unfolding s2_def by (rule tame_ok [OF tame_sweep [OF ok] ok])
  have "paced (readings s c ready) s s2"
    by (rule paced_same) (auto simp: s2_def sweep_def expire_at_def scaled_now_def fun_eq_iff Let_def)
  moreover have "sweep ready s c = foldl (take_group (at_cluster c)) s2 ready"
    by (simp add: s2_def sweep_def Let_def)
  moreover have "scaled_now s (at_cluster c k n) \<in> readings s c ready" if "k \<in> set ready" for k n
    using that by (auto simp: readings_def)
  ultimately show ?thesis
    using conjunct1 [OF paced_tame_fold [where f = "take_group (at_cluster c)" and xs = ready]] s2
    by (metis (no_types, lifting) paced_take_group tame_ok tame_take_group)
qed


subsection \<open>Properties\<close>

lemma rows_short: "length ms \<le> 1 \<Longrightarrow> rows ms \<noteq> [] \<Longrightarrow> ms = map OutFix (rows ms)"
  by (cases ms) (auto simp: rows_def List.map_filter_def split: out_msg.splits)

lemma haversine_lat_lon: "haversine_m (p\<lparr>alt_m := h\<rparr>) q = haversine_m p q" "haversine_m q (p\<lparr>alt_m := h\<rparr>) = haversine_m q p"
  by (simp_all add: haversine_m_def haversine_a_def)

lemma track_of_upd: "tracks s = (tracks s')(i \<mapsto> t) \<Longrightarrow> track_of s i = t"
  by (simp add: track_of_def)

lemma justified_gates:
  assumes "justified s now i used members r"
  defines "t \<equiv> scaled_now s now" and "trk \<equiv> track_of s i"
  shows "alts_ft s i = Some (or_alt_ft r)" "or_icao r = i" "or_err_m r \<le> 10000" "or_nstations r = length used" "4 \<le> length used"
    "0.4 \<le> t - last_attempt_scaled trk"
    "last_pos trk = Some p \<Longrightarrow> or_err_m r \<le> 75 * (t - last_time_scaled trk)"
    "last_pos trk = Some p \<Longrightarrow> t - last_time_scaled trk < 30 \<Longrightarrow> t - last_time_scaled trk > 0.05 \<Longrightarrow>
      haversine_m \<lparr>lat_deg = or_lat r, lon_deg = or_lon r, alt_m = 0\<rparr> p \<le> 400 * (t - last_time_scaled trk)"
    "or_users r = map (\<lambda>u. fst (snd (snd u))) used"
    "or_recipients r = recipients s members \<lparr>lat_deg = or_lat r, lon_deg = or_lon r, alt_m = 0\<rparr>"
proof -
  obtain sol alt stamp sm gate where *: "alts_ft s i = Some alt" "4 \<le> length used" "RESOLVE_BACKOFF_S \<le> t - attempt s i"
      "passes trk t gate sol" and r: "r = row_of s i stamp alt used members sol sm"
    using assms(1) unfolding justified_def t_def trk_def by blast
  have pos: "\<lparr>lat_deg = or_lat r, lon_deg = or_lon r, alt_m = 0\<rparr> = (pos sol)\<lparr>alt_m := 0\<rparr>"
    by (simp add: r row_of_def)
  show "alts_ft s i = Some (or_alt_ft r)" "or_icao r = i" "or_nstations r = length used" "4 \<le> length used"
    "or_users r = map (\<lambda>u. fst (snd (snd u))) used" "0.4 \<le> t - last_attempt_scaled trk"
    using * by (simp_all add: r row_of_def attempt_def trk_def RESOLVE_BACKOFF_S_def)
  show "or_recipients r = recipients s members \<lparr>lat_deg = or_lat r, lon_deg = or_lon r, alt_m = 0\<rparr>"
    unfolding pos by (simp add: r row_of_def recipients_def haversine_lat_lon)
  show "or_err_m r \<le> 10000" "last_pos trk = Some p \<Longrightarrow> or_err_m r \<le> 75 * (t - last_time_scaled trk)"
    using *(4) by (auto simp: passes_def r row_of_def MAX_ERR_M_def THROTTLE_SCALE_M_def Let_def)
  show "haversine_m \<lparr>lat_deg = or_lat r, lon_deg = or_lon r, alt_m = 0\<rparr> p \<le> 400 * (t - last_time_scaled trk)"
    if "last_pos trk = Some p" "t - last_time_scaled trk < 30" "t - last_time_scaled trk > 0.05"
  proof -
    have "\<not> too_fast trk (t - last_time_scaled trk) sol"
      using *(4) by (simp add: passes_def Let_def)
    then have "haversine_m (pos sol) p / (t - last_time_scaled trk) \<le> 400"
      using that unfolding too_fast_def by simp
    then show ?thesis
      using that(3) pos_divide_le_eq [of "t - last_time_scaled trk" "haversine_m (pos sol) p" 400] unfolding pos haversine_lat_lon by simp
  qed
qed

text \<open>
  C9. What passes the publication gates: solving a cluster sends at most one message. If
  that is a fix, the cluster was not an ADS-B self-test, the aircraft's altitude was known,
  at least 0.4 s had passed since the last attempt, the error estimate is at most 10 km
  and, where there is a last accepted position, at most 75 m per second of silence, and no
  more than 400 m/s away from that position unless it is older than 30 s or newer than
  50 ms.
\<close>

theorem published_fix_passes_gates:
  fixes s now i df17 ref cl members
  defines "trk \<equiv> track_of s i" and "elapsed \<equiv> scaled_now s now - last_time_scaled (track_of s i)"
  shows "\<exists>ms. out (solve_cluster s now i df17 ref cl members) = map_option (\<lambda>xs. xs @ ms) (out s) \<and> length ms \<le> 1 \<and>
    list_all (\<lambda>r. \<not> df17 \<and> or_icao r = i \<and> alts_ft s i = Some (or_alt_ft r) \<and> or_err_m r \<le> 10000 \<and>
      4 \<le> or_nstations r \<and> or_nstations r \<le> 16 \<and> 0.4 \<le> scaled_now s now - last_attempt_scaled trk \<and>
      (case last_pos trk of
         None \<Rightarrow> True
       | Some p \<Rightarrow> or_err_m r \<le> 75 * elapsed \<and>
           (elapsed \<le> 0.05 \<or> 30 \<le> elapsed \<or> haversine_m \<lparr>lat_deg = or_lat r, lon_deg = or_lon r, alt_m = 0\<rparr> p \<le> 400 * elapsed))) (rows ms)"
proof -
  obtain ms where ms: "length ms \<le> 1" "sends s (solve_cluster s now i df17 ref cl members) ms"
      "\<forall>r \<in> set (rows ms). \<not> df17 \<and> justified s now i (keep_best (fst (gather s cl {}))) members r"
    using solve_cluster_sends(1) by blast
  have "\<not> df17 \<and> or_icao r = i \<and> alts_ft s i = Some (or_alt_ft r) \<and> or_err_m r \<le> 10000 \<and>
      4 \<le> or_nstations r \<and> or_nstations r \<le> 16 \<and> 0.4 \<le> scaled_now s now - last_attempt_scaled trk \<and>
      (case last_pos trk of
         None \<Rightarrow> True
       | Some p \<Rightarrow> or_err_m r \<le> 75 * elapsed \<and>
           (elapsed \<le> 0.05 \<or> 30 \<le> elapsed \<or> haversine_m \<lparr>lat_deg = or_lat r, lon_deg = or_lon r, alt_m = 0\<rparr> p \<le> 400 * elapsed))"
    if "r \<in> set (rows ms)" for r
  proof -
    note G = justified_gates [OF conjunct2 [OF bspec [OF ms(3) that]], folded trk_def, folded trk_def elapsed_def [folded trk_def]]
    have "length (keep_best us) \<le> 16" for us
      by (simp add: keep_best_length)
    then show ?thesis
      using G ms(3) that by (cases "last_pos trk") (simp_all, linarith)
  qed
  then show ?thesis
    using ms(1,2) unfolding sends_def list_all_iff by blast
qed

text \<open>
  C36. Who stands behind a fix and who hears of it: the names on a published row are those
  of receivers of the cluster that are connected and not quarantined, and the result goes
  to exactly the connected group members within 600 km of it.
\<close>

theorem published_fix_names_good_receivers:
  "\<exists>ms. out (solve_cluster s now i df17 ref cl members) = map_option (\<lambda>xs. xs @ ms) (out s) \<and>
    list_all (\<lambda>r. length (or_users r) = or_nstations r \<and>
      set (or_users r) \<subseteq> (\<lambda>rx. user (st_receivers s ! rx)) ` {rx \<in> fst ` set cl. alive s ! rx \<and> \<not> quarantined (rx_bias s ! rx)} \<and>
      set (or_recipients r) = (\<lambda>rx. uid (st_receivers s ! rx)) ` {rx \<in> set members. alive s ! rx \<and>
        haversine_m (geo (st_receivers s ! rx)) \<lparr>lat_deg = or_lat r, lon_deg = or_lon r, alt_m = 0\<rparr> \<le> 600000}) (rows ms)"
proof -
  define used where "used = keep_best (fst (gather s cl {}))"
  obtain ms where ms: "sends s (solve_cluster s now i df17 ref cl members) ms" "\<forall>r \<in> set (rows ms). justified s now i used members r"
    using solve_cluster_sends(1) unfolding used_def by blast
  have "u \<in> set (fst (gather s cl {}))" if "u \<in> set used" for u
    using that keep_best_sub unfolding used_def by blast
  then have users: "fst (snd (snd u)) \<in> (\<lambda>rx. user (st_receivers s ! rx)) ` {rx \<in> fst ` set cl. alive s ! rx \<and> \<not> quarantined (rx_bias s ! rx)}"
    if "u \<in> set used" for u
    using that gather_used [of u s cl "{}"] gather_user [of u s cl "{}"] by blast
  have "length (or_users r) = or_nstations r \<and>
      set (or_users r) \<subseteq> (\<lambda>rx. user (st_receivers s ! rx)) ` {rx \<in> fst ` set cl. alive s ! rx \<and> \<not> quarantined (rx_bias s ! rx)} \<and>
      set (or_recipients r) = (\<lambda>rx. uid (st_receivers s ! rx)) ` {rx \<in> set members. alive s ! rx \<and>
        haversine_m (geo (st_receivers s ! rx)) \<lparr>lat_deg = or_lat r, lon_deg = or_lon r, alt_m = 0\<rparr> \<le> 600000}"
    if "r \<in> set (rows ms)" for r
    unfolding justified_gates(4,9,10) [OF bspec [OF ms(2) that]] recipients_def RESULT_RANGE_M_def
    using users by (intro conjI) (simp, simp add: image_subset_iff, simp)
  then show ?thesis
    using ms(1) unfolding sends_def list_all_iff by blast
qed

text \<open>
  C37. The clusters of a group: the time-sorted arrivals are cut into consecutive
  non-empty runs and none is lost or repeated; within a run nothing lies more than 2.5 ms
  after the first arrival, and each next run starts later than that, so the cut is the
  only one of its kind.
\<close>

theorem clusters_partition:
  "concat (clusters cs) = cs \<and>
   list_all (\<lambda>cl. cl \<noteq> [] \<and> list_all (\<lambda>c. fst (snd c) - fst (snd (hd cl)) \<le> 0.0025) cl) (clusters cs) \<and>
   successively (\<lambda>a b. fst (snd (hd b)) - fst (snd (hd a)) > 0.0025) (clusters cs)"
proof -
  have "list_all (\<lambda>cl. cl \<noteq> [] \<and> list_all (\<lambda>c. fst (snd c) - fst (snd (hd cl)) \<le> 0.0025) cl) (clusters cs)"
    using clusters_nonempty clusters_span by (force simp: list_all_iff CLUSTER_SPAN_S_def)
  moreover have "successively (\<lambda>a b. fst (snd (hd b)) - fst (snd (hd a)) > 0.0025) (clusters cs)"
  proof (induction cs rule: clusters.induct)
    case (2 c cs)
    let ?r = "dropWhile (\<lambda>d. fst (snd d) - fst (snd c) \<le> CLUSTER_SPAN_S) cs"
    show ?case
    proof (cases ?r)
      case (Cons d ds)
      have "\<not> fst (snd d) - fst (snd c) \<le> CLUSTER_SPAN_S"
        using hd_dropWhile [of "\<lambda>d. fst (snd d) - fst (snd c) \<le> CLUSTER_SPAN_S" cs] Cons by simp
      then show ?thesis
        using 2 Cons by (simp add: CLUSTER_SPAN_S_def)
    next
      case Nil
      show ?thesis
        unfolding clusters.simps(2) Nil by simp
    qed
  qed simp
  ultimately show ?thesis
    by (simp add: concat_clusters)
qed

end
