(* ===== verification/Export.thy ===== *)
theory Export
  imports Ingest
begin

text \<open>
  What a shard tells the outside about itself: \<open>sync_json\<close>, \<open>state_json\<close> and their
  helpers of \<^verbatim>\<open>crates/mlatd/src/state.rs\<close>. JSON objects are records and maps of the values
  put into them, keyed by user name and by aircraft address; lists the code sorts or
  whose order is that of a \<open>HashMap\<close> are sets.
\<close>

subsection \<open>sync.json\<close>

record sync_row =
  sr_peers :: "(string \<times> nat \<times> real) set"
  sr_bad_syncs :: real
  sr_pos :: "(real \<times> real) option"

definition bad_syncs :: "state \<Rightarrow> nat \<Rightarrow> real" where
  "bad_syncs s rx = (if quarantined (rx_bias s ! rx) then 0.4 else 0)"

definition sync_row_of :: "state \<Rightarrow> nat \<Rightarrow> sync_row" where
  "sync_row_of s i =
     \<lparr>sr_peers = {(user (st_receivers s ! b), status pm) | b pm. pairs s (i, b) = Some pm},
      sr_bad_syncs = bad_syncs s i, sr_pos = map_pos (rx_log s ! i)\<rparr>"

text \<open>One entry per occupied slot, in slot order.\<close>

definition per_client :: "state \<Rightarrow> (nat \<Rightarrow> 'row) \<Rightarrow> (string \<rightharpoonup> 'row)" where
  "per_client s f =
     foldl (\<lambda>top i. if \<not> alive s ! i then top else top(user (st_receivers s ! i) \<mapsto> f i)) Map.empty [0..<length (st_receivers s)]"

definition sync_json :: "state \<Rightarrow> (string \<rightharpoonup> sync_row)" where
  "sync_json s = per_client s (sync_row_of s)"

subsection \<open>clients.json and aircraft.json\<close>

record client_row =
  cr_info :: receiver_info
  message_rate :: int
  peer_count :: nat
  bad_sync_timeout :: int
  outlier_percent :: real
  bad_peer_list :: "string set"
  sync_interest :: "icao set"
  mlat_interest :: "icao set"

definition tenths :: "real \<Rightarrow> real" where
  "tenths x = of_int (round_real (x * 10)) / 10"

definition client_row_of :: "state \<Rightarrow> nat \<Rightarrow> client_row" where
  "client_row_of s i =
     (let peers = {b. pairs s (i, b) \<noteq> None \<and> alive s ! b}; (acc, rej) = rx_sync s ! i;
          pct = (if acc + rej > 0 then 100 * rej / (acc + rej) else 0)
      in \<lparr>cr_info = st_receivers s ! i, message_rate = round_real (of_nat (msgs (rx_log s ! i)) / 15),
          peer_count = card peers, bad_sync_timeout = round_real (bad_syncs s i * 150), outlier_percent = tenths pct,
          bad_peer_list = (\<lambda>b. user (st_receivers s ! b)) ` {b \<in> peers. quarantined (rx_bias s ! b)},
          sync_interest = dom (rl_sync (rx_log s ! i)), mlat_interest = dom (rl_mlat (rx_log s ! i))\<rparr>)"

definition bearing_deg :: "geodetic \<Rightarrow> geodetic \<Rightarrow> real" where
  "bearing_deg a b =
     (let la1 = to_radians (lat_deg a); la2 = to_radians (lat_deg b); dlon = to_radians (lon_deg b - lon_deg a);
          y = sin dlon * cos la2; x = cos la1 * sin la2 - sin la1 * cos la2 * cos dlon
      in fmod (to_degrees (atan2 y x) + 360) 360)"

record aircraft_row =
  elapsed_seen :: real
  ar_interesting :: bool
  ar_tracking :: nat
  ar_sync_interest :: nat
  ar_mlat_interest :: nat
  mlat_message_count :: nat
  mlat_result_count :: nat
  sync_count_1min :: int
  sync_bad_percent :: real
  last_result :: "(real \<times> real \<times> real) option"
  ar_alt :: "int option"
  heading_speed :: "(int \<times> int) option"
  tracking_receivers :: "nat set option"

definition fourth :: "real \<Rightarrow> real" where
  "fourth x = of_int (round_real (x * 10 ^ 4)) / 10 ^ 4"

text \<open>Heading and speed in knots between the last two published fixes, if less than two minutes apart.\<close>

definition heading_speed_of :: "fix_rec list \<Rightarrow> (int \<times> int) option" where
  "heading_speed_of fs =
     (case rev fs of
        f # p # _ \<Rightarrow>
          let dt = fx_t f - fx_t p
          in if dt > 0 \<and> dt < 120
             then Some (round_real (bearing_deg (fx_pos p) (fx_pos f)),
                        round_real (haversine_m (fx_pos p) (fx_pos f) / dt / 0.514444))
             else None
      | _ \<Rightarrow> None)"

definition aircraft_row_of :: "state \<Rightarrow> real \<Rightarrow> icao \<Rightarrow> ac_log_rec \<Rightarrow> aircraft_row" where
  "aircraft_row_of s now i a =
     (let el = tenths (now - seen a); sync_count = round_real (sync_good a + sync_bad a);
          trk = dom (al_rx_mlat a) \<union> dom (al_rx_sync a); fs = al_fixes a
      in \<lparr>elapsed_seen = el, ar_interesting = (dom (al_rx_mlat a) \<noteq> {}), ar_tracking = card trk,
          ar_sync_interest = card (dom (al_rx_sync a)), ar_mlat_interest = card (dom (al_rx_mlat a)),
          mlat_message_count = mlat_msgs a, mlat_result_count = results a, sync_count_1min = sync_count,
          sync_bad_percent = of_int (round_real (1000 * sync_bad a / (of_int sync_count + 0.01))) / 10,
          last_result = (if fs = [] then None
                         else let f = last fs in Some (tenths (now - fx_t f), fourth (lat_deg (fx_pos f)), fourth (lon_deg (fx_pos f)))),
          ar_alt = (if fs = [] then None else alts_ft s i),
          heading_speed = heading_speed_of fs,
          tracking_receivers = (if el > 600 then Some ((\<lambda>rx. uid (st_receivers s ! rx)) ` trk) else None)\<rparr>)"

definition decay :: "ac_log_rec \<Rightarrow> ac_log_rec" where
  "decay a = a\<lparr>sync_good := sync_good a * 0.8, sync_bad := sync_bad a * 0.8\<rparr>"

definition state_json :: "state \<Rightarrow> real \<Rightarrow> ((string \<rightharpoonup> client_row) \<times> (icao \<rightharpoonup> aircraft_row)) \<times> state" where
  "state_json s0 now0 =
     (let now = scaled_now s0 now0; s = expire_at s0 now
      in ((per_client s (client_row_of s), \<lambda>i. map_option (aircraft_row_of s now i) (ac_log s i)),
          s\<lparr>rx_log := map (\<lambda>i. if alive s ! i then (rx_log s ! i)\<lparr>msgs := 0\<rparr> else rx_log s ! i) [0..<length (rx_log s)],
            ac_log := (\<lambda>i. map_option decay (ac_log s i))\<rparr>))"

subsection \<open>Lemmas\<close>

lemma tame_state_json: "tame s (snd (state_json s now))"
proof -
  define s1 where "s1 = expire_at s (scaled_now s now)"
  define s2 where "s2 = snd (state_json s now)"
  have s2: "s2 = s1\<lparr>rx_log := map (\<lambda>i. if alive s1 ! i then (rx_log s1 ! i)\<lparr>msgs := 0\<rparr> else rx_log s1 ! i) [0..<length (rx_log s1)],
      ac_log := (\<lambda>i. map_option decay (ac_log s1 i))\<rparr>"
    by (simp add: s2_def state_json_def Let_def s1_def)
  have "tame s1 s2"
  proof (rule tameI)
    show "same_slots s1 s2"
      by (simp add: s2 same_slots_def)
    assume "state_ok s1"
    note R = refs_okD [OF state_okD(2) [OF this]]
    show "refs_ok s2"
      by (intro refs_okI) (auto simp: s2 decay_def dest: R(1,2,3,5) R(4) [THEN conjunct1] R(4) [THEN conjunct2])
  qed
  then show ?thesis
    unfolding s2_def [symmetric] using tame_trans [OF tame_expire] by (simp add: s1_def)
qed

lemma per_client_lookup:
  assumes "slots_ok s"
  shows "per_client s f u = map_option f (by_user s u)"
proof -
  define step where "step = (\<lambda>top i. if \<not> alive s ! i then top else top(user (st_receivers s ! i) \<mapsto> f i))"
  note B = slots_okD(8) [OF assms]
  have "foldl step Map.empty [0..<n] u =
      (case by_user s u of None \<Rightarrow> None | Some i \<Rightarrow> if i < n then Some (f i) else None)" if "n \<le> length (st_receivers s)" for n
    using that
  proof (induction n)
    case (Suc n)
    then show ?case
      using B [of u n] by (auto simp: step_def less_Suc_eq split: option.splits)
  qed (simp split: option.split)
  then show ?thesis
    unfolding per_client_def step_def [symmetric] using B [of u] by (cases "by_user s u") auto
qed

text \<open>Rounding to tenths keeps a bound that is itself a number of tenths.\<close>

lemma tenths_le:
  assumes "x \<le> of_int n / 10"
  shows "tenths x \<le> of_int n / 10"
proof -
  have "round_real (x * 10) \<le> n"
    using assms by (auto simp: round_real_def floor_le_iff ceiling_le_iff)
  then show ?thesis
    by (simp add: tenths_def divide_right_mono)
qed

lemma recent_row:
  assumes "now - seen a < AC_EXPIRE_S"
  shows "elapsed_seen (aircraft_row_of s now i a) \<le> AC_EXPIRE_S" "tracking_receivers (aircraft_row_of s now i a) = None"
  using assms tenths_le [of "now - seen a" 3000] by (simp_all add: aircraft_row_of_def Let_def AC_EXPIRE_S_def)

subsection \<open>Properties\<close>

lemma atan2_range: "- pi \<le> atan2 y x" "atan2 y x \<le> pi"
  using arctan_bounded [of "y / x"] pi_gt_zero arctan_le_zero_iff [of "y / x"] zero_le_arctan_iff [of "y / x"]
  by (auto simp: atan2_def divide_simps) 

lemma bearing_from_angle:
  assumes "- 180 < d" "d \<le> 180" "0 < r" "y = r * sin (to_radians d)" "x = r * cos (to_radians d)"
  shows "fmod (to_degrees (atan2 y x) + 360) 360 = (if d < 0 then d + 360 else d)"
proof -
  have "- pi < to_radians d" "to_radians d \<le> pi"
    using mult_strict_left_mono [OF assms(1), of "pi / 180"] mult_left_mono [OF assms(2), of "pi / 180"] by (simp_all add: to_radians_def mult.commute)
  then have "to_degrees (atan2 y x) = d"
    using atan2_polar [OF assms(3)] assms(4,5) by simp
  then show ?thesis
    using assms(1,2) rem_euclid_id [of "d + 360" 360] rem_euclid_id [of d 360] rem_euclid_shift [of 360 d 1]
    by (simp add: fmod_nonneg)
qed

text \<open>
  A heading is a compass bearing: it always lies in \<open>[0, 360)\<close>; going up a meridian
  is 0 and down it is 180, going east along the equator (by less than half a turn) is 90
  and west is 270.
\<close>

theorem bearing_is_compass:
  fixes u v l d a b
  assumes "- 90 < u" "u < v" "v \<le> 90" "0 < d" "d < 180"
  defines "p \<equiv> \<lambda>x y. \<lparr>lat_deg = x, lon_deg = y, alt_m = (0 :: real)\<rparr>"
  shows "0 \<le> bearing_deg a b \<and> bearing_deg a b < 360 \<and>
    bearing_deg (p u l) (p v l) = 0 \<and> bearing_deg (p v l) (p u l) = 180 \<and>
    bearing_deg (p 0 l) (p 0 (l + d)) = 90 \<and> bearing_deg (p 0 (l + d)) (p 0 l) = 270"
proof -
  have "0 \<le> to_degrees (atan2 y x) + 360" for x y
    using atan2_range(1) [of y x] pi_gt_zero mult_right_mono [of "- pi" "atan2 y x" "180 / pi"] by (simp add: to_degrees_def)
  then have range: "0 \<le> bearing_deg a b \<and> bearing_deg a b < 360"
    unfolding bearing_deg_def Let_def using rem_euclid_range [of 360] by (simp add: fmod_nonneg)
  have diff: "cos (to_radians y) * sin (to_radians x) - sin (to_radians y) * cos (to_radians x) = sin (to_radians (x - y))" for x y
    unfolding to_radians_def left_diff_distrib sin_diff by (simp add: mult.commute)
  have pos: "0 < sin (to_radians e)" if "0 < e" "e < 180" for e
    using that pi_gt_zero by (intro sin_gt_zero) (simp_all add: to_radians_def field_simps)
  have z: "to_radians 0 = 0" "to_radians 180 = pi" "to_radians 90 = pi / 2" "to_radians (- 90) = - (pi / 2)" "to_radians (- x) = - to_radians x" for x
    by (simp_all add: to_radians_def)
  have "bearing_deg (p u l) (p v l) = 0 \<and> bearing_deg (p v l) (p u l) = 180"
  proof -
    have s: "0 < sin (to_radians (v - u))"
      using assms(1-3) by (intro pos) auto
    show ?thesis
      using bearing_from_angle [of 0 "sin (to_radians (v - u))" 0 "sin (to_radians (v - u))"]
        bearing_from_angle [of 180 "sin (to_radians (v - u))" 0 "- sin (to_radians (v - u))"] s diff [of u v] diff [of v u] z(5) [of "v - u"]
      by (simp add: bearing_deg_def p_def z Let_def)
  qed
  moreover have "bearing_deg (p 0 l) (p 0 (l + d)) = 90 \<and> bearing_deg (p 0 (l + d)) (p 0 l) = 270"
    using bearing_from_angle [of 90 "sin (to_radians d)" "sin (to_radians d)" 0]
      bearing_from_angle [of "- 90" "sin (to_radians d)" "- sin (to_radians d)" 0] pos [OF assms(4,5)]
    by (simp add: bearing_deg_def p_def z Let_def)
  ultimately show ?thesis
    using range by blast
qed

theorem bearing_is_compass_witness:
  "bearing_deg \<lparr>lat_deg = 47, lon_deg = - 2, alt_m = 0\<rparr> \<lparr>lat_deg = 48, lon_deg = - 2, alt_m = 0\<rparr> = 0 \<and>
   bearing_deg \<lparr>lat_deg = 0, lon_deg = - 2, alt_m = 0\<rparr> \<lparr>lat_deg = 0, lon_deg = 1, alt_m = 0\<rparr> = 90"
  using bearing_is_compass [of 47 48 3 undefined undefined "- 2"] by simp

end
