(* ===== verification/Shard.thy ===== *)
theory Shard
  imports Publish Export
begin

text \<open>
  One shard as an event machine: the message loop \<open>run_shard\<close> of
  \<^verbatim>\<open>crates/mlatd/src/shard.rs\<close> over the state. An event is a message taken from the channel,
  a tick of the sweep timer, or a connection storing the time of its last read. A message
  carries the time at which it is taken, a tick all clock readings of its sweep. The iteration order of the ready groups is the
  parameter \<open>ord\<close>, the hexadecimal decoder the parameter \<open>hx\<close>.
\<close>

subsection \<open>The machine\<close>

datatype shard_msg =
    AddReceiver receiver_info
  | RemoveReceiver rx_ref
  | Sync rx_ref real real string string real
  | Mlat rx_ref real string real
  | ClockReset rx_ref
  | ReceiverStats rx_ref
  | Stats
  | SyncJson
  | StateJson

datatype reply =
    NoReply
  | Added "rx_ref option"
  | RxStats "(nat \<times> real \<times> bool) option"
  | Counters nat nat nat nat
  | SyncReport "string \<rightharpoonup> sync_row"
  | StateReport "string \<rightharpoonup> client_row" "icao \<rightharpoonup> aircraft_row"

definition dispatch :: "(string \<Rightarrow> bytes option) \<Rightarrow> state \<Rightarrow> real \<Rightarrow> shard_msg \<Rightarrow> reply \<times> state" where
  "dispatch hx s now m =
     (case m of
        AddReceiver info \<Rightarrow> (let (r, s) = add_receiver s now info in (Added r, s))
      | RemoveReceiver r \<Rightarrow> (NoReply, remove_receiver s r)
      | Sync r et ot em om at_t \<Rightarrow> (NoReply, on_sync hx s now r et ot em om at_t)
      | Mlat r t m at_t \<Rightarrow> (NoReply, on_mlat hx s now r t m at_t)
      | ClockReset r \<Rightarrow> (NoReply, clock_reset s r)
      | ReceiverStats r \<Rightarrow> (let (st, s) = receiver_stats s r in (RxStats st, s))
      | Stats \<Rightarrow> (Counters (live_receivers s) (stats_sync_obs s) (stats_solved s) (stats_rejected s), s)
      | SyncJson \<Rightarrow> (SyncReport (sync_json s), s)
      | StateJson \<Rightarrow> (let ((cs, ac), s) = state_json s now in (StateReport cs ac, s)))"

datatype shard_event =
    Msg real shard_msg
  | Tick sweep_clock
  | Read rx_ref real

definition shard_step ::
  "(string \<Rightarrow> bytes option) \<Rightarrow> (string set \<Rightarrow> string list) \<Rightarrow> real \<Rightarrow> state \<Rightarrow> shard_event \<Rightarrow> state" where
  "shard_step hx ord window s e =
     (case e of
        Msg now m \<Rightarrow> snd (dispatch hx s now m)
      | Tick c \<Rightarrow> sweep (ord (ready_groups s (at_start c) window)) s c
      | Read r at_t \<Rightarrow> note_read s r at_t)"

definition run_shard ::
  "(string \<Rightarrow> bytes option) \<Rightarrow> (string set \<Rightarrow> string list) \<Rightarrow> real \<Rightarrow> state \<Rightarrow> shard_event list \<Rightarrow> state" where
  "run_shard hx ord window s es = foldl (shard_step hx ord window) (set_output s) es"

subsection \<open>Slots and generations\<close>

text \<open>
  The law of handles with generations: a step may free a slot, or hand it out under the
  next generation, but never revives the generation a slot already has. Generations are
  \<open>u32\<close> and wrap.
\<close>

locale generations = kept_by_steps step inv
  for step :: "'s \<Rightarrow> 'e \<Rightarrow> 's" and inv :: "'s \<Rightarrow> bool" +
  fixes slot :: "'s \<Rightarrow> nat \<Rightarrow> (u32 \<times> bool) option"
  assumes slot_step: "inv s \<Longrightarrow> slot s i = Some (g, a) \<Longrightarrow>
    \<exists>g' a'. slot (step s e) i = Some (g', a') \<and> (g' = g \<and> (a' \<longrightarrow> a) \<or> g' = g + 1)"
begin

definition aged :: "'s \<Rightarrow> nat \<Rightarrow> u32 \<Rightarrow> nat \<Rightarrow> bool" where
  "aged s i g n \<longleftrightarrow> (\<exists>j a. j \<le> n \<and> slot s i = Some (g + of_nat j, a) \<and> (j = 0 \<longrightarrow> \<not> a))"

lemma aged_step: "inv s \<Longrightarrow> aged s i g n \<Longrightarrow> aged (step s e) i g (Suc n)"
proof -
  assume inv: "inv s" and "aged s i g n"
  then obtain j a where j: "j \<le> n" "slot s i = Some (g + of_nat j, a)" "j = 0 \<longrightarrow> \<not> a"
    by (auto simp: aged_def)
  from slot_step [OF inv j(2), of e] show ?thesis
  proof (elim exE conjE disjE)
    fix g' a' assume "slot (step s e) i = Some (g', a')" "g' = g + of_nat j" "a' \<longrightarrow> a"
    then show ?thesis
      unfolding aged_def using j by (intro exI [of _ j] exI [of _ a']) auto
  next
    fix g' a' assume "slot (step s e) i = Some (g', a')" "g' = g + of_nat j + 1"
    then show ?thesis
      unfolding aged_def using j(1) by (intro exI [of _ "Suc j"] exI [of _ a']) (auto simp: ac_simps)
  qed
qed

lemma aged_run: "inv s \<Longrightarrow> aged s i g n \<Longrightarrow> aged (foldl step s es) i g (n + length es)"
proof (induction es arbitrary: s n)
  case (Cons e es)
  then show ?case
    using Cons.IH [OF step_keeps [OF Cons.prems(1)] aged_step [OF Cons.prems], of e] by simp
qed simp

lemma aged_dead: "aged s i g n \<Longrightarrow> n < 2 ^ 32 \<Longrightarrow> slot s i \<noteq> Some (g, True)"
proof
  assume "aged s i g n" and n: "n < 2 ^ 32" and "slot s i = Some (g, True)"
  then obtain j where "j \<le> n" "of_nat j = (0 :: u32)" "j \<noteq> 0"
    by (auto simp: aged_def)
  then show False
    using n by (auto simp: word_of_nat_eq_0_iff dest: dvd_imp_le)
qed

text \<open>How a live handle dies: along the run it is either freed or its slot is handed on.\<close>

lemma dies_aged:
  "inv s \<Longrightarrow> slot s i = Some (g, True) \<Longrightarrow> slot (foldl step s es) i \<noteq> Some (g, True) \<Longrightarrow> aged (foldl step s es) i g (length es)"
proof (induction es rule: rev_induct)
  case (snoc e es)
  let ?s = "foldl step s es"
  show ?case
  proof (cases "slot ?s i = Some (g, True)")
    case True
    with slot_step [OF run_keeps [OF snoc.prems(1)] True, of e] snoc.prems(3) show ?thesis
      unfolding aged_def by (auto 0 3 intro: exI [of _ 0] exI [of _ 1])
  next
    case False
    then show ?thesis
      using aged_step [OF run_keeps [OF snoc.prems(1)] snoc.IH [OF snoc.prems(1,2) False]] by simp
  qed
qed simp

lemma dead_stays_dead:
  assumes "inv s" "slot s i = Some (g, True)" "slot (foldl step s es) i \<noteq> Some (g, True)" "length (es @ fs) < 2 ^ 32"
  shows "slot (foldl step s (es @ fs)) i \<noteq> Some (g, True)"
  using aged_dead [OF aged_run [OF run_keeps [OF assms(1)] dies_aged [OF assms(1-3)]]] assms(4) by simp

end

subsection \<open>The shard keeps its invariants\<close>

definition slot_of :: "state \<Rightarrow> nat \<Rightarrow> (u32 \<times> bool) option" where
  "slot_of s i = (if i < length (st_receivers s) then Some (gens s ! i, alive s ! i) else None)"

lemma live_slot_of: "live s r \<longleftrightarrow> slot_of s (rr_idx r) = Some (rr_gen r, True)"
  by (auto simp: live_def slot_of_def)

lemma slot_of_tame: "tame s s' \<Longrightarrow> slot_of s' = slot_of s"
  by (simp add: tame_def same_slots_def slot_of_def fun_eq_iff)

lemma dispatch_state [simp]:
  "snd (dispatch hx s now (AddReceiver info)) = snd (add_receiver s now info)"
  "snd (dispatch hx s now (RemoveReceiver r)) = remove_receiver s r"
  "snd (dispatch hx s now (Sync r et ot em om at_t)) = on_sync hx s now r et ot em om at_t"
  "snd (dispatch hx s now (Mlat r t f at_t)) = on_mlat hx s now r t f at_t"
  "snd (dispatch hx s now (ClockReset r)) = clock_reset s r"
  "snd (dispatch hx s now (ReceiverStats r)) = snd (receiver_stats s r)"
  "snd (dispatch hx s now Stats) = s" "snd (dispatch hx s now SyncJson) = s"
  "snd (dispatch hx s now StateJson) = snd (state_json s now)"
  by (simp_all add: dispatch_def case_prod_beta)

lemma dispatch_tame:
  assumes "state_ok s"
  shows "(\<exists>info. m = AddReceiver info) \<or> (\<exists>r. m = RemoveReceiver r) \<or> tame s (snd (dispatch hx s now m))"
proof -
  have "tame s (clock_reset s r)" for r
    using clock_reset_slots state_ok_clock_reset by (simp add: tame_def)
  then show ?thesis
    using tame_on_sync [OF assms] tame_on_mlat [of s] tame_stats [of s] tame_state_json [of s now]
    by (cases m) auto
qed

lemma slot_remove:
  assumes "state_ok s" "slot_of s i = Some (g, a)"
  shows "slot_of (remove_receiver s r) i = Some (g, a \<and> (rr_idx r = i \<longrightarrow> \<not> live s r))"
proof (cases "live s r")
  case True
  then show ?thesis
    using assms slots_okD(5) [OF state_okD(1) [OF assms(1)]]
    by (auto simp: slot_of_def remove_slots [OF True] nth_list_update live_def split: if_splits)
next
  case False
  then show ?thesis
    using assms by (simp add: remove_receiver_def)
qed

lemma slot_add:
  assumes ok: "state_ok s" and i: "slot_of s i = Some (g, a)"
  shows "\<exists>g' a'. slot_of (snd (add_receiver s now info)) i = Some (g', a') \<and> (g' = g \<and> (a' \<longrightarrow> a) \<or> g' = g + 1)"
proof -
  obtain res s' where r: "add_receiver s now info = (res, s')"
    by fastforce
  from ok r show ?thesis
  proof (rule add_receiver_cases)
    assume "res = None" "s' = s"
    then show ?thesis
      using i r by auto
  next
    fix k s1 info'
    assume s1: "s1 = s \<or> (\<exists>j. live s (slot_ref s j) \<and> s1 = remove_receiver s (slot_ref s j))"
      and upd: "(k < length (st_receivers s1) \<and> \<not> alive s1 ! k \<and> gens s' = (gens s1)[k := gens s1 ! k + 1] \<and> alive s' = (alive s1)[k := True]
          \<and> length (st_receivers s') = length (st_receivers s1))
       \<or> (k = length (st_receivers s1) \<and> gens s' = gens s1 @ [0] \<and> alive s' = alive s1 @ [True] \<and> length (st_receivers s') = Suc (length (st_receivers s1)))"
    have ok1: "state_ok s1"
      using s1 ok state_ok_remove by auto
    obtain a1 where a1: "slot_of s1 i = Some (g, a1)" "a1 \<longrightarrow> a"
      using s1 i slot_remove [OF ok i] by auto
    show ?thesis
      using upd a1 slots_okD(4,5) [OF state_okD(1) [OF ok1]] r
      by (auto simp: slot_of_def nth_list_update nth_append split: if_splits)
  qed
qed

lemma note_read_slots: "slot_of (note_read s r t) = slot_of s"
  by (simp add: note_read_def slot_of_def fun_eq_iff)

interpretation sh: generations "shard_step hx ord window" state_ok slot_of for hx ord window
proof
  fix s e assume ok: "state_ok s"
  have add: "state_ok (snd (add_receiver s now info))" for now info
    using add_receiver_cases [OF ok prod.collapse [symmetric], of now info] ok by metis
  show "state_ok (shard_step hx ord window s e)"
  proof (cases e)
    case (Msg now m)
    from dispatch_tame [OF ok, of m hx now] show ?thesis
      unfolding Msg shard_step_def shard_event.case
      by (elim disjE exE) (simp_all add: add state_ok_remove [OF ok] tame_ok [OF _ ok])
  next
    case (Tick c)
    then show ?thesis
      using tame_ok [OF tame_sweep [OF ok] ok] by (simp add: shard_step_def)
  qed (simp add: shard_step_def note_read_ok [OF ok])
  fix i g a assume i: "slot_of s i = Some (g, a)"
  show "\<exists>g' a'. slot_of (shard_step hx ord window s e) i = Some (g', a') \<and> (g' = g \<and> (a' \<longrightarrow> a) \<or> g' = g + 1)"
  proof (cases e)
    case (Msg now m)
    from dispatch_tame [OF ok, of m hx now] show ?thesis
      unfolding Msg shard_step_def shard_event.case
    proof (elim disjE exE)
      fix info assume "m = AddReceiver info"
      then show "\<exists>g' a'. slot_of (snd (dispatch hx s now m)) i = Some (g', a') \<and> (g' = g \<and> (a' \<longrightarrow> a) \<or> g' = g + 1)"
        using slot_add [OF ok i, of now info] by simp
    next
      fix r assume "m = RemoveReceiver r"
      then show "\<exists>g' a'. slot_of (snd (dispatch hx s now m)) i = Some (g', a') \<and> (g' = g \<and> (a' \<longrightarrow> a) \<or> g' = g + 1)"
        using slot_remove [OF ok i, of r] by simp
    qed (use i in \<open>simp add: slot_of_tame\<close>)
  next
    case (Tick c)
    then show ?thesis
      using slot_of_tame [OF tame_sweep [OF ok]] i by (simp add: shard_step_def)
  qed (use i in \<open>simp add: shard_step_def note_read_slots\<close>)
qed


subsection \<open>What the sweep leaves\<close>

lemma only_biases_pending: "only_biases s s' \<Longrightarrow> groups s' = groups s \<and> syncpoints s' = syncpoints s"
  by (auto simp: only_biases_def)

lemma publish_pending: "groups (publish_fix i t stamp alt used members sol s) = groups s \<and> syncpoints (publish_fix i t stamp alt used members sol s) = syncpoints s"
proof -
  have "groups (snd (smooth i stamp sol s)) = groups s \<and> syncpoints (snd (smooth i stamp sol s)) = syncpoints s" for s
    by (auto simp: smooth_def Let_def split: option.split prod.split)
  then show ?thesis
    using only_biases_pending [OF only_biases_learn [of "s\<lparr>stats_solved := stats_solved s + 1\<rparr>" True sol "map fst used"]]
    by (simp add: publish_fix_def Let_def emit_def record_fix_def case_prod_beta)
qed

lemma judge_pending:
  "groups (judge_fix i df17 t stamp alt trk gate used benched members sol s) = groups s \<and>
   syncpoints (judge_fix i df17 t stamp alt trk gate used benched members sol s) = syncpoints s"
proof -
  note B = only_biases_pending [OF only_biases_learn] only_biases_pending [OF only_biases_benched]
  have "groups (score_df17 i t stamp n sol s) = groups s \<and> syncpoints (score_df17 i t stamp n sol s) = syncpoints s" for n s
    by (simp add: score_df17_def emit_def split: option.split)
  moreover have "groups (reject s) = groups s \<and> syncpoints (reject s) = syncpoints s"
      "groups (speed_reject i s) = groups s \<and> syncpoints (speed_reject i s) = syncpoints s" for s
    by (simp_all add: reject_def speed_reject_def Let_def)
  ultimately show ?thesis
    by (simp add: judge_fix_def Let_def publish_pending B)
qed

lemma solve_cluster_pending:
  "groups (solve_cluster s now i df17 ref cl members) = groups s \<and> syncpoints (solve_cluster s now i df17 ref cl members) = syncpoints s"
  by (rule solve_cluster_cases [of s now i df17 ref cl members]) (auto simp: judge_pending reject_def)

lemma solve_group_pending: "groups (solve_group clk s g) = groups s \<and> syncpoints (solve_group clk s g) = syncpoints s"
proof -
  have "groups (foldl (\<lambda>s (n, cl). solve_cluster s (clk n) i df17 ref cl members) s cls) = groups s \<and>
      syncpoints (foldl (\<lambda>s (n, cl). solve_cluster s (clk n) i df17 ref cl members) s cls) = syncpoints s" for i df17 ref members cls s
    by (induction cls arbitrary: s) (simp_all add: solve_cluster_pending case_prod_beta)
  then show ?thesis
    by (simp add: solve_group_def Let_def split: option.split)
qed

lemma take_groups_pending:
  "groups (foldl (take_group clk) s ks) = groups s |` (- set ks) \<and> syncpoints (foldl (take_group clk) s ks) = syncpoints s"
proof (induction ks arbitrary: s)
  case (Cons k ks)
  have "groups (take_group clk s k) = (groups s)(k := None) \<and> syncpoints (take_group clk s k) = syncpoints s"
    by (auto simp: take_group_def solve_group_pending fun_upd_idem split: option.split)
  then show ?case
    using Cons.IH [of "take_group clk s k"] by (auto simp: restrict_map_def fun_eq_iff)
qed (simp add: restrict_map_def fun_eq_iff)

subsection \<open>Only the sweep publishes\<close>

lemma out_train_with: "out (train_with i rx te to s x) = out s"
  by (simp add: train_with_def train_def Let_def split: prod.split)

lemma out_join: "out (join_syncpoint key now i rx te to s) = out s"
proof -
  have "out (foldl (train_with i rx te to) s xs) = out s" for s xs
    by (induction xs arbitrary: s) (simp_all add: out_train_with)
  then show ?thesis
    by (simp add: join_syncpoint_def Let_def)
qed

lemma out_on_mlat: "out (on_mlat hx s now r t m at_t) = out s"
  by (simp add: on_mlat_def group_entry_def log_mlat_def Let_def split: option.split)

lemma out_on_sync: "out (on_sync hx s now r et ot em om at_t) = out s"
  by (simp add: on_sync_def sync_event_def log_sync_def out_join out_on_mlat Let_def split: option.split)

lemma out_remove: "out (remove_receiver s r) = out s"
  by (simp add: remove_receiver_def forget_pending_def drop_pairs_def Let_def)

lemma out_add: "out (snd (add_receiver s now info)) = out s"
proof -
  have "out (snd (occupy s info)) = out s" for s info
    by (simp add: occupy_def Let_def)
  moreover have "out s' = out s" if "claim_user s now info = Some (info', s')" for info' s'
    using that by (auto simp: claim_user_def out_remove Let_def split: option.splits if_splits)
  ultimately show ?thesis
    by (auto simp: add_receiver_def elect_reference_def Let_def case_prod_beta split: option.split)
qed

lemma out_dispatch: "out (snd (dispatch hx s now m)) = out s"
  by (cases m) (auto simp: out_add out_remove out_on_sync out_on_mlat clock_reset_def forget_pending_def drop_pairs_def
      receiver_stats_def state_json_def expire_at_def Let_def split: prod.split)

text \<open>A well-formed state all of whose rows so far are within bounds.\<close>

definition rows_ok :: "state \<Rightarrow> bool" where
  "rows_ok s \<longleftrightarrow> state_ok s \<and> pred_option (\<lambda>ms. list_all row_ok (rows ms)) (out s)"

interpretation pub: kept_by_steps "shard_step hx ord window" rows_ok for hx ord window
proof
  fix s e assume ok: "rows_ok s"
  then have s: "state_ok s" and r: "pred_option (\<lambda>ms. list_all row_ok (rows ms)) (out s)"
    by (simp_all add: rows_ok_def)
  have "pred_option (\<lambda>ms. list_all row_ok (rows ms)) (out (shard_step hx ord window s e))"
  proof (cases e)
    case (Tick c)
    have "paced (readings s c (ord (ready_groups s (at_start c) window))) s (shard_step hx ord window s e)"
      unfolding Tick shard_step_def shard_event.case by (rule paced_sweep [OF s])
    then show ?thesis
      using r by (cases "out s") (auto simp: paced_def sends_def)
  qed (use r in \<open>simp_all add: shard_step_def out_dispatch note_read_def\<close>)
  then show "rows_ok (shard_step hx ord window s e)"
    using sh.step_keeps [OF s] by (simp add: rows_ok_def)
qed

subsection \<open>A shard from its start\<close>

lemma start_ok: "rows_ok (set_output (state_new sid scale adsb filtered epoch t))"
  by (simp add: rows_ok_def set_output_ok state_new_ok) (simp add: set_output_def)

lemma run_rows_ok: "rows_ok (run_shard hx ord window (state_new sid scale adsb filtered epoch t) es)"
  unfolding run_shard_def by (rule pub.run_keeps [OF start_ok])

lemma run_ok: "state_ok (run_shard hx ord window (state_new sid scale adsb filtered epoch t) es)"
  using run_rows_ok by (simp add: rows_ok_def)

lemma run_append: "run_shard hx ord window s (es @ fs) = foldl (shard_step hx ord window) (run_shard hx ord window s es) fs"
  by (simp add: run_shard_def)


subsection \<open>Properties\<close>

lemma claim_user_spares:
  assumes c: "claim_user s now info = Some (info', s')" and l: "live s r" and cl: "conn_live s now (rr_idx r)"
    and u: "uuid (st_receivers s ! rr_idx r) = None \<or> uuid (st_receivers s ! rr_idx r) \<noteq> uuid info"
  shows "s' = s \<or> (\<exists>j. j \<noteq> rr_idx r \<and> s' = remove_receiver s (slot_ref s j))"
proof -
  have "s' = s \<or> (\<exists>j. s' = remove_receiver s (slot_ref s j) \<and>
      (\<not> conn_live s now j \<or> (uuid (st_receivers s ! j) \<noteq> None \<and> uuid (st_receivers s ! j) = uuid info)))"
    using c by (auto simp: claim_user_def Let_def split: option.splits if_splits)
  then show ?thesis
    using cl u by metis
qed

lemma remove_keeps_others:
  "st_receivers (remove_receiver s r') = st_receivers s" "rr_idx r' \<noteq> rr_idx r \<Longrightarrow> live (remove_receiver s r') r \<longleftrightarrow> live s r"
  by (simp_all add: remove_receiver_def forget_pending_def drop_pairs_def live_def Let_def)

lemma add_keeps_others:
  assumes ok: "state_ok s" and l: "live s r"
    and spare: "\<And>info' s'. claim_user s now info = Some (info', s') \<Longrightarrow> s' = s \<or> (\<exists>j. j \<noteq> rr_idx r \<and> s' = remove_receiver s (slot_ref s j))"
  shows "live (snd (add_receiver s now info)) r \<and> st_receivers (snd (add_receiver s now info)) ! rr_idx r = st_receivers s ! rr_idx r"
proof (cases "claim_user s now info")
  case None
  then show ?thesis
    using l by (simp add: add_receiver_def)
next
  case (Some c)
  obtain info' s1 where c: "claim_user s now info = Some (info', s1)"
    using Some by (cases c) auto
  obtain i s2 where o: "occupy s1 info' = (i, s2)"
    by fastforce
  have ok1: "slots_ok s1" and u: "by_user s1 (user info') = None"
    using claim_user_cases [OF state_okD(1) [OF ok] c] ok state_ok_remove [OF ok] by (auto simp: state_ok_def)
  have l1: "live s1 r" and same: "st_receivers s1 = st_receivers s"
    using spare [OF c] l by (auto simp: remove_keeps_others)
  have "live s2 r \<and> st_receivers s2 ! rr_idx r = st_receivers s1 ! rr_idx r"
  proof (cases "free_slots s1 = []")
    case True
    then show ?thesis
      using occupy_fresh [OF ok1 True u o] l1 slots_okD(4,5) [OF ok1] by (auto simp: live_def nth_append)
  next
    case False
    then show ?thesis
      using occupy_reused [OF ok1 False u o] l1 by (auto simp: live_def nth_list_update)
  qed
  then show ?thesis
    using c o same by (simp add: add_receiver_def live_def Let_def)
qed

text \<open>
  C1. The shard's state stays well-formed along every run: per-slot vectors keep one
  length, the free list is exactly the empty slots, occupied slots and names correspond
  one to one, and every clock pair, sync point, group, interest and stamp offset names
  occupied slots only. All rows published so far are within bounds: coordinates on the
  globe, an error estimate of at most 10 km, and 4 to 16 distinct contributors.
\<close>

theorem shard_always_well_formed:
  fixes hx ord window sid scale adsb filtered epoch t es
  defines "s \<equiv> run_shard hx ord window (state_new sid scale adsb filtered epoch t) es"
  shows "slots_ok s \<and> refs_ok s \<and> pred_option (\<lambda>ms. list_all row_ok (rows ms)) (out s)"
  using run_rows_ok unfolding s_def rows_ok_def state_ok_def by blast

text \<open>
  C7. A stale handle never comes back to life: once a connection's handle has died, it
  stays dead for any run of fewer than \<open>2\<^sup>3\<^sup>2\<close> events counted from when it was
  live, however often its slot is handed out again, and its late messages change nothing.
\<close>

theorem stale_handle_stays_dead:
  fixes hx ord window sid scale adsb filtered epoch t es fs gs r
  defines "run \<equiv> run_shard hx ord window (state_new sid scale adsb filtered epoch t)"
  assumes "live (run es) r" "\<not> live (run (es @ fs)) r" "length (fs @ gs) < 2 ^ 32"
  shows "\<not> live (run (es @ fs @ gs)) r \<and>
    shard_step hx ord window (run (es @ fs @ gs)) (Msg now (Sync r et ot em om at_t)) = run (es @ fs @ gs) \<and>
    shard_step hx ord window (run (es @ fs @ gs)) (Msg now (Mlat r tc f at_t)) = run (es @ fs @ gs) \<and>
    shard_step hx ord window (run (es @ fs @ gs)) (Msg now (ClockReset r)) = run (es @ fs @ gs) \<and>
    shard_step hx ord window (run (es @ fs @ gs)) (Msg now (RemoveReceiver r)) = run (es @ fs @ gs)"
proof -
  have dead: "\<not> live (run (es @ fs @ gs)) r"
    using sh.dead_stays_dead [OF run_ok, of hx ord window sid scale adsb filtered epoch t es "rr_idx r" "rr_gen r" hx ord window fs gs] assms(2-4)
    unfolding run_def run_append [symmetric] live_slot_of by simp
  then show ?thesis
    by (simp add: shard_step_def on_sync_def on_mlat_def clock_reset_def remove_receiver_def)
qed

text \<open>
  A newcomer never evicts a live stranger: if a connection is heard within the limit
  and its feeder is not known to be the newcomer's (no uuid, or another), it keeps its
  slot, its handle and its record whatever name the newcomer claims.
\<close>

theorem newcomer_spares_live_stranger:
  fixes hx ord window sid scale adsb filtered epoch t es r now info
  defines "s \<equiv> run_shard hx ord window (state_new sid scale adsb filtered epoch t) es"
  assumes "live s r" "conn_live s now (rr_idx r)"
    and "uuid (st_receivers s ! rr_idx r) = None \<or> uuid (st_receivers s ! rr_idx r) \<noteq> uuid info"
  shows "live (snd (add_receiver s now info)) r \<and> st_receivers (snd (add_receiver s now info)) ! rr_idx r = st_receivers s ! rr_idx r"
  unfolding s_def
  by (rule add_keeps_others [OF run_ok]) (use assms claim_user_spares in \<open>simp_all add: s_def\<close>)

text \<open>
  C21. What a newcomer gets: a refusal leaves the state as it is and only happens when its
  name is held by a live connection; an admission yields a handle that is live and was
  not live before, to a slot that holds the newcomer under its own name or that name with
  a dash and its uuid's first eight alphanumerics, and the name leads back to the slot.
\<close>

theorem add_receiver_outcome:
  fixes hx ord window sid scale adsb filtered epoch t es now info
  defines "s \<equiv> run_shard hx ord window (state_new sid scale adsb filtered epoch t) es"
  shows "case add_receiver s now info of
      (None, s') \<Rightarrow> s' = s \<and> (\<exists>old. by_user s (user info) = Some old \<and> conn_live s now old)
    | (Some r, s') \<Rightarrow> live s' r \<and> \<not> live s r \<and>
        (\<exists>name. (name = user info \<or> (\<exists>u. uuid info = Some u \<and> name = user info @ ''-'' @ take 8 (filter is_alnum u))) \<and>
          st_receivers s' ! rr_idx r = info\<lparr>user := name\<rparr> \<and> by_user s' name = Some (rr_idx r))"
proof -
  obtain res s' where r: "add_receiver s now info = (res, s')"
    by fastforce
  have ok: "state_ok s"
    unfolding s_def by (rule run_ok)
  show ?thesis
  proof (rule add_receiver_cases [OF ok r])
    assume "res = None" "s' = s"
    moreover have "\<exists>old. by_user s (user info) = Some old \<and> conn_live s now old"
      using r \<open>res = None\<close> by (auto simp: add_receiver_def claim_user_def Let_def case_prod_beta split: option.splits if_splits)
    ultimately show ?thesis
      using r by simp
  next
    fix i s1 info'
    assume a: "res = Some (slot_ref s' i)" "i < length (st_receivers s')" "alive s' ! i" "st_receivers s' ! i = info'"
        "by_user s' (user info') = Some i" "claim_user s now info = Some (info', s1)"
      and s1: "s1 = s \<or> (\<exists>j. live s (slot_ref s j) \<and> s1 = remove_receiver s (slot_ref s j))"
      and upd: "(i < length (st_receivers s1) \<and> \<not> alive s1 ! i \<and> gens s' = (gens s1)[i := gens s1 ! i + 1] \<and> alive s' = (alive s1)[i := True]
          \<and> length (st_receivers s') = length (st_receivers s1))
       \<or> (i = length (st_receivers s1) \<and> gens s' = gens s1 @ [0] \<and> alive s' = alive s1 @ [True] \<and> length (st_receivers s') = Suc (length (st_receivers s1)))"
    have ok1: "slots_ok s1" and f: "gens s1 = gens s" "length (st_receivers s1) = length (st_receivers s)"
      using s1 ok state_ok_remove [OF ok] remove_slots(1,2) by (auto simp: state_ok_def)
    have dead: "\<not> live s (slot_ref s' i)"
      using upd slots_okD(4) [OF ok1] by (auto simp: live_def f)
    have name: "info' = info\<lparr>user := user info'\<rparr> \<and>
        (user info' = user info \<or> (\<exists>u. uuid info = Some u \<and> user info' = user info @ ''-'' @ take 8 (filter is_alnum u)))"
      using a(6) by (auto simp: claim_user_def Let_def split: option.splits if_splits)
    show ?thesis
      unfolding r a(1) prod.case option.case slot_ref_simps
      by (intro conjI exI [of _ "user info'"]) (use a dead name in \<open>simp_all add: live_slot_ref\<close>)
  qed
qed


text \<open>
  C20. A sweep paces each aircraft: every row it sends was published at the clock reading of
  one of the clusters it solved, and of two rows of one aircraft the later was published at
  least 0.4 s after the earlier, on the scaled clock; so a sweep that takes less than that
  publishes each aircraft at most once. It takes every group it was told to take and no
  other out of the pending groups, and keeps exactly the sync points younger than four
  seconds. No other event sends anything.
\<close>

theorem sweep_paces_aircraft:
  fixes hx ord window sid scale adsb filtered epoch t es c ready e
  defines "s \<equiv> run_shard hx ord window (state_new sid scale adsb filtered epoch t) es"
  shows "(\<exists>ms ts. out (sweep ready s c) = map_option (\<lambda>xs. xs @ ms) (out s) \<and> list_all row_ok (rows ms) \<and>
      length ts = length (rows ms) \<and> set ts \<subseteq> {scaled_now s (at_cluster c k n) | k n. k \<in> set ready} \<and> sorted_wrt apart (zip (rows ms) ts)) \<and>
    groups (sweep ready s c) = groups s |` (- set ready) \<and>
    syncpoints (sweep ready s c) = retain (\<lambda>_ sp. at_start c - sp_created sp < 4) (syncpoints s) \<and>
    (case e of Tick _ \<Rightarrow> True | _ \<Rightarrow> out (shard_step hx ord window s e) = out s)"
proof (intro conjI)
  have "paced (readings s c ready) s (sweep ready s c)"
    unfolding s_def by (rule paced_sweep [OF run_ok])
  then show "\<exists>ms ts. out (sweep ready s c) = map_option (\<lambda>xs. xs @ ms) (out s) \<and> list_all row_ok (rows ms) \<and>
      length ts = length (rows ms) \<and> set ts \<subseteq> {scaled_now s (at_cluster c k n) | k n. k \<in> set ready} \<and> sorted_wrt apart (zip (rows ms) ts)"
    unfolding paced_def sends_def readings_def by blast
  show "groups (sweep ready s c) = groups s |` (- set ready)"
    "syncpoints (sweep ready s c) = retain (\<lambda>_ sp. at_start c - sp_created sp < 4) (syncpoints s)"
    by (simp_all add: sweep_def take_groups_pending expire_at_def Let_def)
  show "case e of Tick _ \<Rightarrow> True | _ \<Rightarrow> out (shard_step hx ord window s e) = out s"
    by (simp add: shard_step_def out_dispatch note_read_def split: shard_event.split)
qed

text \<open>
  C39. The status reports list exactly the connected receivers: at any point of a run,
  sync.json and clients.json have an entry for a name if and only if an occupied slot
  holds it, made from that slot, and the entry counts a receiver's live clock peers.
  aircraft.json has a row exactly for the aircraft heard within \<open>AC_EXPIRE_S\<close>; no row is
  older than that, so the field \<open>tracking_receivers\<close>, reserved to rows older than ten
  minutes, is never written.
\<close>

theorem reports_list_connected_receivers:
  fixes hx ord window sid scale adsb filtered epoch t es now u k
  defines "s \<equiv> run_shard hx ord window (state_new sid scale adsb filtered epoch t) es"
  defines "s' \<equiv> expire_at s (scaled_now s now)"
  shows "sync_json s u = map_option (sync_row_of s) (by_user s u) \<and>
    fst (fst (state_json s now)) u = map_option (client_row_of s') (by_user s u) \<and>
    peer_count (client_row_of s' i) = card {b. pairs s (i, b) \<noteq> None} \<and>
    dom (snd (fst (state_json s now))) = {k. \<exists>a. ac_log s k = Some a \<and> scaled_now s now - seen a < AC_EXPIRE_S} \<and>
    (case snd (fst (state_json s now)) k of
       None \<Rightarrow> True | Some row \<Rightarrow> elapsed_seen row \<le> AC_EXPIRE_S \<and> tracking_receivers row = None)"
proof -
  have ok: "state_ok s"
    unfolding s_def by (rule run_ok)
  have t: "tame s s'"
    unfolding s'_def by (rule tame_expire)
  then have "by_user s' = by_user s"
    by (simp add: tame_def same_slots_def)
  moreover have "{b. pairs s (i, b) \<noteq> None \<and> alive s ! b} = {b. pairs s (i, b) \<noteq> None}"
    using refs_okD(1) [OF state_okD(2) [OF ok]] by auto
  moreover have "dom (ac_log s') = {k. \<exists>a. ac_log s k = Some a \<and> scaled_now s now - seen a < AC_EXPIRE_S}"
    by (auto simp: s'_def expire_at_def Let_def dom_def)
  moreover have "pairs s' = pairs s" "alive s' = alive s"
    by (simp_all add: s'_def expire_at_def Let_def)
  moreover have "case map_option (aircraft_row_of s' (scaled_now s now) k) (ac_log s' k) of
      None \<Rightarrow> True | Some row \<Rightarrow> elapsed_seen row \<le> AC_EXPIRE_S \<and> tracking_receivers row = None"
  proof (cases "ac_log s' k")
    case (Some a)
    then have "scaled_now s now - seen a < AC_EXPIRE_S"
      by (auto simp: s'_def expire_at_def Let_def split: if_splits)
    then show ?thesis
      by (simp add: Some recent_row)
  qed simp
  ultimately show ?thesis
    using per_client_lookup [OF state_okD(1) [OF ok], of "sync_row_of s" u]
      per_client_lookup [OF state_okD(1) [OF tame_ok [OF t ok]], of "client_row_of s'" u]
    by (simp add: sync_json_def state_json_def client_row_of_def case_prod_beta Let_def dom_def flip: s'_def)
qed

text \<open>Two connections for the examples below: any name, heard at time 0, no uuid.\<close>

definition example_rx :: "string \<Rightarrow> receiver_info" where
  "example_rx name = \<lparr>user = name, uid = 1, uuid = None, privacy = True, connection_info = [], source_ip = [], source_port = 0,
     geo = \<lparr>lat_deg = 47, lon_deg = - 1, alt_m = 40\<rparr>, rx_ecef = \<lparr>ecef_x = 0, ecef_y = 0, ecef_z = 0\<rparr>, freq_hz = 12000000,
     gps = False, jitter_s = 1, last_read = 0\<rparr>"

lemmas example_defs = run_shard_def shard_step_def set_output_def state_new_def add_receiver_def claim_user_def occupy_def
  elect_reference_def slot_ref_def live_def remove_receiver_def forget_pending_def drop_pairs_def example_rx_def conn_live_def
  scaled_now_def CONNECTION_LIVE_S_def

theorem stale_handle_stays_dead_witness:
  "\<not> live (run_shard (\<lambda>_. None) (\<lambda>_. []) 1 (state_new 0 1 False False (0, 0) 0)
      [Msg 0 (AddReceiver (example_rx ''a'')), Msg 1 (RemoveReceiver \<lparr>rr_idx = 0, rr_gen = 0\<rparr>), Msg 2 (AddReceiver (example_rx ''b''))])
     \<lparr>rr_idx = 0, rr_gen = 0\<rparr>"
  using stale_handle_stays_dead [of "\<lambda>_. None" "\<lambda>_. []" 1 0 1 False False "(0, 0)" 0 "[Msg 0 (AddReceiver (example_rx ''a''))]"
      "\<lparr>rr_idx = 0, rr_gen = 0\<rparr>" "[Msg 1 (RemoveReceiver \<lparr>rr_idx = 0, rr_gen = 0\<rparr>)]" "[Msg 2 (AddReceiver (example_rx ''b''))]"]
  by (simp add: example_defs Let_def)

theorem newcomer_spares_live_stranger_witness:
  "live (snd (add_receiver (run_shard (\<lambda>_. None) (\<lambda>_. []) 1 (state_new 0 1 False False (0, 0) 0) [Msg 0 (AddReceiver (example_rx ''a''))])
     10 (example_rx ''a''))) \<lparr>rr_idx = 0, rr_gen = 0\<rparr>"
  using newcomer_spares_live_stranger [of "\<lambda>_. None" "\<lambda>_. []" 1 0 1 False False "(0, 0)" 0 "[Msg 0 (AddReceiver (example_rx ''a''))]"
      "\<lparr>rr_idx = 0, rr_gen = 0\<rparr>" 10 "example_rx ''a''"]
  by (simp add: example_defs Let_def)

end
