(* ===== verification/Calendar.thy ===== *)
theory Calendar
  imports Text
begin

text \<open>
  The UTC date and time of a Unix stamp: \<open>sbs_datetime\<close> of
  \<^verbatim>\<open>crates/mlatd/src/state.rs\<close>, against the Gregorian calendar in closed form.
\<close>

definition leap :: "int \<Rightarrow> bool" where
  "leap y \<longleftrightarrow> (y mod 4 = 0 \<and> y mod 100 \<noteq> 0) \<or> y mod 400 = 0"

definition year_len :: "int \<Rightarrow> int" where
  "year_len y = (if leap y then 366 else 365)"

lemma year_len_pos: "0 < year_len y"
  by (simp add: year_len_def)

function year_loop :: "int \<Rightarrow> int \<Rightarrow> int \<times> int" where
  "year_loop y r = (if r < year_len y then (y, r) else year_loop (y + 1) (r - year_len y))"
  by pat_completeness auto
termination
proof (relation "measure (\<lambda>(y, r). nat r)")
  fix y r :: int assume "\<not> r < year_len y"
  then show "((y + 1, r - year_len y), y, r) \<in> measure (\<lambda>(y, r). nat r)"
    using year_len_pos [of y] by simp
qed simp

declare year_loop.simps [simp del]

definition month_lens :: "int \<Rightarrow> int list" where
  "month_lens y = [31, if leap y then 29 else 28, 31, 30, 31, 30, 31, 31, 30, 31, 30, 31]"

text \<open>The search for the month; running past December would be an index out of bounds.\<close>

fun month_loop :: "int list \<Rightarrow> int \<Rightarrow> int \<Rightarrow> (int \<times> int) option" where
  "month_loop [] m r = None"
| "month_loop (l # ls) m r = (if l \<le> r then month_loop ls (m + 1) (r - l) else Some (m, r))"

record date_time =
  dt_year :: int
  dt_month :: int
  dt_day :: int
  dt_secs :: int
  dt_millis :: int

definition date_time_of :: "real \<Rightarrow> date_time option" where
  "date_time_of unix =
     (let secs = as_i64 unix; days = trunc_div secs 86400; (y, r) = year_loop 1970 days
      in map_option (\<lambda>(m, d). \<lparr>dt_year = y, dt_month = m + 1, dt_day = d + 1, dt_secs = secs mod 86400,
             dt_millis = as_i64 ((unix - of_int secs) * 1000)\<rparr>)
           (month_loop (month_lens y) 0 r))"

definition sbs_datetime :: "real \<Rightarrow> (string \<times> string) option" where
  "sbs_datetime unix =
     map_option (\<lambda>t. (fmt_int 4 (dt_year t) @ ''/'' @ fmt_int 2 (dt_month t) @ ''/'' @ fmt_int 2 (dt_day t),
                      fmt_int 2 (dt_secs t div 3600) @ '':'' @ fmt_int 2 (dt_secs t div 60 mod 60) @ '':'' @
                      fmt_int 2 (dt_secs t mod 60) @ ''.'' @ fmt_int 3 (dt_millis t)))
       (date_time_of unix)"

subsection \<open>The calendar in closed form\<close>

text \<open>Days from the first of January 1970 to the first of January of \<open>y\<close>, and from there to a month.\<close>

definition days_to_year :: "int \<Rightarrow> int" where
  "days_to_year y = 365 * (y - 1970) + ((y - 1) div 4 - (y - 1) div 100 + (y - 1) div 400) - 477"

definition days_to_month :: "int \<Rightarrow> int \<Rightarrow> int" where
  "days_to_month y m = (367 * m - 362) div 12 + (if m \<le> 2 then 0 else if leap y then - 1 else - 2)"

definition day_number :: "int \<Rightarrow> int \<Rightarrow> int \<Rightarrow> int" where
  "day_number y m d = days_to_year y + days_to_month y m + (d - 1)"

definition days_in_month :: "int \<Rightarrow> int \<Rightarrow> int" where
  "days_in_month y m = (if m = 2 then if leap y then 29 else 28 else if m \<in> {4, 6, 9, 11} then 30 else 31)"

lemma div_step:
  assumes "0 < n"
  shows "(y :: int) div n = (y - 1) div n + (if y mod n = 0 then 1 else 0)"
proof -
  have y: "y = n * (y div n) + y mod n" "0 \<le> y mod n" "y mod n < n"
    using assms by simp_all
  show ?thesis
  proof (cases "y mod n = 0")
    case True
    have "(y - 1) div n = y div n - 1"
      by (rule int_div_pos_eq [where r = "n - 1"]) (use y True assms in \<open>auto simp: algebra_simps\<close>)
    with True show ?thesis
      by simp
  next
    case False
    have "(y - 1) div n = y div n"
      by (rule int_div_pos_eq [where r = "y mod n - 1"]) (use y False assms in linarith)+
    with False show ?thesis
      by simp
  qed
qed

lemma days_to_year_step: "days_to_year (y + 1) = days_to_year y + year_len y"
proof -
  have "y mod 100 = 0 \<Longrightarrow> y mod 4 = 0" "y mod 400 = 0 \<Longrightarrow> y mod 100 = 0"
    by presburger+
  then have l: "(if leap y then 1 else 0) = (if y mod 4 = 0 then 1 else 0) - (if y mod 100 = 0 then 1 else 0) + (if y mod 400 = 0 then 1 else (0 :: int))"
    unfolding leap_def by simp
  have "y div 4 - y div 100 + y div 400 = (y - 1) div 4 - (y - 1) div 100 + (y - 1) div 400 + (if leap y then 1 else 0)"
    unfolding l div_step [of 4 y, OF zero_less_numeral] div_step [of 100 y, OF zero_less_numeral] div_step [of 400 y, OF zero_less_numeral]
    by (simp only: algebra_simps)
  moreover have "y + 1 - 1 = y"
    by simp
  ultimately show ?thesis
    unfolding days_to_year_def year_len_def by (cases "leap y") (simp_all only: if_True if_False, simp_all)
qed

lemma days_to_year_epoch: "days_to_year 1970 = 0"
  by (simp add: days_to_year_def)

subsection \<open>The loops\<close>

lemma year_loop_correct:
  "0 \<le> r \<Longrightarrow> year_loop y r = (y', r') \<Longrightarrow> y \<le> y' \<and> 0 \<le> r' \<and> r' < year_len y' \<and> days_to_year y' + r' = days_to_year y + r"
proof (induction y r rule: year_loop.induct)
  case (1 y r)
  show ?case
  proof (cases "r < year_len y")
    case True
    then show ?thesis
      using 1(2,3) by (simp add: year_loop.simps [of y r])
  next
    case False
    then show ?thesis
      using 1 days_to_year_step [of y] by (simp add: year_loop.simps [of y r])
  qed
qed

lemma month_loop_correct:
  assumes "0 \<le> r" "r < year_len y"
  shows "\<exists>m d. month_loop (month_lens y) 0 r = Some (m, d) \<and> 0 \<le> m \<and> m < 12 \<and> 0 \<le> d \<and> d < days_in_month y (m + 1) \<and>
    days_to_month y (m + 1) + d = r"
  using assms by (cases "leap y") (auto simp: month_lens_def year_len_def days_in_month_def days_to_month_def)

lemma as_i64_id: "0 \<le> x \<Longrightarrow> x < 2 ^ 63 \<Longrightarrow> as_i64 x = \<lfloor>x\<rfloor>"
proof -
  assume "0 \<le> x" "x < 2 ^ 63"
  then have "0 \<le> \<lfloor>x\<rfloor>" "\<lfloor>x\<rfloor> < 2 ^ 63"
    by (simp_all add: floor_less_iff)
  then show ?thesis
    using \<open>0 \<le> x\<close> by (simp add: as_i64_def trunc_real_def saturate_def)
qed

lemma sbs_datetime_total: "0 \<le> unix \<Longrightarrow> unix < 2 ^ 63 \<Longrightarrow> \<exists>d tm. sbs_datetime unix = Some (d, tm)"
proof -
  assume u: "0 \<le> unix" "unix < 2 ^ 63"
  obtain y r where y: "year_loop 1970 (\<lfloor>unix\<rfloor> div 86400) = (y, r)"
    by fastforce
  have "0 \<le> \<lfloor>unix\<rfloor> div 86400"
    using u(1) by (simp add: pos_imp_zdiv_nonneg_iff)
  then have "\<exists>m d. month_loop (month_lens y) 0 r = Some (m, d)"
    using year_loop_correct [OF _ y] month_loop_correct [of r y] by blast
  then show ?thesis
    using u y by (auto simp: sbs_datetime_def date_time_of_def as_i64_id trunc_div_nonneg Let_def)
qed

subsection \<open>Properties\<close>

text \<open>
  C18. The date and time on an output line are those of the stamp: for every stamp from 1970
  on, the loops end on a real date of the Gregorian calendar (a month from 1 to 12 and a day
  that month has) whose day number in closed form, times 86400, plus the seconds of the
  day is the stamp in whole seconds, and the milliseconds are its truncated fraction. Up
  to the year 9999 the two texts have their fixed widths of 10 and 12 characters.
\<close>

theorem sbs_datetime_correct:
  assumes "0 \<le> unix" "unix < 2 ^ 63"
  shows "\<exists>t date time. date_time_of unix = Some t \<and> sbs_datetime unix = Some (date, time) \<and>
    day_number (dt_year t) (dt_month t) (dt_day t) * 86400 + dt_secs t = \<lfloor>unix\<rfloor> \<and>
    1970 \<le> dt_year t \<and> 1 \<le> dt_month t \<and> dt_month t \<le> 12 \<and> 1 \<le> dt_day t \<and> dt_day t \<le> days_in_month (dt_year t) (dt_month t) \<and>
    0 \<le> dt_secs t \<and> dt_secs t < 86400 \<and> dt_millis t = \<lfloor>frac unix * 1000\<rfloor> \<and>
    (9999 < dt_year t \<or> length date = 10 \<and> length time = 12)"
proof -
  define secs where "secs = \<lfloor>unix\<rfloor>"
  have s: "as_i64 unix = secs" "0 \<le> secs" "trunc_div secs 86400 = secs div 86400" "0 \<le> secs div 86400"
    using as_i64_id [OF assms] assms(1) pos_imp_zdiv_nonneg_iff [of 86400 secs] by (simp_all add: secs_def trunc_div_nonneg)
  obtain y r where y: "year_loop 1970 (secs div 86400) = (y, r)"
    by fastforce
  note Y = year_loop_correct [OF s(4) y]
  obtain m d where m: "month_loop (month_lens y) 0 r = Some (m, d)" "0 \<le> m" "m < 12" "0 \<le> d" "d < days_in_month y (m + 1)"
      "days_to_month y (m + 1) + d = r"
    using month_loop_correct [of r y] Y by blast
  define t where "t = \<lparr>dt_year = y, dt_month = m + 1, dt_day = d + 1, dt_secs = secs mod 86400,
      dt_millis = as_i64 ((unix - of_int secs) * 1000)\<rparr>"
  have t: "date_time_of unix = Some t"
    by (simp add: date_time_of_def s y m(1) t_def Let_def)
  have f: "unix - of_int secs = frac unix" "0 \<le> frac unix" "frac unix < 1"
    by (simp_all add: secs_def frac_def frac_lt_1 [unfolded frac_def])
  have "frac unix * 1000 < 2 ^ 63"
    using f(3) by simp
  then have ms: "dt_millis t = \<lfloor>frac unix * 1000\<rfloor>" "0 \<le> dt_millis t" "dt_millis t < 1000"
    using as_i64_id [of "frac unix * 1000"] f by (simp_all add: t_def floor_less_iff)
  have w: "length (fmt_int w k) = w" if "0 \<le> k" "k < 10 ^ w" "0 < w" for w k
  proof -
    have "nat k < 10 ^ w"
      using that(1,2) by (metis nat_less_iff of_nat_numeral of_nat_power)
    then show ?thesis
      using that dec_length [of w "nat k"] by (simp add: fmt_int_def pad0_length)
  qed
  have dm: "d < 31"
    using m(5) by (auto simp: days_in_month_def split: if_splits)
  have len: "length (fmt_int 4 (dt_year t)) = 4" if "dt_year t \<le> 9999"
    using that Y by (intro w) (simp_all add: t_def)
  have lens: "length (fmt_int 2 (dt_month t)) = 2" "length (fmt_int 2 (dt_day t)) = 2"
    "length (fmt_int 2 (dt_secs t div 3600)) = 2" "length (fmt_int 2 (dt_secs t div 60 mod 60)) = 2"
    "length (fmt_int 2 (dt_secs t mod 60)) = 2" "length (fmt_int 3 (dt_millis t)) = 3"
    using m(2-4) dm ms pos_mod_bound [of 60 "dt_secs t div 60"] pos_mod_bound [of 60 "dt_secs t"]
    by (auto intro!: w simp: t_def)
  have sum: "day_number (dt_year t) (dt_month t) (dt_day t) * 86400 + dt_secs t = secs"
  proof -
    have "day_number (dt_year t) (dt_month t) (dt_day t) = secs div 86400"
      using Y m(6) by (simp add: t_def day_number_def days_to_year_epoch)
    then show ?thesis
      by (simp add: t_def)
  qed
  have range: "1970 \<le> dt_year t" "1 \<le> dt_month t" "dt_month t \<le> 12" "1 \<le> dt_day t" "dt_day t \<le> days_in_month (dt_year t) (dt_month t)"
      "0 \<le> dt_secs t" "dt_secs t < 86400"
    using Y m(2-5) by (simp_all add: t_def)
  obtain date time where dt: "sbs_datetime unix = Some (date, time)" "9999 < dt_year t \<or> length date = 10 \<and> length time = 12"
    using len lens by (cases "9999 < dt_year t") (auto simp: sbs_datetime_def t)
  show ?thesis
    using t dt sum range ms(1) unfolding secs_def by blast
qed

theorem sbs_datetime_correct_witness:
  "\<exists>t. date_time_of 1234567890.5 = Some t \<and> day_number (dt_year t) (dt_month t) (dt_day t) * 86400 + dt_secs t = 1234567890 \<and>
    day_number 2009 2 13 * 86400 + 84690 = 1234567890"
proof -
  have "\<lfloor>1234567890.5 :: real\<rfloor> = 1234567890"
    by (rule floor_unique) simp_all
  moreover have "day_number 2009 2 13 = 14288"
    by (simp add: day_number_def days_to_year_def days_to_month_def)
  ultimately show ?thesis
    using sbs_datetime_correct [of "1234567890.5"] by fastforce
qed

end
