(* ===== verification/Lines.thy ===== *)
theory Lines
  imports Calendar State
begin

text \<open>
  The text a published fix leaves the server as: the CSV row, the SBS line and the result
  message of \<open>solve_cluster\<close> in \<^verbatim>\<open>crates/mlatd/src/state.rs\<close>, made from the values of an
  \<open>out_row\<close>, and the SBS parser of \<^verbatim>\<open>crates/mb-proto/src/sbs.rs\<close> that reads them back.
\<close>

definition csv_line :: "out_row \<Rightarrow> real \<Rightarrow> real \<Rightarrow> string" where
  "csv_line r la lo =
     (let n = or_nstations r
      in fmt_fixed 3 (or_stamp r) @ '','' @ to_hex (or_icao r) @ '',,,'' @ fmt_fixed 5 la @ '','' @ fmt_fixed 5 lo @ '','' @
         fmt_int 0 (or_alt_ft r) @ '','' @ fmt_fixed 1 (or_err_m r) @ '','' @ dec n @ '','' @ dec n @ '',\"'' @
         join_with CHR '','' (or_users r) @ ''\",'' @ dec (n - 4) @ '','' @ [CHR 0x0A])"

definition filtered_line :: "out_row \<Rightarrow> string option" where
  "filtered_line r = map_option (\<lambda>p. csv_line r (lat_deg p) (lon_deg p)) (or_filtered r)"

definition sbs_line :: "out_row \<Rightarrow> string option" where
  "sbs_line r =
     map_option (\<lambda>(d, tm).
       join_with CHR '','' [''MSG'', ''3'', ''1'', ''1'', to_ascii_uppercase (to_hex (or_icao r)), ''1'', d, tm, d, tm, [],
         fmt_int 0 (or_alt_ft r), [], [], fmt_fixed 5 (or_lat r), fmt_fixed 5 (or_lon r), [], [], [], [], [], ''0''] @ [CHR 0x0D, CHR 0x0A])
       (sbs_datetime (or_stamp r))"

definition quoted :: "string \<Rightarrow> string" where
  "quoted s = CHR 0x22 # s @ [CHR 0x22]"

definition result_line :: "out_row \<Rightarrow> string" where
  "result_line r =
     ''{'' @ quoted ''result'' @ '':{'' @ quoted ''@'' @ '':'' @ fmt_fixed 3 (or_stamp r) @ '','' @ quoted ''addr'' @ '':'' @ quoted (to_hex (or_icao r)) @
     '','' @ quoted ''lat'' @ '':'' @ fmt_fixed 5 (or_lat r) @ '','' @ quoted ''lon'' @ '':'' @ fmt_fixed 5 (or_lon r) @
     '','' @ quoted ''alt'' @ '':'' @ fmt_int 0 (or_alt_ft r) @ '','' @ quoted ''callsign'' @ '':null,'' @ quoted ''squawk'' @ '':null,'' @
     quoted ''hdop'' @ '':0.0,'' @ quoted ''vdop'' @ '':0.0,'' @ quoted ''tdop'' @ '':0.0,'' @ quoted ''gdop'' @ '':0.0,'' @
     quoted ''nstations'' @ '':'' @ dec (or_nstations r) @ ''}}'' @ [CHR 0x0A]"

definition is_for :: "out_row \<Rightarrow> nat \<Rightarrow> bool" where
  "is_for r u \<longleftrightarrow> u \<in> set (or_recipients r)"

subsection \<open>The SBS parser\<close>

record sbs_position =
  sbs_icao_hex :: string
  sbs_alt_ft :: "float_lit option"
  sbs_lat :: "float_lit option"
  sbs_lon :: "float_lit option"

definition parse_sbs_line :: "string \<Rightarrow> sbs_position option" where
  "parse_sbs_line line =
     (let f = split_on CHR '','' (trim_end line);
          num = (\<lambda>i. if i < length f then parse_f64 (trim (f ! i)) else None)
      in if f ! 0 \<noteq> ''MSG'' \<or> length f < 5 then None
         else let hx = to_ascii_lowercase (trim (f ! 4))
              in if hx = [] then None
                 else Some \<lparr>sbs_icao_hex = hx, sbs_alt_ft = num 11, sbs_lat = num 14, sbs_lon = num 15\<rparr>)"

subsection \<open>Lemmas\<close>

lemma trim_plain: "\<forall>c \<in> set s. \<not> is_white c \<Longrightarrow> trim s = s"
proof -
  assume p: "\<forall>c \<in> set s. \<not> is_white c"
  have "dropWhile is_white s = s" "dropWhile is_white (rev s) = rev s"
    using p last_in_set [of s] hd_in_set [of s] by (auto simp: dropWhile_eq_self_iff hd_rev)
  then show ?thesis
    by (simp add: trim_def)
qed

lemma trim_number: "list_all number_char s \<Longrightarrow> trim s = s"
  by (rule trim_plain) (auto simp: list_all_iff dest: number_char_plain)

lemma hex_digit_case: "d < 16 \<Longrightarrow> to_ascii_lowercase (to_ascii_uppercase [hex_digit d]) = [hex_digit d]"
  by (auto simp: to_ascii_lowercase_def to_ascii_uppercase_def hex_digit_def Let_def)

lemma upper_hex_plain: "d < 16 \<Longrightarrow> to_ascii_uppercase [hex_digit d] = [c] \<Longrightarrow> \<not> is_white c \<and> c \<noteq> CHR '',''"
  by (auto simp: to_ascii_uppercase_def hex_digit_def is_white_def Let_def split: if_splits dest!: arg_cong [of _ _ "of_char :: char \<Rightarrow> nat"])

lemma upper_hex:
  "to_ascii_lowercase (to_ascii_uppercase (to_hex i)) = to_hex i" "\<forall>c \<in> set (to_ascii_uppercase (to_hex i)). \<not> is_white c \<and> c \<noteq> CHR '',''"
proof -
  have h: "\<exists>d < 16. c = hex_digit d" if "c \<in> set (to_hex i)" for c
    using that set_hex_fixed by (auto simp: to_hex_def)
  show "to_ascii_lowercase (to_ascii_uppercase (to_hex i)) = to_hex i"
    unfolding to_ascii_lowercase_def to_ascii_uppercase_def map_map
    by (rule map_idI) (use h hex_digit_case in \<open>fastforce simp: to_ascii_lowercase_def to_ascii_uppercase_def\<close>)
  show "\<forall>c \<in> set (to_ascii_uppercase (to_hex i)). \<not> is_white c \<and> c \<noteq> CHR '',''"
    using h upper_hex_plain by (fastforce simp: to_ascii_uppercase_def)
qed

lemma to_hex_nonempty: "to_hex i \<noteq> []"
  by (metis length_hex_fixed list.size(3) to_hex_def zero_neq_numeral)

lemma datetime_plain:
  assumes "sbs_datetime t = Some (d, tm)"
  shows "CHR '','' \<notin> set d" "CHR '','' \<notin> set tm"
proof -
  have n: "CHR '','' \<notin> set (fmt_int w k)" for w k
    using number_chars(2) [of w k] number_char_plain by (auto simp: list_all_iff)
  show "CHR '','' \<notin> set d" "CHR '','' \<notin> set tm"
    using assms n by (auto simp: sbs_datetime_def)
qed

lemma trim_end_crlf: "s \<noteq> [] \<Longrightarrow> \<not> is_white (last s) \<Longrightarrow> trim_end (s @ [CHR 0x0D, CHR 0x0A]) = s"
  by (cases s rule: rev_cases) (simp_all add: trim_end_def is_white_def)

text \<open>
  The SBS line of a row stamped from 1970 on is read back by the SBS parser: the address and
  the altitude exactly, both coordinates to within half a unit of the fifth decimal.
\<close>

lemma sbs_line_reads:
  assumes "0 \<le> or_stamp r" "or_stamp r < 2 ^ 63"
  shows "\<exists>l p la lo. sbs_line r = Some l \<and> parse_sbs_line l = Some p \<and> sbs_icao_hex p = to_hex (or_icao r) \<and>
    sbs_alt_ft p = Some (Finite (of_int (or_alt_ft r))) \<and> sbs_lat p = Some (Finite la) \<and> sbs_lon p = Some (Finite lo) \<and>
    \<bar>la - or_lat r\<bar> \<le> 0.000005 \<and> \<bar>lo - or_lon r\<bar> \<le> 0.000005"
proof -
  obtain d tm where dt: "sbs_datetime (or_stamp r) = Some (d, tm)"
    using sbs_datetime_total [OF assms] by blast
  define fs where "fs = [''MSG'', ''3'', ''1'', ''1'', to_ascii_uppercase (to_hex (or_icao r)), ''1'', d, tm, d, tm, [],
         fmt_int 0 (or_alt_ft r), [], [], fmt_fixed 5 (or_lat r), fmt_fixed 5 (or_lon r), [], [], [], [], [], ''0'']"
  have l: "sbs_line r = Some (join_with CHR '','' fs @ [CHR 0x0D, CHR 0x0A])"
    by (simp add: sbs_line_def dt fs_def)
  have num: "CHR '','' \<notin> set (fmt_int w k)" "CHR '','' \<notin> set (fmt_fixed p x)" for w k p x
    using number_chars number_char_plain unfolding list_all_iff by blast+
  have split: "split_on CHR '','' (join_with CHR '','' fs) = fs"
    by (rule split_join) (use num datetime_plain [OF dt] upper_hex(2) [of "or_icao r"] in \<open>fastforce simp: fs_def\<close>)+
  have "join_with CHR '','' fs \<noteq> []" "last (join_with CHR '','' fs) = CHR ''0''"
    by (simp_all add: fs_def)
  then have trim: "trim_end (join_with CHR '','' fs @ [CHR 0x0D, CHR 0x0A]) = join_with CHR '','' fs"
    by (intro trim_end_crlf) (simp_all add: is_white_def)
  have hx: "trim (to_ascii_uppercase (to_hex (or_icao r))) = to_ascii_uppercase (to_hex (or_icao r))"
    using upper_hex(2) by (intro trim_plain) blast
  have "parse_sbs_line (join_with CHR '','' fs @ [CHR 0x0D, CHR 0x0A]) = Some \<lparr>sbs_icao_hex = to_hex (or_icao r),
      sbs_alt_ft = Some (Finite (of_int (or_alt_ft r))), sbs_lat = Some (Finite (fixed_value 5 (or_lat r))), sbs_lon = Some (Finite (fixed_value 5 (or_lon r)))\<rparr>"
    unfolding parse_sbs_line_def trim split Let_def
    by (simp add: fs_def hx upper_hex(1) to_hex_nonempty trim_number [OF number_chars(1)] trim_number [OF number_chars(2)] parse_fmt_fixed parse_fmt_int)
  then show ?thesis
    using l fixed_value_near [of 5 "or_lat r"] fixed_value_near [of 5 "or_lon r"] by force
qed

end
