(* ===== verification/Output.thy ===== *)
theory Output
  imports Router Lines
begin

text \<open>
  The output task of \<^verbatim>\<open>crates/mlatd/src/main.rs\<close>: the one consumer of what every shard
  emits. It owns the files, lets a fix through only from the shard that owns the ground it
  was solved on, and drops the twin of a fix it has published lately. A file is \<open>None\<close> when
  it is not configured and otherwise the text written to it so far; \<open>published\<close> is what
  was sent on the broadcast channel. The router is shared and changes between messages, so
  every message comes with the router as it is when the message is taken.
\<close>

subsection \<open>The task\<close>

type_synonym fix_key = "u32 \<times> int"

definition KEEP :: nat where "KEEP = 4096"

record output_task =
  recent :: "fix_key set"
  order :: "fix_key list"
  csv :: "string option"
  filtered :: "string option"
  selftruth :: "string option"
  published :: "out_row list"

definition output_new :: "bool \<Rightarrow> bool \<Rightarrow> bool \<Rightarrow> output_task" where
  "output_new c f t =
     (let file = (\<lambda>b. if b then Some [] else None)
      in \<lparr>recent = {}, order = [], csv = file c, filtered = file f, selftruth = file t, published = []\<rparr>)"

definition self_truth_line :: "real \<Rightarrow> icao \<Rightarrow> real \<Rightarrow> real \<Rightarrow> nat \<Rightarrow> string" where
  "self_truth_line stamp i err est n =
     fmt_fixed 3 stamp @ '','' @ to_hex i @ '','' @ fmt_fixed 1 err @ '','' @ fmt_fixed 1 est @ '','' @ dec n @ [CHR 0x0A]"

definition row_key :: "out_row \<Rightarrow> fix_key" where
  "row_key row = (icao_val (or_icao row), as_i64 (or_stamp row * 10))"

text \<open>\<open>while order.len() > 4096\<close>: the oldest keys go, from both containers.\<close>

fun forget_oldest :: "fix_key set \<Rightarrow> fix_key list \<Rightarrow> fix_key set \<times> fix_key list" where
  "forget_oldest rec [] = (rec, [])"
| "forget_oldest rec (k # ks) = (if length (k # ks) > KEEP then forget_oldest (rec - {k}) ks else (rec, k # ks))"

definition write_to :: "string option \<Rightarrow> string \<Rightarrow> string option" where
  "write_to w l = map_option (\<lambda>s. s @ l) w"

definition publish_row :: "output_task \<Rightarrow> out_row \<Rightarrow> output_task" where
  "publish_row s row =
     (let (rec, ord) = forget_oldest (insert (row_key row) (recent s)) (order s @ [row_key row])
      in s\<lparr>recent := rec, order := ord, csv := write_to (csv s) (csv_line row (or_lat row) (or_lon row)),
           filtered := (case filtered_line row of Some l \<Rightarrow> write_to (filtered s) l | None \<Rightarrow> filtered s),
           published := published s @ [row]\<rparr>)"

text \<open>\<open>None\<close> is a panic of the router's leaf search, which ends the task.\<close>

definition output_step :: "output_task \<Rightarrow> router \<times> out_msg \<Rightarrow> output_task option" where
  "output_step s e =
     (case e of
        (r, SelfTruth stamp i err est n) \<Rightarrow> Some (s\<lparr>selftruth := write_to (selftruth s) (self_truth_line stamp i err est n)\<rparr>)
      | (r, OutFix row) \<Rightarrow>
          do { own \<leftarrow> owner_of_point r (or_lat row) (or_lon row);
               if (case own of Some i \<Rightarrow> i \<noteq> or_shard row | None \<Rightarrow> False) then Some s
               else if row_key row \<in> recent s then Some s
               else Some (publish_row s row) })"

fun output_run :: "output_task \<Rightarrow> (router \<times> out_msg) list \<Rightarrow> output_task option" where
  "output_run s [] = Some s"
| "output_run s (e # es) = do { s \<leftarrow> output_step s e; output_run s es }"

subsection \<open>The window\<close>

text \<open>The last \<open>n\<close> elements of a list.\<close>

definition last_n :: "nat \<Rightarrow> 'a list \<Rightarrow> 'a list" where
  "last_n n xs = drop (length xs - n) xs"

lemma last_n_snoc: "n \<noteq> 0 \<Longrightarrow> last_n n (last_n n xs @ [x]) = last_n n (xs @ [x])"
  by (cases "n \<le> length xs") (auto simp: last_n_def Suc_diff_le)

lemma last_n_nth: "i < length xs \<Longrightarrow> length xs \<le> i + n \<Longrightarrow> xs ! i \<in> set (last_n n xs)"
  unfolding last_n_def in_set_conv_nth by (rule exI [of _ "i - (length xs - n)"]) auto

lemma forget_oldest_window:
  "distinct ks \<Longrightarrow> rec = set ks \<Longrightarrow> forget_oldest rec ks = (set (last_n KEEP ks), last_n KEEP ks)"
proof (induction rec ks rule: forget_oldest.induct)
  case (2 rec k ks)
  then show ?case
    by (auto simp: last_n_def Suc_diff_le)
qed (simp add: last_n_def)

text \<open>
  What the task keeps between messages: the window holds the keys of the last 4096
  published rows and no key twice, and a configured file holds exactly the lines of the
  published rows.
\<close>

definition output_ok :: "output_task \<Rightarrow> bool" where
  "output_ok s \<longleftrightarrow> order s = last_n KEEP (map row_key (published s)) \<and> recent s = set (order s) \<and> distinct (order s) \<and>
     (\<forall>i j. i < j \<longrightarrow> j < length (published s) \<longrightarrow> j \<le> i + KEEP \<longrightarrow> row_key (published s ! i) \<noteq> row_key (published s ! j)) \<and>
     pred_option (\<lambda>w. w = concat (map (\<lambda>row. csv_line row (or_lat row) (or_lon row)) (published s))) (csv s) \<and>
     pred_option (\<lambda>w. w = concat (List.map_filter filtered_line (published s))) (filtered s)"

lemma output_new_ok: "output_ok (output_new c f t)"
  by (simp add: output_ok_def output_new_def last_n_def List.map_filter_simps)

lemma write_to_holds: "pred_option (\<lambda>w. w = t) f \<Longrightarrow> pred_option (\<lambda>w. w = t @ l) (write_to f l)"
  by (cases f) (simp_all add: write_to_def)

lemma publish_row_ok:
  assumes ok: "output_ok s" and new: "row_key row \<notin> recent s"
  shows "output_ok (publish_row s row)"
proof -
  let ?k = "row_key row" and ?p = "published s"
  have w: "order s = last_n KEEP (map row_key ?p)" "recent s = set (order s)" "distinct (order s)"
    using ok unfolding output_ok_def by blast+
  have f: "forget_oldest (insert ?k (recent s)) (order s @ [?k]) =
      (set (last_n KEEP (map row_key (?p @ [row]))), last_n KEEP (map row_key (?p @ [row])))"
    using forget_oldest_window [of "order s @ [?k]"] w new last_n_snoc [of KEEP "map row_key ?p" ?k] by (simp add: KEEP_def)
  have d: "distinct (last_n KEEP (map row_key (?p @ [row])))"
  proof -
    have "last_n KEEP (map row_key (?p @ [row])) = last_n KEEP (order s @ [?k])"
      using last_n_snoc [of KEEP "map row_key ?p" ?k] w(1) by (simp add: KEEP_def)
    then show ?thesis
      unfolding last_n_def by (simp only:) (rule distinct_drop, use w(2,3) new in simp)
  qed
  have g: "row_key (?p ! i) \<noteq> ?k" if "i < length ?p" "length ?p \<le> i + KEEP" for i
    using last_n_nth [of i "map row_key ?p" KEEP] that new w by auto
  have "row_key ((?p @ [row]) ! i) \<noteq> row_key ((?p @ [row]) ! j)" if "i < j" "j < Suc (length ?p)" "j \<le> i + KEEP" for i j
    using that g ok by (cases "j = length ?p") (auto simp: nth_append output_ok_def)
  moreover have "pred_option (\<lambda>w. w = concat (map (\<lambda>row. csv_line row (or_lat row) (or_lon row)) (?p @ [row])))
      (write_to (csv s) (csv_line row (or_lat row) (or_lon row)))"
    using ok write_to_holds unfolding output_ok_def by fastforce
  moreover have "pred_option (\<lambda>w. w = concat (List.map_filter filtered_line (?p @ [row])))
      (case filtered_line row of Some l \<Rightarrow> write_to (filtered s) l | None \<Rightarrow> filtered s)"
    using ok write_to_holds [of "concat (List.map_filter filtered_line ?p)" "filtered s"] unfolding output_ok_def
    by (auto simp: List.map_filter_def split: option.split)
  ultimately show ?thesis
    using d by (simp add: output_ok_def publish_row_def f)
qed

text \<open>The verdict on a fix: published exactly when its ground is the shard's or nobody's and no recent row has its key.\<close>

definition admits :: "router \<Rightarrow> out_row list \<Rightarrow> out_row \<Rightarrow> bool" where
  "admits r ps row \<longleftrightarrow>
     (case owner_of_point r (or_lat row) (or_lon row) of Some (Some i) \<Rightarrow> i = or_shard row | _ \<Rightarrow> True) \<and>
     row_key row \<notin> row_key ` set (last_n KEEP ps)"

lemma output_step_cases:
  assumes "output_step s e = Some s'"
  shows "s' = s \<or> (\<exists>r row. e = (r, OutFix row) \<and> row_key row \<notin> recent s \<and> s' = publish_row s row) \<or>
    (\<exists>l. s' = s\<lparr>selftruth := l\<rparr>)"
  using assms by (auto simp: output_step_def split: prod.splits out_msg.splits option.splits bind_splits if_splits)

lemma output_ok_selftruth: "output_ok (s\<lparr>selftruth := l\<rparr>) \<longleftrightarrow> output_ok s"
  by (simp add: output_ok_def)

lemma output_step_ok: "output_ok s \<Longrightarrow> output_step s e = Some s' \<Longrightarrow> output_ok s'"
  by (drule output_step_cases) (auto simp: publish_row_ok output_ok_selftruth)

lemma output_run_ok: "output_ok s \<Longrightarrow> output_run s es = Some s' \<Longrightarrow> output_ok s'"
  by (induction es arbitrary: s) (auto simp: bind_eq_Some_conv dest: output_step_ok)

lemma output_okD:
  assumes "output_ok s"
  shows "recent s = row_key ` set (last_n KEEP (published s))" "length (order s) \<le> KEEP" "recent s = set (order s)"
proof -
  have o: "order s = last_n KEEP (map row_key (published s))" and "recent s = set (order s)"
    using assms unfolding output_ok_def by blast+
  then show "recent s = row_key ` set (last_n KEEP (published s))" "length (order s) \<le> KEEP" "recent s = set (order s)"
    by (simp_all add: o last_n_def drop_map)
qed

lemma output_step_admits:
  assumes "output_ok s" "owner_of_point r (or_lat row) (or_lon row) \<noteq> None"
  shows "output_step s (r, OutFix row) = Some (if admits r (published s) row then publish_row s row else s)"
  using assms(2) output_okD(1) [OF assms(1)] by (auto simp: output_step_def admits_def split: option.splits)

lemma publish_row_published: "published (publish_row s row) = published s @ [row]"
  by (simp add: publish_row_def split: prod.split)

text \<open>What the whole task amounts to: one pass over the messages that keeps the admitted rows.\<close>

fun admitted :: "out_row list \<Rightarrow> (router \<times> out_msg) list \<Rightarrow> out_row list" where
  "admitted ps [] = ps"
| "admitted ps ((r, OutFix row) # es) = admitted (if admits r ps row then ps @ [row] else ps) es"
| "admitted ps ((r, SelfTruth stamp i err est n) # es) = admitted ps es"

lemma output_run_returns:
  assumes "\<forall>(r, m) \<in> set es. router_ok r" "output_ok s"
  shows "\<exists>s'. output_run s es = Some s' \<and> published s' = admitted (published s) es"
  using assms
proof (induction es arbitrary: s)
  case (Cons e es)
  obtain r m where e: "e = (r, m)" by fastforce
  have "\<exists>s1. output_step s e = Some s1 \<and> admitted (published s1) es = admitted (published s) (e # es)"
  proof (cases m)
    case (OutFix row)
    then show ?thesis
      using owner_at_returns [of r "or_lat row" "or_lon row"] Cons.prems output_step_admits [OF Cons.prems(2), of r row]
      by (auto simp: e owner_of_point_def publish_row_published)
  qed (simp add: e output_step_def)
  then show ?case
    using Cons.IH output_step_ok [OF Cons.prems(2)] Cons.prems(1) by fastforce
qed simp

subsection \<open>Properties\<close>

text \<open>
  C6. The output task implements its specification. Whatever the shards send, and however the
  partition grows meanwhile, the task never stops and publishes exactly the rows admitted
  by a single pass over the messages: a fix is let through when the shard it came from owns
  the ground or nobody does, and none of the last 4096 published rows has its aircraft and
  tenth of a second.
\<close>

theorem output_publishes_admitted:
  assumes "\<forall>(r, m) \<in> set es. \<exists>a. routed r a"
  shows "\<exists>s. output_run (output_new c f t) es = Some s \<and> published s = admitted [] es"
proof -
  have "\<forall>(r, m) \<in> set es. router_ok r"
    using assms routed_ok by fast
  from output_run_returns [OF this output_new_ok, of c f t] show ?thesis
    by (simp add: output_new_def)
qed

text \<open>A row and a router with two shards, for the examples.\<close>

definition example_row :: out_row where
  "example_row = \<lparr>or_shard = 0, or_lat = 47.21, or_lon = - 1.55, or_icao = Icao 0x3C6444, or_stamp = 1000.5, or_alt_ft = 35000,
     or_err_m = 80, or_nstations = 5, or_users = [], or_filtered = None, or_recipients = []\<rparr>"

definition example_router :: router where
  "example_router = router_new (replicate 2 \<lparr>receivers = 0, rate = 0\<rparr>) 5 64"

lemma example_routed: "routed example_router {#}"
  unfolding example_router_def by (rule routed_new) simp_all

lemma example_unowned: "owner_of_point example_router (47.21) (- 1.55) = Some None"
  by (simp add: owner_of_point_def example_router_def router_new_def owner_at_def leaf_at_def leaf_from.simps Let_def fst_cell_at cell_at_def)

lemmas example_admits = admits_def last_n_def KEEP_def example_row_def row_key_def

theorem output_publishes_admitted_witness:
  "\<exists>s. output_run (output_new True False False) [(example_router, OutFix example_row), (example_router, OutFix (example_row\<lparr>or_shard := 1\<rparr>))] = Some s \<and>
     published s = [example_row]"
  using output_publishes_admitted [of "[(example_router, OutFix example_row), (example_router, OutFix (example_row\<lparr>or_shard := 1\<rparr>))]" True False False]
    example_routed example_unowned by (auto simp: example_admits)

text \<open>
  C10. No twins: among any 4097 consecutive published rows no two have the same aircraft and
  tenth of a second, the memory for that never holds more than 4096 keys, and the CSV file
  is the text of the published rows in the order they were published.
\<close>

theorem output_no_twins:
  assumes "output_run (output_new c f t) es = Some s"
  shows "(\<forall>i j. i < j \<longrightarrow> j < length (published s) \<longrightarrow> j \<le> i + 4096 \<longrightarrow> row_key (published s ! i) \<noteq> row_key (published s ! j)) \<and>
    card (recent s) \<le> 4096 \<and> length (order s) \<le> 4096 \<and>
    pred_option (\<lambda>w. w = concat (map (\<lambda>row. csv_line row (or_lat row) (or_lon row)) (published s))) (csv s)"
proof -
  have ok: "output_ok s"
    using output_run_ok [OF output_new_ok assms] .
  have "length (order s) \<le> 4096" "card (recent s) \<le> 4096"
    using output_okD(2,3) [OF ok] card_length [of "order s"] by (simp_all add: KEEP_def)
  then show ?thesis
    using ok unfolding output_ok_def by (simp add: KEEP_def)
qed

theorem output_no_twins_witness:
  fixes es
  defines "es \<equiv> [(example_router, OutFix example_row), (example_router, OutFix (example_row\<lparr>or_shard := 1\<rparr>)),
      (example_router, OutFix (example_row\<lparr>or_stamp := 1001\<rparr>))]"
  shows "\<exists>s. output_run (output_new True False False) es = Some s \<and> published s = [example_row, example_row\<lparr>or_stamp := 1001\<rparr>] \<and>
    row_key example_row \<noteq> row_key (example_row\<lparr>or_stamp := 1001\<rparr>) \<and>
    pred_option (\<lambda>w. w = csv_line example_row (47.21) (- 1.55) @ csv_line (example_row\<lparr>or_stamp := 1001\<rparr>) (47.21) (- 1.55)) (csv s)"
proof -
  have "\<forall>(r, m) \<in> set es. router_ok r"
    using routed_ok [OF example_routed] by (simp add: es_def)
  then obtain s where s: "output_run (output_new True False False) es = Some s" "published s = admitted [] es"
    using output_run_returns [OF _ output_new_ok, of es True False False] by (auto simp: output_new_def)
  have p: "published s = [example_row, example_row\<lparr>or_stamp := 1001\<rparr>]"
    using example_unowned by (simp add: s(2) es_def example_admits round_real_def as_i64_def trunc_real_def saturate_def)
  note N = output_no_twins [OF s(1), unfolded p]
  have "row_key example_row \<noteq> row_key (example_row\<lparr>or_stamp := 1001\<rparr>)"
    using conjunct1 [OF N, rule_format, of 0 1] by simp
  then show ?thesis
    using s(1) p N by (auto simp: example_row_def)
qed

end
