(* ===== verification/Framing.thy ===== *)
theory Framing
  imports Prelude
begin

text \<open>
  The client framing of \<^verbatim>\<open>crates/mb-proto/src/framing.rs\<close> and the frame reader of
  \<^verbatim>\<open>crates/mlatd/src/main.rs\<close>. The zlib streams of the \<open>flate2\<close> crate are parameters: a call
  takes the stream, the input left and the room for output, and gives a status, how many
  input bytes it took, what it wrote, and the stream after; \<open>None\<close> is an error of the
  library. Buffers are counted, their spare capacity is not.
\<close>

datatype z_status = StOk | StBufError | StStreamEnd

type_synonym 'z z_call = "'z \<Rightarrow> bytes \<Rightarrow> nat \<Rightarrow> (z_status \<times> nat \<times> bytes \<times> 'z) option"

datatype proto_error = JsonError | BadHandshakeReply string | FramingError string

definition SYNC_TRAILER :: bytes where "SYNC_TRAILER = [0x00, 0x00, 0xFF, 0xFF]"
definition MAX_FRAME_OUT :: nat where "MAX_FRAME_OUT = 4 * 1024 * 1024"

definition ends_with_sync :: "bytes \<Rightarrow> bool" where
  "ends_with_sync b \<longleftrightarrow> 4 \<le> length b \<and> drop (length b - 4) b = SYNC_TRAILER"

definition to_be16 :: "nat \<Rightarrow> bytes" where
  "to_be16 n = [of_nat (n div 256), of_nat n]"

definition of_be16 :: "u8 \<Rightarrow> u8 \<Rightarrow> nat" where
  "of_be16 a b = unat a * 256 + unat b"

subsection \<open>Encoder\<close>

partial_function (option) enc_loop ::
  "'z z_call \<Rightarrow> 'z \<Rightarrow> bytes \<Rightarrow> bytes \<Rightarrow> nat \<Rightarrow> (proto_error + bytes \<times> 'z) option" where
  "enc_loop cz z inp out_b buf_len =
     (case cz z inp (buf_len - length out_b) of
        None \<Rightarrow> Some (Inl (FramingError ''zlib''))
      | Some (st, n, w, z') \<Rightarrow>
          if st = StStreamEnd \<or> (drop n inp = [] \<and> ends_with_sync (out_b @ w)) then Some (Inr (out_b @ w, z'))
          else enc_loop cz z' (drop n inp) (out_b @ w) (buf_len + 4096))"

definition encode_frame :: "'z z_call \<Rightarrow> 'z \<Rightarrow> bytes \<Rightarrow> (proto_error + bytes \<times> 'z) option" where
  "encode_frame cz z lines =
     (case enc_loop cz z lines [] (length lines + 1024) of
        None \<Rightarrow> None
      | Some (Inl e) \<Rightarrow> Some (Inl e)
      | Some (Inr (b, z')) \<Rightarrow>
          Some (if \<not> ends_with_sync b then Inl (FramingError ''sync flush trailer missing'')
                else let payload = take (length b - 4) b
                     in if length payload > 65535 then Inl (FramingError ''frame too large'')
                        else Inr (to_be16 (length payload) @ payload, z')))"

subsection \<open>Decoder\<close>

function dec_loop :: "'z z_call \<Rightarrow> 'z \<Rightarrow> bytes \<Rightarrow> bytes \<Rightarrow> nat \<Rightarrow> proto_error + bytes \<times> 'z" where
  "dec_loop dz z inp out_b buf_len =
     (case dz z inp (buf_len - length out_b) of
        None \<Rightarrow> Inl (FramingError ''inflate'')
      | Some (st, n, w, z') \<Rightarrow>
          if st = StStreamEnd \<or> drop n inp = [] then Inr (out_b @ w, z')
          else if buf_len \<ge> MAX_FRAME_OUT then Inl (FramingError ''frame inflates past the cap'')
          else dec_loop dz z' (drop n inp) (out_b @ w) (buf_len + 64 * 1024))"
  by pat_completeness auto
termination
  by (relation "measure (\<lambda>(dz, z, inp, out_b, buf_len). MAX_FRAME_OUT - buf_len)") auto

declare dec_loop.simps [simp del]

definition decode_frame :: "'z z_call \<Rightarrow> 'z \<Rightarrow> bytes \<Rightarrow> proto_error + bytes \<times> 'z" where
  "decode_frame dz z fr =
     (if length fr < 2 then Inl (FramingError ''short frame'')
      else let want = of_be16 (fr ! 0) (fr ! 1); payload = drop 2 fr
           in if length payload \<noteq> want then Inl (FramingError ''length header'')
              else dec_loop dz z (payload @ SYNC_TRAILER) [] (64 * 1024))"

subsection \<open>Reading frames off a connection\<close>

text \<open>The bytes a peer sends before it closes, as a list: the next frame and what is left.\<close>

definition read_zlib_frame :: "bytes \<Rightarrow> (bytes \<times> bytes) option" where
  "read_zlib_frame s =
     (if length s < 2 then None
      else let want = of_be16 (s ! 0) (s ! 1)
           in if length s - 2 < want then None else Some (take (2 + want) s, drop (2 + want) s))"

lemma read_zlib_frame_shrinks: "read_zlib_frame s = Some (f, s') \<Longrightarrow> length s' < length s"
  by (auto simp: read_zlib_frame_def Let_def split: if_splits)

function read_frames :: "'z z_call \<Rightarrow> 'z \<Rightarrow> bytes \<Rightarrow> proto_error + bytes list" where
  "read_frames dz z s =
     (case read_zlib_frame s of
        None \<Rightarrow> Inr []
      | Some (f, s') \<Rightarrow>
          (case decode_frame dz z f of
             Inl e \<Rightarrow> Inl e
           | Inr (chunk, z') \<Rightarrow> map_sum id (\<lambda>cs. chunk # cs) (read_frames dz z' s')))"
  by pat_completeness auto
termination
  by (relation "measure (\<lambda>(dz, z, s). length s)") (auto dest: read_zlib_frame_shrinks)

declare read_frames.simps [simp del]

text \<open>The sending side: one frame per batch, the stream carried from frame to frame.\<close>

fun send_frames :: "'z z_call \<Rightarrow> 'z \<Rightarrow> bytes list \<Rightarrow> bytes option" where
  "send_frames cz z [] = Some []"
| "send_frames cz z (b # bs) =
     (case encode_frame cz z b of
        Some (Inr (f, z')) \<Rightarrow> map_option (\<lambda>s. f @ s) (send_frames cz z' bs)
      | _ \<Rightarrow> None)"

subsection \<open>Lemmas\<close>

lemma be16_roundtrip: "n \<le> 65535 \<Longrightarrow> of_be16 (of_nat (n div 256)) (of_nat n) = n"
  by (simp add: of_be16_def unat_of_nat)

lemma frame_read: "length p \<le> 65535 \<Longrightarrow> read_zlib_frame (to_be16 (length p) @ p @ s) = Some (to_be16 (length p) @ p, s)"
  by (simp add: read_zlib_frame_def to_be16_def be16_roundtrip Let_def)

lemma frame_decode: "length p \<le> 65535 \<Longrightarrow> decode_frame dz z (to_be16 (length p) @ p) = dec_loop dz z (p @ SYNC_TRAILER) [] (64 * 1024)"
  by (simp add: decode_frame_def to_be16_def be16_roundtrip)

lemma encode_frame_shape:
  assumes "encode_frame cz z b = Some (Inr (f, z'))"
  obtains p where "f = to_be16 (length p) @ p" "length p \<le> 65535"
proof -
  from assms obtain w where "f = to_be16 (length (take (length w - 4) w)) @ take (length w - 4) w" "length (take (length w - 4) w) \<le> 65535"
    by (auto simp: encode_frame_def Let_def not_less split: option.splits sum.splits if_splits)
  then show thesis
    by (rule that)
qed

lemma ends_with_sync_append: "ends_with_sync (w @ SYNC_TRAILER)"
  by (simp add: ends_with_sync_def SYNC_TRAILER_def)

text \<open>A stream writes no more than it has room for.\<close>

definition respects_room :: "'z z_call \<Rightarrow> bool" where
  "respects_room dz \<longleftrightarrow> (\<forall>z inp room st n w z'. dz z inp room = Some (st, n, w, z') \<longrightarrow> length w \<le> room)"

lemma dec_loop_bounded:
  assumes "respects_room dz"
  shows "dec_loop dz z inp out_b buf_len = Inr (r, z') \<Longrightarrow> length out_b \<le> buf_len \<Longrightarrow> buf_len \<le> MAX_FRAME_OUT \<Longrightarrow>
    64 * 1024 dvd buf_len \<Longrightarrow> length r \<le> MAX_FRAME_OUT"
  using assms
proof (induction dz z inp out_b buf_len rule: dec_loop.induct)
  case (1 dz z inp out_b buf_len)
  obtain st n w z1 where c: "dz z inp (buf_len - length out_b) = Some (st, n, w, z1)"
    using 1(2) by (cases "dz z inp (buf_len - length out_b)") (auto simp: dec_loop.simps [of dz z])
  then have w: "length (out_b @ w) \<le> buf_len"
    using 1(3,6) unfolding respects_room_def by fastforce
  show ?case
  proof (cases "st = StStreamEnd \<or> drop n inp = []")
    case True
    then show ?thesis
      using 1(2,4) w c by (auto simp: dec_loop.simps [of dz z])
  next
    case False
    then have l: "\<not> buf_len \<ge> MAX_FRAME_OUT" and r: "dec_loop dz z1 (drop n inp) (out_b @ w) (buf_len + 64 * 1024) = Inr (r, z')"
      using 1(2) c by (auto simp: dec_loop.simps [of dz z inp] split: if_splits)
    from 1(5) obtain k where k: "buf_len = 64 * 1024 * k"
      by (rule dvdE)
    have "buf_len + 64 * 1024 \<le> MAX_FRAME_OUT"
      using l k by (simp add: MAX_FRAME_OUT_def)
    moreover have "64 * 1024 dvd buf_len + 64 * 1024"
      using 1(5) by (rule dvd_add) simp
    ultimately show ?thesis
      using 1(1) [OF c refl refl refl False l r] w 1(6) by simp
  qed
qed

subsection \<open>Properties\<close>

text \<open>
  C17. A frame cannot make the decoder grow without bound: whatever the peer sends, and for any
  inflater that keeps to the room it is given, decoding a frame returns, with an error or
  with at most 4 MiB; the decoder's loop is a total function of the frame.
\<close>

theorem decoded_frame_bounded:
  assumes "\<And>z inp room st n w z'. dz z inp room = Some (st, n, w, z') \<Longrightarrow> length w \<le> room"
  shows "case decode_frame dz z fr of Inl e \<Rightarrow> True | Inr (lines, z') \<Rightarrow> length lines \<le> 4 * 1024 * 1024"
proof -
  have "respects_room dz"
    unfolding respects_room_def using assms by blast
  from dec_loop_bounded [OF this] show ?thesis
    by (auto simp: decode_frame_def MAX_FRAME_OUT_def Let_def split: sum.split)
qed

theorem decoded_frame_bounded_witness:
  "case decode_frame (\<lambda>z inp room. Some (StOk, 1, replicate room 7, z)) () (to_be16 200 @ replicate 200 1) of
     Inl e \<Rightarrow> True | Inr (lines, z') \<Rightarrow> length lines \<le> 4 * 1024 * 1024"
  by (rule decoded_frame_bounded) auto

text \<open>
  What a zlib stream pair promises of a sync flush: with a kilobyte to spare one call takes
  all of a batch and writes it out up to the trailer, and an inflater in step reads exactly
  that back and is in step again.
\<close>

definition sync_flushes :: "'c z_call \<Rightarrow> 'd z_call \<Rightarrow> ('c \<Rightarrow> 'd \<Rightarrow> bool) \<Rightarrow> bool" where
  "sync_flushes cz dz in_step \<longleftrightarrow>
     (\<forall>c d b. in_step c d \<longrightarrow> b \<noteq> [] \<longrightarrow> length b \<le> 60000 \<longrightarrow>
        (\<exists>w c' d'. cz c b (length b + 1024) = Some (StOk, length b, w @ SYNC_TRAILER, c') \<and> length w + 4 \<le> length b + 1024 \<and>
           dz d (w @ SYNC_TRAILER) (64 * 1024) = Some (StOk, length w + 4, b, d') \<and> in_step c' d'))"

lemma encode_in_step:
  assumes "sync_flushes cz dz in_step" "in_step c d" "b \<noteq> []" "length b \<le> 60000"
  obtains p c' d' where "encode_frame cz c b = Some (Inr (to_be16 (length p) @ p, c'))" "length p \<le> 65535"
    "decode_frame dz d (to_be16 (length p) @ p) = Inr (b, d')" "in_step c' d'"
proof -
  obtain w c' d' where w: "cz c b (length b + 1024) = Some (StOk, length b, w @ SYNC_TRAILER, c')" "length w + 4 \<le> length b + 1024"
      "dz d (w @ SYNC_TRAILER) (64 * 1024) = Some (StOk, length w + 4, b, d')" "in_step c' d'"
    using assms unfolding sync_flushes_def by meson
  have t: "length (w @ SYNC_TRAILER) = length w + 4"
    by (simp add: SYNC_TRAILER_def)
  have "enc_loop cz c b [] (length b + 1024) = Some (Inr (w @ SYNC_TRAILER, c'))"
    using w(1) ends_with_sync_append by (subst enc_loop.simps) simp
  moreover have "length w \<le> 65535"
    using w(2) assms(4) by simp
  ultimately have "encode_frame cz c b = Some (Inr (to_be16 (length w) @ w, c'))"
    using t by (simp add: encode_frame_def ends_with_sync_append Let_def)
  moreover have "dec_loop dz d (w @ SYNC_TRAILER) [] (64 * 1024) = Inr (b, d')"
    using w(3) t by (subst dec_loop.simps) simp
  ultimately show thesis
    using that [of w c' d'] \<open>length w \<le> 65535\<close> w(4) frame_decode [of w dz d] by simp
qed

text \<open>
  Framing round-trips whole sessions: for a deflater and an inflater that start in step and
  keep the promise of a sync flush, the frames of any sequence of batches (none empty, each
  of at most 60000 bytes) are sent without error, and the reader at the other end cuts the byte
  stream back into those frames and recovers the batches in order.
\<close>

theorem framing_session_roundtrip:
  assumes "sync_flushes cz dz in_step" "in_step c d" "\<forall>b \<in> set bs. b \<noteq> [] \<and> length b \<le> 60000"
  shows "\<exists>s. send_frames cz c bs = Some s \<and> read_frames dz d s = Inr bs"
  using assms(2,3)
proof (induction bs arbitrary: c d)
  case Nil
  then show ?case
    by (simp add: read_frames.simps read_zlib_frame_def)
next
  case (Cons b bs)
  obtain p c' d' where p: "encode_frame cz c b = Some (Inr (to_be16 (length p) @ p, c'))" "length p \<le> 65535"
      "decode_frame dz d (to_be16 (length p) @ p) = Inr (b, d')" "in_step c' d'"
    using encode_in_step [OF assms(1) Cons.prems(1), of b] Cons.prems(2) by auto
  obtain s where s: "send_frames cz c' bs = Some s" "read_frames dz d' s = Inr bs"
    using Cons.IH [OF p(4)] Cons.prems(2) by auto
  have "read_frames dz d (to_be16 (length p) @ p @ s) = Inr (b # bs)"
    using frame_read [OF p(2), of s] p(3) s(2) by (subst read_frames.simps) simp
  then show ?case
    using p(1) s(1) by simp
qed

theorem framing_session_roundtrip_witness:
  fixes cz dz
  defines "cz \<equiv> \<lambda>(z :: unit) b room. Some (StOk, length b, b @ SYNC_TRAILER, z)"
    and "dz \<equiv> \<lambda>(z :: unit) w room. Some (StOk, length w, take (length w - 4) w, z)"
  shows "\<exists>s. send_frames cz () [[1, 2], [3]] = Some s \<and> read_frames dz () s = Inr [[1, 2], [3]]"
proof (rule framing_session_roundtrip [where in_step = "\<lambda>_ _. True"])
  show "sync_flushes cz dz (\<lambda>_ _. True)"
    by (auto simp: sync_flushes_def cz_def dz_def SYNC_TRAILER_def)
qed simp_all

text \<open>
  Frames delimit themselves: whatever the compressor does, a frame the encoder returns is
  at most 65537 bytes long and is cut off the front of any stream it starts, leaving the
  rest untouched.
\<close>

theorem encoded_frame_delimits:
  assumes "encode_frame cz z b = Some (Inr (f, z'))"
  shows "length f \<le> 65537 \<and> read_zlib_frame (f @ s) = Some (f, s)"
proof -
  obtain p where "f = to_be16 (length p) @ p" "length p \<le> 65535"
    using assms by (rule encode_frame_shape)
  then show ?thesis
    using frame_read [of p s] by (simp add: to_be16_def)
qed

theorem encoded_frame_delimits_witness:
  "read_zlib_frame (to_be16 2 @ [1, 2] @ [9]) = Some (to_be16 2 @ [1, 2], [9])"
  using encoded_frame_delimits [of "\<lambda>(z :: unit) b room. Some (StOk, length b, b @ SYNC_TRAILER, z)" "()" "[1, 2]" "to_be16 2 @ [1, 2]" "()" "[9]"]
  by (simp add: encode_frame_def enc_loop.simps [of _ "()" "[1, 2]"] ends_with_sync_def SYNC_TRAILER_def numeral_2_eq_2)

end
