(* ===== verification/Proto.thy ===== *)
theory Proto
  imports Text Framing
begin

text \<open>
  The wire protocol of \<^verbatim>\<open>crates/mb-proto/src/lib.rs\<close>: clock types, the client's handshake
  and messages, and the parser of the server's lines. The crate hands JSON text to
  \<open>serde_json\<close>, which is a parameter here: a \<open>json_api\<close> holds the operations the code calls
  on its values, and \<open>json_laws\<close> states what its documentation promises of them. An enum
  or struct that derives \<open>Serialize\<close> is the value serde's attribute rules give it.
\<close>

subsection \<open>JSON\<close>

record 'j json_api =
  from_slice :: "string \<Rightarrow> 'j option"
  to_vec :: "'j \<Rightarrow> string"
  jget :: "'j \<Rightarrow> string \<Rightarrow> 'j option"
  as_f64 :: "'j \<Rightarrow> real option"
  as_int :: "'j \<Rightarrow> int option"
  as_str :: "'j \<Rightarrow> string option"
  as_bool :: "'j \<Rightarrow> bool option"
  as_array :: "'j \<Rightarrow> 'j list option"
  object_keys :: "'j \<Rightarrow> string list option"
  j_obj :: "(string \<times> 'j) list \<Rightarrow> 'j"
  j_arr :: "'j list \<Rightarrow> 'j"
  j_str :: "string \<Rightarrow> 'j"
  j_num :: "real \<Rightarrow> 'j"
  j_bool :: "bool \<Rightarrow> 'j"

definition json_laws :: "'j json_api \<Rightarrow> bool" where
  "json_laws J \<longleftrightarrow>
     (\<forall>kvs k. distinct (map fst kvs) \<longrightarrow> jget J (j_obj J kvs) k = map_of kvs k) \<and>
     (\<forall>kvs. distinct (map fst kvs) \<longrightarrow> (\<exists>ks. object_keys J (j_obj J kvs) = Some ks \<and> distinct ks \<and> set ks = fst ` set kvs)) \<and>
     (\<forall>vs. as_array J (j_arr J vs) = Some vs) \<and> (\<forall>s. as_str J (j_str J s) = Some s) \<and>
     (\<forall>x. as_f64 J (j_num J x) = Some x) \<and> (\<forall>k. - (2 ^ 63) \<le> k \<longrightarrow> k < 2 ^ 63 \<longrightarrow> as_int J (j_num J (of_int k)) = Some k) \<and>
     (\<forall>b. as_bool J (j_bool J b) = Some b)"

text \<open>\<open>v[key]\<close>, followed by a conversion: \<open>Null\<close>, which converts to nothing, where the key is missing.\<close>

definition field :: "'j json_api \<Rightarrow> ('j \<Rightarrow> 'a option) \<Rightarrow> 'j \<Rightarrow> string \<Rightarrow> 'a option" where
  "field J conv v key = Option.bind (jget J v key) conv"

definition string_list :: "'j json_api \<Rightarrow> 'j \<Rightarrow> string list" where
  "string_list J v = (case as_array J v of Some a \<Rightarrow> List.map_filter (as_str J) a | None \<Rightarrow> [])"

subsection \<open>Clock types and compression\<close>

datatype clock_type = RadarcapeGps | Beast | Radarcape12Mhz | Sbs | Dump1090 | UnknownClock

fun clock_name :: "clock_type \<Rightarrow> string" where
  "clock_name RadarcapeGps = ''radarcape_gps''"
| "clock_name Beast = ''beast''"
| "clock_name Radarcape12Mhz = ''radarcape_12mhz''"
| "clock_name Sbs = ''sbs''"
| "clock_name Dump1090 = ''dump1090''"
| "clock_name UnknownClock = ''unknown''"

fun clock_freq_hz :: "clock_type \<Rightarrow> real" where
  "clock_freq_hz RadarcapeGps = 10 ^ 9"
| "clock_freq_hz Beast = 12 * 10 ^ 6"
| "clock_freq_hz Radarcape12Mhz = 12 * 10 ^ 6"
| "clock_freq_hz Sbs = 20 * 10 ^ 6"
| "clock_freq_hz Dump1090 = 12 * 10 ^ 6"
| "clock_freq_hz UnknownClock = 12 * 10 ^ 6"

fun server_assumed_max_freq_error :: "clock_type \<Rightarrow> real" where
  "server_assumed_max_freq_error RadarcapeGps = 1 / 10 ^ 6"
| "server_assumed_max_freq_error Beast = 5 / 10 ^ 6"
| "server_assumed_max_freq_error Radarcape12Mhz = 5 / 10 ^ 6"
| "server_assumed_max_freq_error Sbs = 100 / 10 ^ 6"
| "server_assumed_max_freq_error Dump1090 = 100 / 10 ^ 6"
| "server_assumed_max_freq_error UnknownClock = 100 / 10 ^ 6"

fun server_assumed_jitter_s :: "clock_type \<Rightarrow> real" where
  "server_assumed_jitter_s RadarcapeGps = 15 / 10 ^ 9"
| "server_assumed_jitter_s Beast = 83 / 10 ^ 9"
| "server_assumed_jitter_s Radarcape12Mhz = 83 / 10 ^ 9"
| "server_assumed_jitter_s Sbs = 500 / 10 ^ 9"
| "server_assumed_jitter_s Dump1090 = 500 / 10 ^ 9"
| "server_assumed_jitter_s UnknownClock = 500 / 10 ^ 9"

datatype compress = CNone | CZlib | CZlib2

fun compress_name :: "compress \<Rightarrow> string" where
  "compress_name CNone = ''none''"
| "compress_name CZlib = ''zlib''"
| "compress_name CZlib2 = ''zlib2''"

subsection \<open>What a client sends\<close>

record handshake =
  hs_version :: nat
  hs_user :: string
  hs_uuid :: "string option"
  hs_compress :: "compress list"
  hs_lat :: real
  hs_lon :: real
  hs_alt :: real
  hs_clock_type :: clock_type
  hs_return_results :: "bool option"
  hs_return_result_format :: "string option"
  hs_client_version :: "string option"
  hs_selective_traffic :: "bool option"
  hs_heartbeat :: "bool option"
  hs_return_stats :: "bool option"

text \<open>\<open>skip_serializing_if = "Option::is_none"\<close>.\<close>

definition opt_field :: "string \<Rightarrow> ('a \<Rightarrow> 'j) \<Rightarrow> 'a option \<Rightarrow> (string \<times> 'j) list" where
  "opt_field key mk x = (case x of Some v \<Rightarrow> [(key, mk v)] | None \<Rightarrow> [])"

definition handshake_fields :: "'j json_api \<Rightarrow> handshake \<Rightarrow> (string \<times> 'j) list" where
  "handshake_fields J h =
     [(''version'', j_num J (of_nat (hs_version h))), (''user'', j_str J (hs_user h))] @ opt_field ''uuid'' (j_str J) (hs_uuid h) @
     [(''compress'', j_arr J (map (\<lambda>c. j_str J (compress_name c)) (hs_compress h))),
      (''lat'', j_num J (hs_lat h)), (''lon'', j_num J (hs_lon h)), (''alt'', j_num J (hs_alt h)),
      (''clock_type'', j_str J (clock_name (hs_clock_type h)))] @
     opt_field ''return_results'' (j_bool J) (hs_return_results h) @
     opt_field ''return_result_format'' (j_str J) (hs_return_result_format h) @
     opt_field ''client_version'' (j_str J) (hs_client_version h) @
     opt_field ''selective_traffic'' (j_bool J) (hs_selective_traffic h) @
     opt_field ''heartbeat'' (j_bool J) (hs_heartbeat h) @
     opt_field ''return_stats'' (j_bool J) (hs_return_stats h)"

definition handshake_to_line :: "'j json_api \<Rightarrow> handshake \<Rightarrow> string" where
  "handshake_to_line J h = to_vec J (j_obj J (handshake_fields J h)) @ [CHR 0x0A]"

datatype 'j client_msg =
    CSync 'j 'j string string
  | CMlat 'j string
  | CSeen "string list"
  | CLost "string list"
  | CInputConnected string
  | CInputDisconnected string
  | CClockReset string
  | CClockJump string
  | CHeartbeat 'j
  | CRateReport "(string \<times> 'j) list"

definition client_value :: "'j json_api \<Rightarrow> 'j client_msg \<Rightarrow> 'j" where
  "client_value J m =
     (case m of
        CSync et ot em om \<Rightarrow> j_obj J [(''sync'', j_obj J [(''et'', et), (''ot'', ot), (''em'', j_str J em), (''om'', j_str J om)])]
      | CMlat t f \<Rightarrow> j_obj J [(''mlat'', j_obj J [(''t'', t), (''m'', j_str J f)])]
      | CSeen is \<Rightarrow> j_obj J [(''seen'', j_arr J (map (j_str J) is))]
      | CLost is \<Rightarrow> j_obj J [(''lost'', j_arr J (map (j_str J) is))]
      | CInputConnected s \<Rightarrow> j_obj J [(''input_connected'', j_str J s)]
      | CInputDisconnected s \<Rightarrow> j_obj J [(''input_disconnected'', j_str J s)]
      | CClockReset s \<Rightarrow> j_obj J [(''clock_reset'', j_str J s)]
      | CClockJump s \<Rightarrow> j_obj J [(''clock_jump'', j_str J s)]
      | CHeartbeat v \<Rightarrow> j_obj J [(''heartbeat'', v)]
      | CRateReport kvs \<Rightarrow> j_obj J [(''rate_report'', j_obj J kvs)])"

definition client_to_line :: "'j json_api \<Rightarrow> 'j client_msg \<Rightarrow> string" where
  "client_to_line J m = to_vec J (client_value J m) @ [CHR 0x0A]"

definition heartbeat_now :: "'j json_api \<Rightarrow> 'j client_msg" where
  "heartbeat_now J = CHeartbeat (j_obj J [])"

definition client_seen :: "icao list \<Rightarrow> 'j client_msg" where
  "client_seen is = CSeen (map to_hex is)"

definition client_lost :: "icao list \<Rightarrow> 'j client_msg" where
  "client_lost is = CLost (map to_hex is)"

subsection \<open>What a server sends\<close>

datatype 'j server_msg =
    HandshakeAccept compress "string option" bool bool 'j
  | SDeny 'j
  | SResult 'j
  | SStats 'j
  | StartSending "string list"
  | StopSending "string list"
  | SHeartbeat "real option"
  | SUnknown 'j

definition parse_line :: "'j json_api \<Rightarrow> string \<Rightarrow> proto_error + 'j server_msg" where
  "parse_line J line =
     (case from_slice J line of
        None \<Rightarrow> Inl JsonError
      | Some v \<Rightarrow>
          if object_keys J v = None then Inr (SUnknown v)
          else case jget J v ''result'' of Some r \<Rightarrow> Inr (SResult r) | None \<Rightarrow>
               case jget J v ''deny'' of Some d \<Rightarrow> Inr (SDeny d) | None \<Rightarrow>
               case jget J v ''heartbeat'' of Some h \<Rightarrow> Inr (SHeartbeat (field J (as_f64 J) h ''server_time'')) | None \<Rightarrow>
               case jget J v ''stats'' of Some st \<Rightarrow> Inr (SStats st) | None \<Rightarrow>
               case jget J v ''start_sending'' of Some s \<Rightarrow> Inr (StartSending (string_list J s)) | None \<Rightarrow>
               case jget J v ''stop_sending'' of Some s \<Rightarrow> Inr (StopSending (string_list J s)) | None \<Rightarrow>
               Inr (SUnknown v))"

definition compress_of :: "string \<Rightarrow> compress option" where
  "compress_of s =
     (if s = ''none'' then Some CNone else if s = ''zlib'' then Some CZlib else if s = ''zlib2'' then Some CZlib2 else None)"

definition parse_handshake_reply :: "'j json_api \<Rightarrow> string \<Rightarrow> proto_error + 'j server_msg" where
  "parse_handshake_reply J line =
     (case from_slice J line of
        None \<Rightarrow> Inl JsonError
      | Some v \<Rightarrow>
          if jget J v ''deny'' \<noteq> None then Inr (SDeny v)
          else case Option.bind (field J (as_str J) v ''compress'') compress_of of
                 None \<Rightarrow> Inl (BadHandshakeReply (to_vec J v))
               | Some c \<Rightarrow>
                   Inr (HandshakeAccept c (field J (as_str J) v ''motd'')
                     (case field J (as_bool J) v ''heartbeat'' of Some b \<Rightarrow> b | None \<Rightarrow> False)
                     (case field J (as_bool J) v ''return_results'' of Some b \<Rightarrow> b | None \<Rightarrow> False) v))"

subsection \<open>Lemmas\<close>

lemma json_lawsD:
  assumes "json_laws J"
  shows "distinct (map fst kvs) \<Longrightarrow> jget J (j_obj J kvs) k = map_of kvs k" "as_array J (j_arr J vs) = Some vs"
    "as_str J (j_str J s) = Some s" "as_f64 J (j_num J x) = Some x" "- (2 ^ 63) \<le> i \<Longrightarrow> i < 2 ^ 63 \<Longrightarrow> as_int J (j_num J (of_int i)) = Some i"
    "as_bool J (j_bool J b) = Some b"
    "distinct (map fst kvs) \<Longrightarrow> \<exists>ks. object_keys J (j_obj J kvs) = Some ks \<and> distinct ks \<and> set ks = fst ` set kvs"
  using assms unfolding json_laws_def by blast+

lemma map_filter_as_str: "json_laws J \<Longrightarrow> List.map_filter (as_str J) (map (\<lambda>x. j_str J (f x)) xs) = map f xs"
  by (induction xs) (simp_all add: List.map_filter_simps json_lawsD)

lemma map_of_opt_field:
  "map_of (opt_field key mk x @ kvs) k = (if k = key then (case x of Some v \<Rightarrow> Some (mk v) | None \<Rightarrow> map_of kvs k) else map_of kvs k)"
  "map_of (opt_field key mk x) k = (if k = key then map_option mk x else None)"
  by (auto simp: opt_field_def split: option.split)

lemma opt_field_keys:
  "distinct (map fst (opt_field key mk x))" "a \<in> fst ` set (opt_field key mk x) \<longleftrightarrow> a = key \<and> x \<noteq> None"
  by (auto simp: opt_field_def split: option.split)

lemma handshake_keys_distinct: "distinct (map fst (handshake_fields J h))"
  by (simp add: handshake_fields_def disjoint_iff opt_field_keys)

lemma compress_of_name: "compress_of (compress_name c) = Some c"
  by (cases c) (simp_all add: compress_of_def)

lemma compress_of_Some: "compress_of s = Some c \<longleftrightarrow> s = compress_name c"
  by (cases c) (auto simp: compress_of_def split: if_splits)

text \<open>What a server reads in the handshake a client wrote.\<close>

lemma handshake_reads:
  assumes "json_laws J"
  defines "v h \<equiv> j_obj J (handshake_fields J h)"
  shows "field J (as_str J) (v h) ''user'' = Some (hs_user h)" "field J (as_str J) (v h) ''uuid'' = hs_uuid h"
    "field J (as_f64 J) (v h) ''lat'' = Some (hs_lat h)" "field J (as_f64 J) (v h) ''lon'' = Some (hs_lon h)"
    "field J (as_f64 J) (v h) ''alt'' = Some (hs_alt h)" "field J (as_str J) (v h) ''clock_type'' = Some (clock_name (hs_clock_type h))"
    "field J (as_bool J) (v h) ''return_results'' = hs_return_results h" "field J (as_bool J) (v h) ''return_stats'' = hs_return_stats h"
    "field J (as_bool J) (v h) ''privacy'' = None" "field J (as_str J) (v h) ''client_version'' = hs_client_version h"
    "field J (as_array J) (v h) ''compress'' = Some (map (\<lambda>c. j_str J (compress_name c)) (hs_compress h))"
  unfolding v_def field_def json_lawsD(1) [OF assms(1) handshake_keys_distinct]
  by (simp_all add: handshake_fields_def json_lawsD(2,3,4,6) [OF assms(1)] map_of_opt_field map_option_case del: map_of_append split: option.split)

subsection \<open>An instance\<close>

text \<open>
  Values as trees, with a table for a parser: the laws of the parameter hold of something.
\<close>

datatype json_tree = JNull | JBool bool | JNum real | JStr string | JArr "json_tree list" | JObj "(string \<times> json_tree) list"

definition tree_json :: "(string \<rightharpoonup> json_tree) \<Rightarrow> json_tree json_api" where
  "tree_json table =
     \<lparr>from_slice = table, to_vec = (\<lambda>v. ''v''),
      jget = (\<lambda>v k. case v of JObj kvs \<Rightarrow> map_of kvs k | _ \<Rightarrow> None),
      as_f64 = (\<lambda>v. case v of JNum x \<Rightarrow> Some x | _ \<Rightarrow> None),
      as_int = (\<lambda>v. case v of JNum x \<Rightarrow> if of_int \<lfloor>x\<rfloor> = x then Some \<lfloor>x\<rfloor> else None | _ \<Rightarrow> None),
      as_str = (\<lambda>v. case v of JStr s \<Rightarrow> Some s | _ \<Rightarrow> None),
      as_bool = (\<lambda>v. case v of JBool b \<Rightarrow> Some b | _ \<Rightarrow> None),
      as_array = (\<lambda>v. case v of JArr vs \<Rightarrow> Some vs | _ \<Rightarrow> None),
      object_keys = (\<lambda>v. case v of JObj kvs \<Rightarrow> Some (remdups (map fst kvs)) | _ \<Rightarrow> None),
      j_obj = JObj, j_arr = JArr, j_str = JStr, j_num = JNum, j_bool = JBool\<rparr>"

lemma tree_json_laws: "json_laws (tree_json table)"
  by (simp add: json_laws_def tree_json_def)

end
