(* ===== verification/Downlink.thy ===== *)
theory Downlink
  imports Framing Lines
begin

text \<open>
  The writer task of a connection, in \<open>handle_client\<close> of \<^verbatim>\<open>crates/mlatd/src/main.rs\<close>: the one
  writer of the socket, fed by a channel of lines, which compresses and batches them when
  the connection negotiated \<open>zlib2\<close>; and the two tasks that follow the broadcast channel, the
  forwarder of a connection's results and the writer of an SBS consumer. A task is a
  function of the events it meets, in order; the end of the list is the end of its channel.
  The socket is a parameter \<open>wr\<close>, \<open>None\<close> being a failed write. \<open>broken\<close> is the stream that a
  failed compression leaves, of which nothing is known.
\<close>

definition to_bytes :: "string \<Rightarrow> bytes" where
  "to_bytes s = map of_char s"

type_synonym 'w write_all = "'w \<Rightarrow> bytes \<Rightarrow> 'w option"

subsection \<open>The writer\<close>

fun raw_writer :: "'w write_all \<Rightarrow> 'w \<Rightarrow> string list \<Rightarrow> 'w" where
  "raw_writer wr w [] = w"
| "raw_writer wr w (l # ls) = (case wr w (to_bytes l) of None \<Rightarrow> w | Some w' \<Rightarrow> raw_writer wr w' ls)"

datatype writer_event = WLine string | WTick

definition BATCH :: nat where "BATCH = 32 * 1024"

text \<open>After the loop, what is left in the batch is sent if it can be.\<close>

definition flush_rest :: "'w write_all \<Rightarrow> 'z z_call \<Rightarrow> 'w \<Rightarrow> 'z \<Rightarrow> bytes \<Rightarrow> 'w option" where
  "flush_rest wr cz w z batch =
     (if batch = [] then Some w
      else case encode_frame cz z batch of
             None \<Rightarrow> None
           | Some (Inl e) \<Rightarrow> Some w
           | Some (Inr (f, z')) \<Rightarrow> Some (case wr w f of None \<Rightarrow> w | Some w' \<Rightarrow> w'))"

text \<open>\<open>None\<close>: an encoder that never returns.\<close>

fun zlib_writer ::
  "'w write_all \<Rightarrow> 'z z_call \<Rightarrow> ('z \<Rightarrow> bytes \<Rightarrow> 'z) \<Rightarrow> 'w \<Rightarrow> 'z \<Rightarrow> bytes \<Rightarrow> writer_event list \<Rightarrow> 'w option" where
  "zlib_writer wr cz broken w z batch [] = flush_rest wr cz w z batch"
| "zlib_writer wr cz broken w z batch (e # es) =
     (let batch = (case e of WLine l \<Rightarrow> batch @ to_bytes l | WTick \<Rightarrow> batch);
          wait = (case e of WLine l \<Rightarrow> length batch < BATCH | WTick \<Rightarrow> batch = [])
      in if wait then zlib_writer wr cz broken w z batch es
         else case encode_frame cz z batch of
                None \<Rightarrow> None
              | Some (Inl err) \<Rightarrow> flush_rest wr cz w (broken z batch) batch
              | Some (Inr (f, z')) \<Rightarrow>
                  (case wr w f of None \<Rightarrow> Some w | Some w' \<Rightarrow> zlib_writer wr cz broken w' z' [] es))"

subsection \<open>Followers of the broadcast\<close>

datatype feed_event = FixSent out_row | Lagged | Keepalive | Closed

text \<open>
  Only the fixes this receiver heard the message for. The writer's channel is the parameter
  \<open>tx\<close>, \<open>None\<close> being the error of a send to a writer that is gone.
\<close>

fun forwarder :: "('c \<Rightarrow> string \<Rightarrow> 'c option) \<Rightarrow> nat \<Rightarrow> 'c \<Rightarrow> feed_event list \<Rightarrow> 'c" where
  "forwarder tx u c [] = c"
| "forwarder tx u c (FixSent r # es) =
     (if is_for r u then case tx c (result_line r) of None \<Rightarrow> c | Some c' \<Rightarrow> forwarder tx u c' es
      else forwarder tx u c es)"
| "forwarder tx u c (Lagged # es) = forwarder tx u c es"
| "forwarder tx u c (Keepalive # es) = forwarder tx u c es"
| "forwarder tx u c (Closed # es) = c"

fun sbs_writer :: "'w write_all \<Rightarrow> 'w \<Rightarrow> feed_event list \<Rightarrow> 'w option" where
  "sbs_writer wr w [] = Some w"
| "sbs_writer wr w (e # es) =
     (let send = (\<lambda>b. case wr w b of None \<Rightarrow> Some w | Some w' \<Rightarrow> sbs_writer wr w' es)
      in case e of
           FixSent r \<Rightarrow> (case sbs_line r of None \<Rightarrow> None | Some l \<Rightarrow> send (to_bytes l))
         | Keepalive \<Rightarrow> send (to_bytes [CHR 0x0A])
         | Lagged \<Rightarrow> sbs_writer wr w es
         | Closed \<Rightarrow> Some w)"

subsection \<open>Lemmas\<close>

text \<open>A socket that takes everything: what was written, as one byte stream.\<close>

definition all_written :: "bytes write_all" where
  "all_written w b = Some (w @ b)"

lemma all_written_app: "all_written w b = Some (w @ b)"
  by (simp add: all_written_def)

lemma raw_writer_all: "raw_writer all_written w ls = w @ concat (map to_bytes ls)"
  by (induction ls arbitrary: w) (simp_all add: all_written_def)

fun lines_of :: "writer_event list \<Rightarrow> string list" where
  "lines_of [] = []"
| "lines_of (WLine l # es) = l # lines_of es"
| "lines_of (WTick # es) = lines_of es"

text \<open>
  The batches in flight: with a deflater and an inflater in step, the writer turns its
  lines into frames that the other end reads back as one and the same text.
\<close>

lemma zlib_writer_reads:
  assumes z: "sync_flushes cz dz in_step" and "in_step c d" "length batch < BATCH"
    "list_all (\<lambda>l. length l \<le> 27000) (lines_of es)"
  shows "\<exists>s chunks. zlib_writer all_written cz broken w c batch es = Some (w @ s) \<and> read_frames dz d s = Inr chunks \<and>
    concat chunks = batch @ concat (map to_bytes (lines_of es))"
  using assms(2-)
proof (induction es arbitrary: w c d batch)
  case Nil
  have "batch \<noteq> [] \<Longrightarrow> length batch \<le> 60000"
    using Nil.prems(2) by (simp add: BATCH_def)
  with encode_in_step [OF z Nil.prems(1), of batch] obtain p c' d' where
    "batch \<noteq> [] \<Longrightarrow> encode_frame cz c batch = Some (Inr (to_be16 (length p) @ p, c')) \<and> length p \<le> 65535 \<and>
       decode_frame dz d (to_be16 (length p) @ p) = Inr (batch, d')"
    by metis
  then show ?case
    using frame_read [of p "[]"]
    by (cases "batch = []")
      (auto simp: flush_rest_def all_written_def read_frames.simps [of dz d] read_frames.simps [of dz _ "[]"] read_zlib_frame_def [of "[]"])
next
  case (Cons e es)
  define b where "b = (case e of WLine l \<Rightarrow> batch @ to_bytes l | WTick \<Rightarrow> batch)"
  have same: "batch @ concat (map to_bytes (lines_of (e # es))) = b @ concat (map to_bytes (lines_of es))"
    by (cases e) (simp_all add: b_def)
  have rest: "list_all (\<lambda>l. length l \<le> 27000) (lines_of es)" and lb: "length b \<le> 60000"
    using Cons.prems(2,3) by (cases e; simp add: b_def to_bytes_def BATCH_def)+
  show ?case
  proof (cases "case e of WLine l \<Rightarrow> length b < BATCH | WTick \<Rightarrow> b = []")
    case True
    then have "length b < BATCH"
      by (cases e) (auto simp: BATCH_def)
    from Cons.IH [OF Cons.prems(1) this rest] show ?thesis
      using True unfolding same by (simp add: b_def [symmetric] Let_def)
  next
    case False
    then have "b \<noteq> []"
      by (cases e) (auto simp: BATCH_def)
    then obtain p c' d' where p: "encode_frame cz c b = Some (Inr (to_be16 (length p) @ p, c'))" "length p \<le> 65535"
        "decode_frame dz d (to_be16 (length p) @ p) = Inr (b, d')" "in_step c' d'"
      using encode_in_step [OF z Cons.prems(1), of b] lb by metis
    obtain s chunks where s: "zlib_writer all_written cz broken (w @ to_be16 (length p) @ p) c' [] es = Some ((w @ to_be16 (length p) @ p) @ s)"
        "read_frames dz d' s = Inr chunks" "concat chunks = concat (map to_bytes (lines_of es))"
      using Cons.IH [OF p(4) _ rest, of "[]" "w @ to_be16 (length p) @ p"] by (auto simp: BATCH_def)
    have "read_frames dz d (to_be16 (length p) @ p @ s) = Inr (b # chunks)"
      using frame_read [OF p(2), of s] p(3) s(2) by (subst read_frames.simps) simp
    moreover have "all_written w (to_be16 (length p) @ p) = Some (w @ to_be16 (length p) @ p)"
      by (simp add: all_written_def)
    ultimately show ?thesis
      using False p(1) s unfolding same
      by (intro exI [of _ "to_be16 (length p) @ p @ s"] exI [of _ "b # chunks"]) (simp add: b_def [symmetric] Let_def)
  qed
qed

text \<open>What an SBS consumer finds in the stream: each line, read on its own.\<close>

definition sbs_positions :: "string \<Rightarrow> sbs_position list" where
  "sbs_positions s = List.map_filter parse_sbs_line (split_on CHR 0x0A s)"

fun fixes_of :: "feed_event list \<Rightarrow> out_row list" where
  "fixes_of [] = []"
| "fixes_of (FixSent r # es) = r # fixes_of es"
| "fixes_of (Lagged # es) = fixes_of es"
| "fixes_of (Keepalive # es) = fixes_of es"
| "fixes_of (Closed # es) = []"

text \<open>With a channel that takes \<open>room\<close> more lines before the writer is gone, the first \<open>room\<close> results are sent.\<close>

lemma forwarder_fixes:
  "snd (forwarder (\<lambda>(room, sent) l. if room = 0 then None else Some (room - 1, sent @ [l])) u (room, sent) es) =
     sent @ take room (map result_line (filter (\<lambda>r. is_for r u) (fixes_of es)))"
proof (induction es arbitrary: room sent)
  case (Cons e es)
  then show ?case
    by (cases e; cases room) simp_all
qed simp

lemma to_bytes_append: "to_bytes (s @ t) = to_bytes s @ to_bytes t"
  by (simp add: to_bytes_def)

lemma set_join_with: "set (join_with c ws) \<subseteq> insert c (\<Union>w \<in> set ws. set w)"
  by (induction c ws rule: join_with.induct) auto

lemma sbs_line_body:
  assumes "sbs_line r = Some l"
  obtains b where "l = b @ [CHR 0x0A]" "CHR 0x0A \<notin> set b"
proof -
  obtain d tm where dt: "sbs_datetime (or_stamp r) = Some (d, tm)"
    using assms by (auto simp: sbs_line_def)
  have white: "is_white (CHR 0x0A)"
    by (simp add: is_white_def)
  have n: "CHR 0x0A \<notin> set (fmt_int w k)" "CHR 0x0A \<notin> set (fmt_fixed p x)" for w k p x
    using number_chars(1) [of p x] number_chars(2) [of w k] number_char_plain [of "CHR 0x0A"] white unfolding list_all_iff by blast+
  have "CHR 0x0A \<notin> set d" "CHR 0x0A \<notin> set tm"
    using dt n by (auto simp: sbs_datetime_def)
  moreover have "CHR 0x0A \<notin> set (to_ascii_uppercase (to_hex (or_icao r)))"
    using upper_hex(2) [of "or_icao r"] white by blast
  moreover define fs where "fs = [''MSG'', ''3'', ''1'', ''1'', to_ascii_uppercase (to_hex (or_icao r)), ''1'', d, tm, d, tm, [],
         fmt_int 0 (or_alt_ft r), [], [], fmt_fixed 5 (or_lat r), fmt_fixed 5 (or_lon r), [], [], [], [], [], ''0'']"
  ultimately have "CHR 0x0A \<notin> (\<Union>w \<in> set fs. set w)"
    using n by (simp add: fs_def)
  then have "CHR 0x0A \<notin> set (join_with CHR '','' fs)"
    using set_join_with [of "CHR '',''" fs] by auto
  moreover have "l = (join_with CHR '','' fs @ [CHR 0x0D]) @ [CHR 0x0A]"
    using assms by (simp add: sbs_line_def dt fs_def)
  ultimately show thesis
    using that [of "join_with CHR '','' fs @ [CHR 0x0D]"] by simp
qed

lemma parse_sbs_empty: "parse_sbs_line [] = None"
  by (simp add: parse_sbs_line_def trim_end_def)

lemma sbs_writer_lines:
  assumes "list_all (\<lambda>r. 0 \<le> or_stamp r \<and> or_stamp r < 2 ^ 63) (fixes_of es)"
  shows "\<exists>s. sbs_writer all_written w es = Some (w @ to_bytes s) \<and> sbs_positions s = List.map_filter (\<lambda>r. Option.bind (sbs_line r) parse_sbs_line) (fixes_of es)"
  using assms
proof (induction es arbitrary: w)
  case Nil
  then show ?case
    by (intro exI [of _ "[]"]) (simp add: to_bytes_def sbs_positions_def List.map_filter_simps parse_sbs_empty)
next
  case (Cons e es)
  show ?case
  proof (cases e)
    case (FixSent r)
    obtain l where l: "sbs_line r = Some l"
      using Cons.prems FixSent sbs_datetime_total [of "or_stamp r"] by (auto simp: sbs_line_def)
    obtain b where b: "l = b @ [CHR 0x0A]" "CHR 0x0A \<notin> set b"
      using sbs_line_body [OF l] by blast
    obtain s where s: "sbs_writer all_written (w @ to_bytes l) es = Some ((w @ to_bytes l) @ to_bytes s)"
        "sbs_positions s = List.map_filter (\<lambda>r. Option.bind (sbs_line r) parse_sbs_line) (fixes_of es)"
      using Cons.IH [of "w @ to_bytes l"] Cons.prems FixSent by auto
    have "parse_sbs_line b = parse_sbs_line l"
      by (simp add: parse_sbs_line_def b(1) trim_end_def is_white_def)
    then show ?thesis
      using s l all_written_app [of w "to_bytes l"] FixSent split_on_append [OF b(2), of s]
      by (intro exI [of _ "l @ s"]) (simp add: to_bytes_append to_bytes_def sbs_positions_def List.map_filter_simps b(1) split: option.split)
  next
    case Keepalive
    obtain s where s: "sbs_writer all_written (w @ to_bytes [CHR 0x0A]) es = Some ((w @ to_bytes [CHR 0x0A]) @ to_bytes s)"
        "sbs_positions s = List.map_filter (\<lambda>r. Option.bind (sbs_line r) parse_sbs_line) (fixes_of es)"
      using Cons.IH [of "w @ to_bytes [CHR 0x0A]"] Cons.prems Keepalive by auto
    then show ?thesis
      using Keepalive all_written_app [of w "to_bytes [CHR 0x0A]"]
      by (intro exI [of _ "CHR 0x0A # s"]) (simp add: to_bytes_def sbs_positions_def List.map_filter_simps parse_sbs_empty)
  next
    case Closed
    then show ?thesis
      by (intro exI [of _ "[]"]) (simp add: to_bytes_def sbs_positions_def List.map_filter_simps parse_sbs_empty)
  qed (use Cons in simp)
qed

subsection \<open>Properties\<close>

text \<open>
  C16. An SBS consumer reads every fix: whatever fixes are published while it keeps up, and with
  keep-alive newlines and skipped (lagged) stretches anywhere between, the byte stream of the
  SBS writer, cut at newlines and read with the project's SBS parser, yields the position of
  each fix it was sent, in order, and nothing else.
\<close>

theorem sbs_stream_readback:
  assumes "list_all (\<lambda>r. 0 \<le> or_stamp r \<and> or_stamp r < 2 ^ 63) (fixes_of es)"
  shows "\<exists>s. sbs_writer all_written [] es = Some (to_bytes s) \<and> map sbs_icao_hex (sbs_positions s) = map (\<lambda>r. to_hex (or_icao r)) (fixes_of es) \<and>
    list_all2 (\<lambda>p r. sbs_alt_ft p = Some (Finite (of_int (or_alt_ft r))) \<and> (\<exists>la lo. sbs_lat p = Some (Finite la) \<and> sbs_lon p = Some (Finite lo) \<and>
      \<bar>la - or_lat r\<bar> \<le> 0.000005 \<and> \<bar>lo - or_lon r\<bar> \<le> 0.000005)) (sbs_positions s) (fixes_of es)"
proof -
  obtain s where s: "sbs_writer all_written [] es = Some (to_bytes s)"
      "sbs_positions s = List.map_filter (\<lambda>r. Option.bind (sbs_line r) parse_sbs_line) (fixes_of es)"
    using sbs_writer_lines [OF assms, of "[]"] by auto
  have "map sbs_icao_hex ps = map (\<lambda>r. to_hex (or_icao r)) rs \<and> list_all2 (\<lambda>p r. sbs_alt_ft p = Some (Finite (of_int (or_alt_ft r))) \<and> (\<exists>la lo. sbs_lat p = Some (Finite la) \<and> sbs_lon p = Some (Finite lo) \<and>
      \<bar>la - or_lat r\<bar> \<le> 0.000005 \<and> \<bar>lo - or_lon r\<bar> \<le> 0.000005)) ps rs"
    if "ps = List.map_filter (\<lambda>r. Option.bind (sbs_line r) parse_sbs_line) rs" "list_all (\<lambda>r. 0 \<le> or_stamp r \<and> or_stamp r < 2 ^ 63) rs" for ps rs
    using that
  proof (induction rs arbitrary: ps)
    case (Cons r rs)
    then show ?case
      using sbs_line_reads [of r] by (auto simp: List.map_filter_simps)
  qed (simp add: List.map_filter_simps)
  from this [OF s(2) assms] s(1) show ?thesis
    by blast
qed

theorem sbs_stream_readback_witness:
  "\<exists>s. sbs_writer all_written [] [Keepalive, FixSent \<lparr>or_shard = 0, or_lat = 47.21, or_lon = - 1.55, or_icao = Icao 0x3C6444,
       or_stamp = 1234567890.5, or_alt_ft = 35000, or_err_m = 80, or_nstations = 5, or_users = [], or_filtered = None, or_recipients = []\<rparr>,
       Lagged, Keepalive] = Some (to_bytes s) \<and> map sbs_icao_hex (sbs_positions s) = [to_hex (Icao 0x3C6444)]"
  using sbs_stream_readback [of "[Keepalive, FixSent \<lparr>or_shard = 0, or_lat = 47.21, or_lon = - 1.55, or_icao = Icao 0x3C6444,
       or_stamp = 1234567890.5, or_alt_ft = 35000, or_err_m = 80, or_nstations = 5, or_users = [], or_filtered = None, or_recipients = []\<rparr>,
       Lagged, Keepalive]"] by auto

text \<open>
  C15. The compressed downlink loses nothing: for a deflater and an inflater that start in step
  and keep the promise of a sync flush, a writer that is fed any lines of up to 27000 bytes,
  with its one-second timer ticking anywhere between them, sends frames from which the
  client recovers exactly the text of those lines, in order, and so nothing stays behind in
  the batch when the channel closes.
\<close>

theorem downlink_roundtrip:
  assumes "sync_flushes cz dz in_step" "in_step c d" "list_all (\<lambda>l. length l \<le> 27000) (lines_of es)"
  shows "\<exists>s chunks. zlib_writer all_written cz broken [] c [] es = Some s \<and> read_frames dz d s = Inr chunks \<and>
    concat chunks = concat (map to_bytes (lines_of es))"
  using zlib_writer_reads [OF assms(1,2) _ assms(3), of "[]" broken "[]"] by (simp add: BATCH_def)

theorem downlink_roundtrip_witness:
  fixes cz dz
  defines "cz \<equiv> \<lambda>(z :: unit) b room. Some (StOk, length b, b @ SYNC_TRAILER, z)"
    and "dz \<equiv> \<lambda>(z :: unit) w room. Some (StOk, length w, take (length w - 4) w, z)"
  shows "\<exists>s chunks. zlib_writer all_written cz (\<lambda>z b. z) [] () [] [WLine ''a'', WTick, WLine ''b'', WLine ''c''] = Some s \<and>
    read_frames dz () s = Inr chunks \<and> concat chunks = to_bytes ''abc''"
proof -
  have "sync_flushes cz dz (\<lambda>_ _. True)"
    by (auto simp: sync_flushes_def cz_def dz_def SYNC_TRAILER_def)
  from downlink_roundtrip [OF this, where es = "[WLine ''a'', WTick, WLine ''b'', WLine ''c'']"] show ?thesis
    by (simp add: to_bytes_def)
qed

end
