(* ===== verification/Client.thy ===== *)
theory Client
  imports Proto Downlink Traffic Shard
begin

text \<open>
  One connection of \<^verbatim>\<open>crates/mlatd/src/main.rs\<close>: what \<open>handle_client\<close> makes of the handshake, the
  reader's way of cutting the stream into lines, what \<open>process_line_tx\<close> makes of a line, and the
  lines the server sends back. The functions give what the connection writes, what it sends
  to its shard and its new state; \<open>Server\<close> runs them inside the whole process. Times are
  seconds on the scaled clock. JSON is the parameter \<open>J\<close>; \<open>to_lowercase\<close> is applied to ASCII.
\<close>

subsection \<open>Plausible input\<close>

definition plausible_position :: "real \<Rightarrow> real \<Rightarrow> real \<Rightarrow> bool" where
  "plausible_position lat lon alt \<longleftrightarrow>
     - 90 \<le> lat \<and> lat \<le> 90 \<and> - 180 \<le> lon \<and> lon \<le> 180 \<and> - 1000 \<le> alt \<and> alt \<le> 10000"

definition plausible_counts :: "real \<Rightarrow> bool" where
  "plausible_counts t \<longleftrightarrow> 0 \<le> t \<and> t < 9007199254740992"

definition main_scaled_now :: "real \<Rightarrow> real \<Rightarrow> real \<Rightarrow> real" where
  "main_scaled_now t0 elapsed scale = t0 + elapsed * scale"

subsection \<open>The handshake\<close>

datatype client_error =
    ClosedBeforeHandshake
  | HandshakeTooLong
  | HandshakeNotJson
  | NoCompression
  | MissingPosition
  | InvalidPosition
  | AlreadyConnected
  | LineTooLong
  | FrameDecodeFailed

record client_cfg =
  cfg_uid :: nat
  cfg_sync_cap :: nat
  cfg_client_results :: bool

record accepted =
  negotiated :: string
  acc_info :: receiver_info
  wants_results :: bool
  wants_stats :: bool

text \<open>\<open>read_until\<close> a newline, on a reader limited to so many bytes.\<close>

fun read_until :: "nat \<Rightarrow> string \<Rightarrow> string \<times> string" where
  "read_until 0 s = ([], s)"
| "read_until (Suc n) [] = ([], [])"
| "read_until (Suc n) (c # s) = (if c = CHR 0x0A then ([c], s) else let (l, r) = read_until n s in (c # l, r))"

definition negotiate :: "string list \<Rightarrow> string option" where
  "negotiate offers = List.find (\<lambda>m. m \<in> set offers) [''zlib2'', ''zlib'', ''none'']"

definition server_freq_hz :: "string \<Rightarrow> real" where
  "server_freq_hz clock =
     (if clock = ''radarcape_gps'' \<or> clock = ''radarcape'' then 10 ^ 9 else if clock = ''sbs'' then 20 * 10 ^ 6 else 12 * 10 ^ 6)"

definition starts_with :: "string \<Rightarrow> string \<Rightarrow> bool" where
  "starts_with s p \<longleftrightarrow> take (length p) s = p"

definition deny_line :: "string \<Rightarrow> nat \<Rightarrow> string" where
  "deny_line reason after =
     ''{'' @ quoted ''deny'' @ '':['' @ quoted reason @ ''],'' @ quoted ''reconnect_in'' @ '':'' @ dec after @ ''}'' @ [CHR 0x0A]"

definition or_else :: "'a option \<Rightarrow> 'a \<Rightarrow> 'a" where
  "or_else x d = (case x of Some v \<Rightarrow> v | None \<Rightarrow> d)"

definition check_handshake ::
  "'j json_api \<Rightarrow> client_cfg \<Rightarrow> string \<times> nat \<Rightarrow> real \<Rightarrow> string \<Rightarrow> (client_error \<times> string) + accepted" where
  "check_handshake J cfg peer now hs_line =
     (if hs_line = [] then Inl (ClosedBeforeHandshake, [])
      else if last hs_line \<noteq> CHR 0x0A then Inl (HandshakeTooLong, [])
      else case from_slice J hs_line of None \<Rightarrow> Inl (HandshakeNotJson, []) | Some hs \<Rightarrow>
        let offers = (case field J (as_array J) hs ''compress'' of Some a \<Rightarrow> List.map_filter (as_str J) a | None \<Rightarrow> []) in
        case negotiate offers of None \<Rightarrow> Inl (NoCompression, deny_line ''no supported compression offered'' 300) | Some method \<Rightarrow>
        case (field J (as_f64 J) hs ''lat'', field J (as_f64 J) hs ''lon'', field J (as_f64 J) hs ''alt'') of
          (Some lat, Some lon, Some alt) \<Rightarrow>
            if \<not> plausible_position lat lon alt then Inl (InvalidPosition, deny_line ''invalid position'' 300)
            else let clock = or_else (field J (as_str J) hs ''clock_type'') ''unknown'';
                     usr = or_else (field J (as_str J) hs ''user'') ''anon'';
                     g = \<lparr>lat_deg = lat, lon_deg = lon, alt_m = alt\<rparr>;
                     is_gps = starts_with clock ''radarcape_gps'';
                     conn_info = usr @ '' v'' @ fmt_int 0 (or_else (field J (as_int J) hs ''version'') 0) @ '' '' @ clock @ '' '' @
                       or_else (field J (as_str J) hs ''client_version'') ''unknown'' @ '' tcp '' @ method
                 in Inr \<lparr>negotiated = method,
                      acc_info = \<lparr>user = usr, uid = cfg_uid cfg, uuid = field J (as_str J) hs ''uuid'',
                        privacy = or_else (field J (as_bool J) hs ''privacy'') False, connection_info = conn_info,
                        source_ip = fst peer, source_port = snd peer, geo = g, rx_ecef = to_ecef g, freq_hz = server_freq_hz clock,
                        gps = is_gps, jitter_s = (if is_gps then 30 / 10 ^ 9 else 150 / 10 ^ 9), last_read = now\<rparr>,
                      wants_results = cfg_client_results cfg \<and> or_else (field J (as_bool J) hs ''return_results'') False,
                      wants_stats = or_else (field J (as_bool J) hs ''return_stats'') False\<rparr>
        | _ \<Rightarrow> Inl (MissingPosition, deny_line ''missing position'' 300))"

definition bool_text :: "bool \<Rightarrow> string" where
  "bool_text b = (if b then ''true'' else ''false'')"

definition accept_line :: "accepted \<Rightarrow> string" where
  "accept_line a =
     ''{'' @ quoted ''compress'' @ '':'' @ quoted (negotiated a) @ '','' @ quoted ''reconnect_in'' @ '':300,'' @
     quoted ''selective_traffic'' @ '':true,'' @ quoted ''heartbeat'' @ '':true,'' @
     quoted ''return_results'' @ '':'' @ bool_text (wants_results a) @ '','' @ quoted ''rate_reports'' @ '':true,'' @
     quoted ''return_stats'' @ '':'' @ bool_text (wants_stats a) @ '','' @
     quoted ''motd'' @ '':'' @ quoted ''FlightPortrait network MLAT (mlatd)'' @ ''}'' @ [CHR 0x0A]"

definition already_connected_line :: "string \<Rightarrow> string" where
  "already_connected_line usr =
     deny_line (''User '' @ filter (\<lambda>c. c \<noteq> CHR 0x22 \<and> c \<noteq> CHR 0x5C) usr @ '' is already connected'') 160"

subsection \<open>Pushed lines\<close>

definition heartbeat_line :: "real \<Rightarrow> string" where
  "heartbeat_line st = ''{'' @ quoted ''heartbeat'' @ '':{'' @ quoted ''server_time'' @ '':'' @ fmt_fixed 3 st @ ''}}'' @ [CHR 0x0A]"

text \<open>What the answer to a statistics request does: whether the slot is still held, and the line pushed.\<close>

definition push_stats :: "bool \<Rightarrow> reply option \<Rightarrow> bool \<times> string list" where
  "push_stats send answer =
     (case answer of
        Some (RxStats (Some (peers, outlier, quar))) \<Rightarrow>
          (True, if send
                 then [''{'' @ quoted ''stats'' @ '':{'' @ quoted ''peer_count'' @ '':'' @ dec peers @ '','' @
                       quoted ''bad_sync_timeout'' @ '':'' @ dec (if quar then 60 else 0) @ '','' @
                       quoted ''outlier_percent'' @ '':'' @ fmt_fixed 1 outlier @ ''}}'' @ [CHR 0x0A]]
                 else [])
      | _ \<Rightarrow> (False, []))"

subsection \<open>One line\<close>

fun offer_all :: "traffic \<Rightarrow> real \<Rightarrow> string list \<Rightarrow> string list \<times> traffic" where
  "offer_all t now [] = ([], t)"
| "offer_all t now (h # hs) =
     (let (new, t) = offered t (to_ascii_lowercase h) now; (fresh, t) = offer_all t now hs
      in (if new then to_ascii_lowercase h # fresh else fresh, t))"

definition listed :: "'j json_api \<Rightarrow> 'j \<Rightarrow> string \<Rightarrow> string list" where
  "listed J v key = (case jget J v key of Some x \<Rightarrow> string_list J x | None \<Rightarrow> [])"

definition start_sending_line :: "'j json_api \<Rightarrow> string list \<Rightarrow> string" where
  "start_sending_line J fresh = ''{'' @ quoted ''start_sending'' @ '':'' @ to_vec J (j_arr J (map (j_str J) fresh)) @ ''}'' @ [CHR 0x0A]"

definition stop_sending_line :: "string \<Rightarrow> string" where
  "stop_sending_line i = ''{'' @ quoted ''stop_sending'' @ '':['' @ quoted i @ '']}'' @ [CHR 0x0A]"

text \<open>The selective-traffic half: what is requested, and the lost aircraft forgotten.\<close>

definition steer :: "'j json_api \<Rightarrow> traffic \<Rightarrow> real \<Rightarrow> 'j \<Rightarrow> string list \<times> traffic" where
  "steer J t now v =
     (let (fresh, t) = offer_all t now (listed J v ''seen'' @ or_else (field J (object_keys J) v ''rate_report'') []);
          outs = (if fresh = [] then [] else [start_sending_line J fresh])
      in (outs, foldl (\<lambda>t a. lost t (to_ascii_lowercase a)) t (listed J v ''lost'')))"

text \<open>The message half: what goes to the shard.\<close>

definition sync_line :: "'j json_api \<Rightarrow> rx_ref \<Rightarrow> traffic \<Rightarrow> real \<Rightarrow> 'j \<Rightarrow> shard_msg list \<times> string list \<times> traffic" where
  "sync_line J r t now sy =
     (case (field J (as_f64 J) sy ''et'', field J (as_f64 J) sy ''ot'', field J (as_str J) sy ''em'', field J (as_str J) sy ''om'') of
        (Some et, Some ot, Some em, Some om) \<Rightarrow>
          if \<not> plausible_counts et \<or> \<not> plausible_counts ot then ([], [], t)
          else let (keep, outs, t) =
                 (case adsb_icao em of
                    None \<Rightarrow> (True, [], t)
                  | Some i \<Rightarrow> let (ok, t) = Traffic.on_sync t i now in (ok, if ok then [] else [stop_sending_line i], t))
               in (if keep then [Sync r et ot em om now] else [], outs, t)
      | _ \<Rightarrow> ([], [], t))"

definition mlat_line :: "'j json_api \<Rightarrow> rx_ref \<Rightarrow> real \<Rightarrow> 'j \<Rightarrow> shard_msg list" where
  "mlat_line J r now ml =
     (case (field J (as_f64 J) ml ''t'', field J (as_str J) ml ''m'') of
        (Some t, Some m) \<Rightarrow> if plausible_counts t then [Mlat r t m now] else []
      | _ \<Rightarrow> [])"

definition process_line :: "'j json_api \<Rightarrow> rx_ref \<Rightarrow> traffic \<Rightarrow> real \<Rightarrow> string \<Rightarrow> shard_msg list \<times> string list \<times> traffic" where
  "process_line J r t now line =
     (case from_slice J line of
        None \<Rightarrow> ([], [], t)
      | Some v \<Rightarrow>
          let (outs, t) = steer J t now v
          in case jget J v ''sync'' of
               Some sy \<Rightarrow> let (ms, outs2, t) = sync_line J r t now sy in (ms, outs @ outs2, t)
             | None \<Rightarrow>
                 (case jget J v ''mlat'' of
                    Some ml \<Rightarrow> (mlat_line J r now ml, outs, t)
                  | None \<Rightarrow>
                      (if jget J v ''clock_reset'' \<noteq> None \<or> jget J v ''clock_jump'' \<noteq> None then [ClockReset r] else [], outs, t)))"

fun process_lines :: "'j json_api \<Rightarrow> rx_ref \<Rightarrow> traffic \<Rightarrow> real \<Rightarrow> string list \<Rightarrow> shard_msg list \<times> string list \<times> traffic" where
  "process_lines J r t now [] = ([], [], t)"
| "process_lines J r t now (l # ls) =
     (let (m1, o1, t) = process_line J r t now l; (m2, o2, t) = process_lines J r t now ls in (m1 @ m2, o1 @ o2, t))"

subsection \<open>One read\<close>

text \<open>
  What a read of the message loop yields: \<open>Inr None\<close> at the end of the stream, else the lines
  to process and the stream and decoder left. A plain connection reads a line of at most
  256 KiB; a compressed one a frame, whose text is cut at newlines.
\<close>

definition read_plain :: "string \<Rightarrow> client_error + (string list \<times> string) option" where
  "read_plain s =
     (let (line, rest) = read_until (256 * 1024) s
      in if line = [] then Inr None
         else if last line \<noteq> CHR 0x0A then Inl LineTooLong else Inr (Some ([line], rest)))"

definition of_bytes :: "bytes \<Rightarrow> string" where
  "of_bytes b = map (\<lambda>x. char_of (unat x)) b"

definition read_framed :: "'z z_call \<Rightarrow> 'z \<Rightarrow> bytes \<Rightarrow> client_error + (string list \<times> bytes \<times> 'z) option" where
  "read_framed dz z s =
     (case read_zlib_frame s of
        None \<Rightarrow> Inr None
      | Some (f, rest) \<Rightarrow>
          (case decode_frame dz z f of
             Inl e \<Rightarrow> Inl FrameDecodeFailed
           | Inr (chunk, z') \<Rightarrow> Inr (Some (filter (\<lambda>l. l \<noteq> []) (split_on CHR 0x0A (of_bytes chunk)), rest, z'))))"

subsection \<open>Lemmas\<close>

lemma read_until_split: "read_until n s = (l, r) \<Longrightarrow> s = l @ r \<and> length l \<le> n"
  by (induction n s arbitrary: l r rule: read_until.induct) (auto split: if_splits prod.splits)

lemma negotiate_best:
  "negotiate (map compress_name cs) =
     (if CZlib2 \<in> set cs then Some ''zlib2'' else if CZlib \<in> set cs then Some ''zlib'' else if CNone \<in> set cs then Some ''none'' else None)"
proof -
  have "compress_name c \<in> compress_name ` set cs \<longleftrightarrow> c \<in> set cs" for c
    using compress_of_name by (metis (no_types, lifting) image_iff option.inject)
  from this [of CZlib2] this [of CZlib] this [of CNone] show ?thesis
    by (simp add: negotiate_def)
qed

lemma offer_all_ok: "traffic_ok c t \<Longrightarrow> traffic_ok c (snd (offer_all t now hs))"
proof (induction t now hs rule: offer_all.induct)
  case (2 t now h hs)
  then show ?case
    using offered_ok [OF 2(2), of "to_ascii_lowercase h" now] by (auto split: prod.split)
qed simp

lemma offer_all_icao: "list_all is_icao (fst (offer_all t now hs))"
  by (induction t now hs rule: offer_all.induct) (auto simp: offered_def split: prod.splits if_splits)

lemma foldl_lost_ok: "traffic_ok c t \<Longrightarrow> traffic_ok c (foldl (\<lambda>t a. lost t (f a)) t xs)"
  by (induction xs arbitrary: t) (auto simp: lost_ok)

lemma steer_ok:
  assumes "traffic_ok c t"
  shows "traffic_ok c (snd (steer J t now v))"
  unfolding steer_def Let_def case_prod_beta snd_conv by (intro foldl_lost_ok offer_all_ok assms)

text \<open>
  What a line may put on the way to the shard: nothing, or the one message it spells out as
  JSON, under the handle of the connection and with the time of the read, its counts finite,
  not negative and below 2 to the 53.
\<close>

definition asks_for :: "'j json_api \<Rightarrow> rx_ref \<Rightarrow> real \<Rightarrow> string \<Rightarrow> shard_msg \<Rightarrow> bool" where
  "asks_for J r now line m \<longleftrightarrow>
     (case from_slice J line of
        None \<Rightarrow> False
      | Some v \<Rightarrow>
          (case m of
             Sync r' et ot em om at_t \<Rightarrow> r' = r \<and> at_t = now \<and> 0 \<le> et \<and> et < 2 ^ 53 \<and> 0 \<le> ot \<and> ot < 2 ^ 53 \<and>
               (case jget J v ''sync'' of None \<Rightarrow> False | Some sy \<Rightarrow>
                  field J (as_f64 J) sy ''et'' = Some et \<and> field J (as_f64 J) sy ''ot'' = Some ot \<and>
                  field J (as_str J) sy ''em'' = Some em \<and> field J (as_str J) sy ''om'' = Some om)
           | Mlat r' t mm at_t \<Rightarrow> r' = r \<and> at_t = now \<and> 0 \<le> t \<and> t < 2 ^ 53 \<and> jget J v ''sync'' = None \<and>
               (case jget J v ''mlat'' of None \<Rightarrow> False | Some ml \<Rightarrow>
                  field J (as_f64 J) ml ''t'' = Some t \<and> field J (as_str J) ml ''m'' = Some mm)
           | ClockReset r' \<Rightarrow> r' = r \<and> jget J v ''sync'' = None \<and> jget J v ''mlat'' = None \<and>
               (jget J v ''clock_reset'' \<noteq> None \<or> jget J v ''clock_jump'' \<noteq> None)
           | _ \<Rightarrow> False))"

lemma on_sync_keeps: "traffic_ok c t \<Longrightarrow> Traffic.on_sync t i now = (ok, t') \<Longrightarrow> traffic_ok c t'"
  using on_sync_ok [of c t i now] by simp

lemma sync_line_asks:
  assumes "traffic_ok c t" "sync_line J r t now sy = (ms, outs, t')" "from_slice J line = Some v" "jget J v ''sync'' = Some sy"
  shows "traffic_ok c t' \<and> (ms = [] \<or> (\<exists>m. ms = [m] \<and> asks_for J r now line m))"
  using assms on_sync_keeps [OF assms(1)]
  by (auto simp: sync_line_def asks_for_def plausible_counts_def Let_def split: option.splits prod.splits if_splits)

lemma process_line_asks:
  assumes "traffic_ok c t" "process_line J r t now line = (ms, outs, t')"
  shows "traffic_ok c t' \<and> (ms = [] \<or> (\<exists>m. ms = [m] \<and> asks_for J r now line m))"
proof (cases "from_slice J line")
  case (Some v)
  obtain outs1 t1 where t1: "steer J t now v = (outs1, t1)"
    by fastforce
  then have ok: "traffic_ok c t1"
    using steer_ok [OF assms(1), of J now v] by simp
  show ?thesis
  proof (cases "jget J v ''sync''")
    case None
    then show ?thesis
      using ok assms(2)
      by (auto simp: process_line_def Some t1 asks_for_def mlat_line_def plausible_counts_def split: option.splits if_splits)
  next
    case sy: (Some sy)
    obtain m2 o2 t2 where l: "sync_line J r t1 now sy = (m2, o2, t2)"
      by (cases "sync_line J r t1 now sy") auto
    show ?thesis
      using sync_line_asks [OF ok l Some sy] assms(2) by (simp add: process_line_def Some t1 sy l)
  qed
next
  case None
  then show ?thesis
    using assms by (auto simp: process_line_def)
qed

lemma process_lines_asks:
  "traffic_ok c t \<Longrightarrow> process_lines J r t now ls = (ms, outs, t') \<Longrightarrow>
    traffic_ok c t' \<and> (\<exists>mss. ms = concat mss \<and> list_all2 (\<lambda>l ms. ms = [] \<or> (\<exists>m. ms = [m] \<and> asks_for J r now l m)) ls mss)"
proof (induction ls arbitrary: t ms outs t')
  case (Cons l ls)
  obtain m1 o1 t1 where p: "process_line J r t now l = (m1, o1, t1)"
    by (cases "process_line J r t now l") auto
  obtain m2 o2 t2 where q: "process_lines J r t1 now ls = (m2, o2, t2)"
    by (cases "process_lines J r t1 now ls") auto
  note P = process_line_asks [OF Cons.prems(1) p]
  obtain mss where mss: "m2 = concat mss" "list_all2 (\<lambda>l ms. ms = [] \<or> (\<exists>m. ms = [m] \<and> asks_for J r now l m)) ls mss" "traffic_ok c t2"
    using Cons.IH [OF conjunct1 [OF P] q] by blast
  have "ms = m1 @ m2" "t' = t2"
    using Cons.prems(2) p q by auto
  then show ?case
    using P mss by (intro conjI exI [of _ "m1 # mss"]) auto
qed auto

lemma process_lines_forward:
  assumes "traffic_ok c t" "process_lines J r t now ls = (ms, outs, t')" "m \<in> set ms"
  shows "\<exists>l. asks_for J r now l m"
proof -
  obtain mss where "ms = concat mss" "list_all2 (\<lambda>l ms. ms = [] \<or> (\<exists>m. ms = [m] \<and> asks_for J r now l m)) ls mss"
    using process_lines_asks [OF assms(1,2)] by blast
  then show ?thesis
    using assms(3) by (fastforce simp: list_all2_conv_all_nth in_set_conv_nth)
qed

lemma server_freq_agrees: "server_freq_hz (clock_name ct) = clock_freq_hz ct"
  by (cases ct) (simp_all add: server_freq_hz_def)

lemma gps_agrees: "starts_with (clock_name ct) ''radarcape_gps'' \<longleftrightarrow> ct = RadarcapeGps"
  by (cases ct) (simp_all add: starts_with_def)

text \<open>What \<open>serde_json\<close> wrote it reads back, also behind the newline that ends a line.\<close>

definition reads_back :: "'j json_api \<Rightarrow> 'j \<Rightarrow> bool" where
  "reads_back J v \<longleftrightarrow> from_slice J (to_vec J v @ [CHR 0x0A]) = Some v"

lemma obj_field: "json_laws J \<Longrightarrow> distinct (map fst kvs) \<Longrightarrow> field J f (j_obj J kvs) k = Option.bind (map_of kvs k) f"
  by (simp add: field_def json_lawsD)

text \<open>Reading through an object of one key, the shape of every client message.\<close>

lemma single_key:
  "json_laws J \<Longrightarrow> jget J (j_obj J [(key, v)]) k = (if k = key then Some v else None)"
  "json_laws J \<Longrightarrow> field J f (j_obj J [(key, v)]) k = (if k = key then f v else None)"
  by (simp_all add: field_def json_lawsD)

subsection \<open>Properties\<close>

text \<open>
  C11. Client and server agree on the handshake: the line a client writes for a handshake with
  a plausible position and at least one compression method is accepted; the method chosen is
  the best of those offered, in the order zlib2, zlib, none; the receiver gets the client's
  name and position, exactly the clock frequency the client's clock type has, and GPS
  treatment exactly for a GPS clock; results and statistics flow only if asked for.
\<close>

theorem handshake_agrees:
  assumes "json_laws J" "reads_back J (j_obj J (handshake_fields J h))"
    "plausible_position (hs_lat h) (hs_lon h) (hs_alt h)" "hs_compress h \<noteq> []"
  shows "\<exists>a. check_handshake J cfg peer now (handshake_to_line J h) = Inr a \<and>
    negotiated a = compress_name (if CZlib2 \<in> set (hs_compress h) then CZlib2 else if CZlib \<in> set (hs_compress h) then CZlib else CNone) \<and>
    user (acc_info a) = hs_user h \<and> uuid (acc_info a) = hs_uuid h \<and>
    geo (acc_info a) = \<lparr>lat_deg = hs_lat h, lon_deg = hs_lon h, alt_m = hs_alt h\<rparr> \<and> rx_ecef (acc_info a) = to_ecef (geo (acc_info a)) \<and>
    freq_hz (acc_info a) = clock_freq_hz (hs_clock_type h) \<and> (gps (acc_info a) \<longleftrightarrow> hs_clock_type h = RadarcapeGps) \<and>
    (wants_results a \<longleftrightarrow> cfg_client_results cfg \<and> hs_return_results h = Some True) \<and> (wants_stats a \<longleftrightarrow> hs_return_stats h = Some True)"
proof -
  let ?v = "j_obj J (handshake_fields J h)"
  have line: "handshake_to_line J h \<noteq> []" "last (handshake_to_line J h) = CHR 0x0A" "from_slice J (handshake_to_line J h) = Some ?v"
    using assms(2) by (simp_all add: handshake_to_line_def reads_back_def)
  have offers: "List.map_filter (as_str J) (map (\<lambda>c. j_str J (compress_name c)) (hs_compress h)) = map compress_name (hs_compress h)"
    by (rule map_filter_as_str [OF assms(1)])
  obtain c where c: "c = (if CZlib2 \<in> set (hs_compress h) then CZlib2 else if CZlib \<in> set (hs_compress h) then CZlib else CNone)"
    by blast
  have "negotiate (map compress_name (hs_compress h)) = Some (compress_name c)"
    using assms(4) unfolding negotiate_best c by (cases "hs_compress h"; cases "hd (hs_compress h)") auto
  then show ?thesis
    using assms(3) line
    by (simp add: check_handshake_def handshake_reads [OF assms(1)] offers server_freq_agrees gps_agrees or_else_def c [symmetric] Let_def
        split: option.split)
qed

theorem handshake_agrees_witness:
  fixes h
  defines "h \<equiv> \<lparr>hs_version = 3, hs_user = ''ann'', hs_uuid = None, hs_compress = [CNone, CZlib2], hs_lat = 47.21, hs_lon = - 1.55, hs_alt = 40,
      hs_clock_type = RadarcapeGps, hs_return_results = Some True, hs_return_result_format = None, hs_client_version = None,
      hs_selective_traffic = None, hs_heartbeat = None, hs_return_stats = None\<rparr>"
    and "J \<equiv> tree_json (\<lambda>s. Some (j_obj (tree_json Map.empty) (handshake_fields (tree_json Map.empty) h)))"
  shows "\<exists>a. check_handshake J \<lparr>cfg_uid = 1, cfg_sync_cap = 0, cfg_client_results = True\<rparr> ([], 0) 5 (handshake_to_line J h) = Inr a \<and>
    negotiated a = ''zlib2'' \<and> freq_hz (acc_info a) = 10 ^ 9 \<and> wants_results a"
proof -
  have "reads_back J (j_obj J (handshake_fields J h))"
    by (simp add: reads_back_def J_def tree_json_def handshake_fields_def)
  moreover have "json_laws J"
    unfolding J_def by (rule tree_json_laws)
  ultimately show ?thesis
    using handshake_agrees [of J h "\<lparr>cfg_uid = 1, cfg_sync_cap = 0, cfg_client_results = True\<rparr>" "([], 0)" 5]
    by (auto simp: h_def plausible_position_def)
qed

text \<open>
  C12. What becomes of the messages of \<open>ClientMsg\<close>. A sync pair with plausible counts reaches
  the shard with the same counts and frames and under the connection's own handle, unless
  it comes from an aircraft that the sync cap of the connection refuses; then nothing
  reaches the shard and the client is told to stop that aircraft. An MLAT reply with a
  plausible count, a clock reset and a clock jump always reach the shard. Nothing else
  does: implausible counts are dropped, and the other messages carry nothing for the shard.
\<close>

theorem client_messages_arrive:
  assumes "json_laws J" "reads_back J (client_value J m)"
  shows "case m of
      CSync et ot em om \<Rightarrow> (case (as_f64 J et, as_f64 J ot) of
          (Some x, Some y) \<Rightarrow> process_line J r t now (client_to_line J m) =
            (if \<not> (0 \<le> x \<and> x < 2 ^ 53 \<and> 0 \<le> y \<and> y < 2 ^ 53) then ([], [], t)
             else case adsb_icao em of
                    None \<Rightarrow> ([Sync r x y em om now], [], t)
                  | Some i \<Rightarrow>
                      (if fst (Traffic.on_sync t i now) then ([Sync r x y em om now], [], snd (Traffic.on_sync t i now))
                       else ([], [stop_sending_line i], snd (Traffic.on_sync t i now))))
        | _ \<Rightarrow> fst (process_line J r t now (client_to_line J m)) = [])
    | CMlat ts f \<Rightarrow> (case as_f64 J ts of
          Some x \<Rightarrow> process_line J r t now (client_to_line J m) = (if 0 \<le> x \<and> x < 2 ^ 53 then [Mlat r x f now] else [], [], t)
        | None \<Rightarrow> fst (process_line J r t now (client_to_line J m)) = [])
    | CClockReset s \<Rightarrow> process_line J r t now (client_to_line J m) = ([ClockReset r], [], t)
    | CClockJump s \<Rightarrow> process_line J r t now (client_to_line J m) = ([ClockReset r], [], t)
    | _ \<Rightarrow> fst (process_line J r t now (client_to_line J m)) = []"
proof -
  have line: "from_slice J (client_to_line J m) = Some (client_value J m)"
    using assms(2) by (simp add: client_to_line_def reads_back_def)
  note sk = single_key [OF assms(1)] and pc = plausible_counts_def
  show ?thesis
  proof (cases m)
    case (CSync et ot em om)
    show ?thesis
      using line
      by (auto simp: CSync client_value_def process_line_def steer_def listed_def sk obj_field [OF assms(1)] sync_line_def json_lawsD(3) [OF assms(1)]
          or_else_def pc Let_def case_prod_beta split: option.split)
  next
    case (CMlat ts f)
    show ?thesis
      using line
      by (auto simp: CMlat client_value_def process_line_def steer_def listed_def sk obj_field [OF assms(1)] mlat_line_def json_lawsD(3) [OF assms(1)]
          or_else_def pc split: option.split)
  qed (use line in \<open>simp_all add: client_value_def process_line_def steer_def listed_def sk or_else_def Let_def case_prod_beta\<close>)
qed

theorem client_messages_arrive_witness:
  fixes J
  defines "J \<equiv> tree_json (\<lambda>s. Some (JObj [(''mlat'', JObj [(''t'', JNum 12000000), (''m'', JStr ''5d3c6444abcdef'')])]))"
  shows "process_line J \<lparr>rr_idx = 0, rr_gen = 0\<rparr> (traffic_new 0) 5 (client_to_line J (CMlat (JNum 12000000) ''5d3c6444abcdef'')) =
    ([Mlat \<lparr>rr_idx = 0, rr_gen = 0\<rparr> 12000000 ''5d3c6444abcdef'' 5], [], traffic_new 0)"
proof -
  have "reads_back J (client_value J (CMlat (JNum 12000000) ''5d3c6444abcdef''))" "as_f64 J (JNum 12000000) = Some 12000000"
    by (simp_all add: reads_back_def J_def tree_json_def client_value_def)
  moreover have "json_laws J"
    unfolding J_def by (rule tree_json_laws)
  ultimately show ?thesis
    using client_messages_arrive [where J = J and m = "CMlat (JNum 12000000) ''5d3c6444abcdef''" and t = "traffic_new 0"
        and r = "\<lparr>rr_idx = 0, rr_gen = 0\<rparr>" and now = 5]
    by simp
qed

text \<open>
  C13. Whatever a client sends, its lines cannot reach past what they say, nor past its own
  receiver. Of a chunk of lines, each puts either nothing on the way to the shard or one
  message that the line asks for: a line that is not JSON or lacks a field or has a count
  out of range puts nothing there, a sync pair only a line with a sync object of these very
  counts and frames, and so on; every message carries the connection's own handle and the
  time of the read. And the connection's traffic state keeps its bounds.
\<close>

theorem lines_stay_in_bounds:
  assumes "traffic_ok c t" "process_lines J r t now ls = (ms, outs, t')"
  shows "traffic_ok c t' \<and> (\<exists>mss. ms = concat mss \<and> list_all2 (\<lambda>l ms. ms = [] \<or> (\<exists>m. ms = [m] \<and> asks_for J r now l m)) ls mss)"
  using process_lines_asks [OF assms] .

theorem lines_stay_in_bounds_witness:
  fixes J
  defines "J \<equiv> tree_json (\<lambda>s. if s = ''a'' then Some (JObj [(''clock_reset'', JNull)]) else if s = ''b'' then None
      else Some (JObj [(''mlat'', JObj [(''t'', JNum 7), (''m'', JStr ''5d'')])]))"
  shows "process_lines J \<lparr>rr_idx = 2, rr_gen = 7\<rparr> (traffic_new 3) 5 [''a'', ''b'', ''c''] =
      ([ClockReset \<lparr>rr_idx = 2, rr_gen = 7\<rparr>, Mlat \<lparr>rr_idx = 2, rr_gen = 7\<rparr> 7 ''5d'' 5], [], traffic_new 3) \<and>
    (\<exists>mss. list_all2 (\<lambda>l ms. ms = [] \<or> (\<exists>m. ms = [m] \<and> asks_for J \<lparr>rr_idx = 2, rr_gen = 7\<rparr> 5 l m)) [''a'', ''b'', ''c''] mss \<and> length (concat mss) = 2)"
proof -
  have "process_lines J \<lparr>rr_idx = 2, rr_gen = 7\<rparr> (traffic_new 3) 5 [''a'', ''b'', ''c''] =
      ([ClockReset \<lparr>rr_idx = 2, rr_gen = 7\<rparr>, Mlat \<lparr>rr_idx = 2, rr_gen = 7\<rparr> 7 ''5d'' 5], [], traffic_new 3)"
    by (simp add: J_def tree_json_def process_line_def steer_def listed_def field_def or_else_def mlat_line_def plausible_counts_def)
  moreover from lines_stay_in_bounds [OF traffic_new_ok this] obtain mss where
      "[ClockReset \<lparr>rr_idx = 2, rr_gen = 7\<rparr>, Mlat \<lparr>rr_idx = 2, rr_gen = 7\<rparr> 7 ''5d'' 5] = concat mss"
      "list_all2 (\<lambda>l ms. ms = [] \<or> (\<exists>m. ms = [m] \<and> asks_for J \<lparr>rr_idx = 2, rr_gen = 7\<rparr> 5 l m)) [''a'', ''b'', ''c''] mss"
    by blast
  moreover from this(1) have "length (concat mss) = 2"
    by (metis (no_types) length_Cons list.size(3) numeral_2_eq_2)
  ultimately show ?thesis
    by blast
qed

subsection \<open>The ticker\<close>

text \<open>
  The connection's timers: heartbeats, and every 15 seconds a statistics request whose answer
  also tells whether the shard still holds the receiver. The lines it offers to the writer,
  and whether it evicts the connection.
\<close>

datatype tick_event =
    HeartbeatDue real
  | StatsDue "reply option"

fun ticker :: "bool \<Rightarrow> tick_event list \<Rightarrow> string list \<times> bool" where
  "ticker send [] = ([], False)"
| "ticker send (HeartbeatDue st # es) = (let (ls, evict) = ticker send es in (heartbeat_line st # ls, evict))"
| "ticker send (StatsDue answer # es) =
     (let (held, pushed) = push_stats send answer
      in if \<not> held then ([], True) else let (ls, evict) = ticker send es in (pushed @ ls, evict))"

text \<open>The shard answers each request from its state at that moment.\<close>

definition answered_tick :: "(string \<Rightarrow> bytes option) \<Rightarrow> rx_ref \<Rightarrow> real + state \<times> real \<Rightarrow> tick_event" where
  "answered_tick hx r e =
     (case e of Inl st \<Rightarrow> HeartbeatDue st | Inr (s, now) \<Rightarrow> StatsDue (Some (fst (dispatch hx s now (ReceiverStats r)))))"

lemma stats_answer_held: "fst (push_stats send (Some (fst (dispatch hx s now (ReceiverStats r))))) \<longleftrightarrow> live s r"
  by (auto simp: dispatch_def receiver_stats_def push_stats_def Let_def split: prod.splits)

text \<open>
  C14. A replaced connection is found out, and only such: along any timing of heartbeats and
  statistics requests the ticker evicts its connection exactly if, at one of the requests,
  the shard's state no longer holds the connection's handle.
\<close>

theorem ticker_evicts_stale:
  "snd (ticker send (map (answered_tick hx r) es)) \<longleftrightarrow> list_ex (\<lambda>e. case e of Inl st \<Rightarrow> False | Inr p \<Rightarrow> \<not> live (fst p) r) es"
proof (induction es)
  case (Cons e es)
  show ?case
  proof (cases e)
    case (Inr p)
    obtain s now where p: "p = (s, now)"
      by fastforce
    obtain held pushed where h: "push_stats send (Some (fst (dispatch hx s now (ReceiverStats r)))) = (held, pushed)"
      by fastforce
    then have "held \<longleftrightarrow> live s r"
      using stats_answer_held [of send hx s now r] by simp
    moreover have "answered_tick hx r e = StatsDue (Some (fst (dispatch hx s now (ReceiverStats r))))"
      by (simp add: Inr p answered_tick_def)
    ultimately show ?thesis
      using Cons h by (simp add: Inr p Let_def case_prod_beta)
  qed (use Cons in \<open>simp add: answered_tick_def Let_def case_prod_beta\<close>)
qed simp

end
