(* ===== verification/Workdir.thy ===== *)
theory Workdir
  imports Router Shard
begin

text \<open>
  The two tasks of \<^verbatim>\<open>crates/mlatd/src/main.rs\<close> that poll every shard: the statistics round,
  which feeds the router's load gate, and the work-directory export, which merges the
  shards' reports and lists the partition's cells. A round is a function of the answers
  it gets, one per shard in order, \<open>None\<close> where the shard is gone; JSON objects are maps
  and records, as in \<open>Export\<close>.
\<close>

subsection \<open>The statistics round\<close>

record stats_task =
  prev_sync :: "nat list"
  rx_n :: nat
  sync_o :: nat
  solved :: nat
  rej :: nat

definition stats_start :: "nat list \<Rightarrow> stats_task" where
  "stats_start prev = \<lparr>prev_sync = prev, rx_n = 0, sync_o = 0, solved = 0, rej = 0\<rparr>"

definition take_stats :: "router \<times> stats_task \<Rightarrow> nat \<times> reply option \<Rightarrow> router \<times> stats_task" where
  "take_stats rt ia =
     (case (rt, ia) of
        ((r, t), (i, Some (Counters a b c d))) \<Rightarrow>
          (store_rate r i b (prev_sync t ! i),
           t\<lparr>prev_sync := (prev_sync t)[i := b], rx_n := rx_n t + a, sync_o := sync_o t + b, solved := solved t + c, rej := rej t + d\<rparr>)
      | _ \<Rightarrow> rt)"

definition stats_round :: "router \<Rightarrow> nat list \<Rightarrow> reply option list \<Rightarrow> router \<times> stats_task" where
  "stats_round r prev answers = foldl take_stats (r, stats_start prev) (zip [0..<length answers] answers)"

definition status_due :: "int \<Rightarrow> real \<Rightarrow> bool" where
  "status_due status_every elapsed \<longleftrightarrow> status_every \<ge> 0 \<and> elapsed \<ge> of_int status_every * 0.95"

subsection \<open>The export\<close>

record work_dir =
  wd_sync :: "string \<rightharpoonup> sync_row"
  wd_clients :: "string \<rightharpoonup> client_row"
  wd_aircraft :: "icao \<rightharpoonup> aircraft_row"

text \<open>A border aircraft is known to two shards; the one that heard it last speaks for it.\<close>

definition newer :: "aircraft_row option \<Rightarrow> aircraft_row \<Rightarrow> bool" where
  "newer prev entry = (case prev of None \<Rightarrow> True | Some p \<Rightarrow> elapsed_seen entry < elapsed_seen p)"

definition merge_aircraft :: "(icao \<rightharpoonup> aircraft_row) \<Rightarrow> (icao \<rightharpoonup> aircraft_row) \<Rightarrow> (icao \<rightharpoonup> aircraft_row)" where
  "merge_aircraft acc a = (\<lambda>i. case a i of None \<Rightarrow> acc i | Some entry \<Rightarrow> if newer (acc i) entry then Some entry else acc i)"

definition merge_answers :: "work_dir \<Rightarrow> reply option \<times> reply option \<Rightarrow> work_dir" where
  "merge_answers w answers =
     (let w = (case fst answers of Some (SyncReport m) \<Rightarrow> w\<lparr>wd_sync := wd_sync w ++ m\<rparr> | _ \<Rightarrow> w)
      in case snd answers of
           Some (StateReport c a) \<Rightarrow> w\<lparr>wd_clients := wd_clients w ++ c, wd_aircraft := merge_aircraft (wd_aircraft w) a\<rparr>
         | _ \<Rightarrow> w)"

definition work_dir_round :: "(reply option \<times> reply option) list \<Rightarrow> work_dir" where
  "work_dir_round answers =
     foldl merge_answers \<lparr>wd_sync = Map.empty, wd_clients = Map.empty, wd_aircraft = Map.empty\<rparr> answers"

record cell_row =
  ce_level :: nat
  lat0 :: real
  lat1 :: real
  lon0 :: real
  lon1 :: real
  ce_shard :: nat
  ce_rx :: nat

definition cell_row_of :: "router \<Rightarrow> nat \<times> int \<times> int \<times> nat \<times> nat \<Rightarrow> cell_row" where
  "cell_row_of r c =
     (let (level, y, x, sh, n) = c; size = cell_size r level
      in \<lparr>ce_level = level, lat0 = of_int y * size, lat1 = (of_int y + 1) * size,
          lon0 = of_int x * size, lon1 = (of_int x + 1) * size, ce_shard = sh, ce_rx = n\<rparr>)"

definition partition_json :: "router \<Rightarrow> cell_row list" where
  "partition_json r = map (cell_row_of r) (partition_dump r)"

subsection \<open>Lemmas\<close>

lemma take_stats_routed: "routed (fst rt) m \<Longrightarrow> routed (fst (take_stats rt ia)) m"
  by (auto simp: take_stats_def routed_rate split: prod.split option.split reply.split)

lemma foldl_take_routed: "routed (fst rt) m \<Longrightarrow> routed (fst (foldl take_stats rt xs)) m"
  by (induction xs arbitrary: rt) (auto simp: take_stats_routed)

lemma take_stats_lengths:
  "length (shards (fst (take_stats rt ia))) = length (shards (fst rt)) \<and>
   length (prev_sync (snd (take_stats rt ia))) = length (prev_sync (snd rt))"
  by (auto simp: take_stats_def store_rate_def split: prod.split option.split reply.split)

text \<open>The observations a shard answers with, and where they go: its rate and its baseline, nothing else.\<close>

definition answered :: "reply option \<Rightarrow> nat option" where
  "answered a = (case a of Some (Counters n obs slv rjc) \<Rightarrow> Some obs | _ \<Rightarrow> None)"

lemma take_stats_at:
  assumes "j < length (shards (fst rt))" "j < length (prev_sync (snd rt))"
  shows "rate (shards (fst (take_stats rt (i, a))) ! j) =
      (case answered a of Some b \<Rightarrow> if i = j then b - prev_sync (snd rt) ! j else rate (shards (fst rt) ! j) | None \<Rightarrow> rate (shards (fst rt) ! j))"
    "prev_sync (snd (take_stats rt (i, a))) ! j =
      (case answered a of Some b \<Rightarrow> if i = j then b else prev_sync (snd rt) ! j | None \<Rightarrow> prev_sync (snd rt) ! j)"
  using assms by (auto simp: take_stats_def answered_def store_rate_def nth_list_update split: prod.split option.split reply.split)

lemma foldl_take_at:
  fixes answers rt
  defines "f \<equiv> \<lambda>n. foldl take_stats rt (zip [0..<n] answers)"
  assumes j: "j < length (shards (fst rt))" "j < length (prev_sync (snd rt))" and n: "n \<le> length answers"
  shows "length (shards (fst (f n))) = length (shards (fst rt)) \<and> length (prev_sync (snd (f n))) = length (prev_sync (snd rt)) \<and>
    rate (shards (fst (f n)) ! j) =
      (case (if j < n then answered (answers ! j) else None) of Some b \<Rightarrow> b - prev_sync (snd rt) ! j | None \<Rightarrow> rate (shards (fst rt) ! j)) \<and>
    prev_sync (snd (f n)) ! j =
      (case (if j < n then answered (answers ! j) else None) of Some b \<Rightarrow> b | None \<Rightarrow> prev_sync (snd rt) ! j)"
  using n
proof (induction n)
  case (Suc n)
  have "zip [0..<Suc n] answers = zip [0..<n] answers @ [(n, answers ! n)]"
    using Suc.prems by (intro nth_equalityI) (auto simp: nth_append less_Suc_eq)
  then have f: "f (Suc n) = take_stats (f n) (n, answers ! n)"
    by (simp add: f_def)
  have IH: "length (shards (fst (f n))) = length (shards (fst rt))" "length (prev_sync (snd (f n))) = length (prev_sync (snd rt))"
      "rate (shards (fst (f n)) ! j) =
        (case (if j < n then answered (answers ! j) else None) of Some b \<Rightarrow> b - prev_sync (snd rt) ! j | None \<Rightarrow> rate (shards (fst rt) ! j))"
      "prev_sync (snd (f n)) ! j =
        (case (if j < n then answered (answers ! j) else None) of Some b \<Rightarrow> b | None \<Rightarrow> prev_sync (snd rt) ! j)"
    using Suc by simp_all
  have "j < length (shards (fst (f n)))" "j < length (prev_sync (snd (f n)))"
    using j IH(1,2) by simp_all
  note at = take_stats_at [OF this, of n "answers ! n"]
  show ?case
    using take_stats_lengths [of "f n" "(n, answers ! n)"] IH(1,2) unfolding f at IH(3,4)
    by (cases "j < n"; cases "j = n"; cases "answered (answers ! n)") simp_all
qed (simp add: f_def)

lemma merge_aircraft_fold:
  "wd_aircraft (foldl merge_answers w answers) =
     foldl merge_aircraft (wd_aircraft w) (List.map_filter (\<lambda>x. case snd x of Some (StateReport c a) \<Rightarrow> Some a | _ \<Rightarrow> None) answers)"
proof (induction answers arbitrary: w)
  case (Cons x xs)
  have "wd_aircraft (merge_answers w x) = (case snd x of Some (StateReport c a) \<Rightarrow> merge_aircraft (wd_aircraft w) a | _ \<Rightarrow> wd_aircraft w)"
    by (auto simp: merge_answers_def Let_def split: option.split reply.split)
  then show ?case
    using Cons.IH by (auto simp: List.map_filter_simps split: option.split reply.split)
qed (simp add: List.map_filter_simps)

definition reports :: "(reply option \<times> reply option) list \<Rightarrow> (icao \<rightharpoonup> aircraft_row) list" where
  "reports answers = List.map_filter (\<lambda>x. case snd x of Some (StateReport c a) \<Rightarrow> Some a | _ \<Rightarrow> None) answers"

lemma merge_aircraft_newest:
  "case foldl merge_aircraft Map.empty rs i of
     None \<Rightarrow> \<forall>a \<in> set rs. a i = None
   | Some e \<Rightarrow> (\<exists>a \<in> set rs. a i = Some e) \<and> (\<forall>a \<in> set rs. \<forall>e'. a i = Some e' \<longrightarrow> elapsed_seen e \<le> elapsed_seen e')"
proof (induction rs rule: rev_induct)
  case (snoc a rs)
  then show ?case
    by (fastforce simp: merge_aircraft_def newer_def split: option.splits)
qed simp

lemma finite_owner: "routed r m \<Longrightarrow> finite (dom (owner r))"
proof (induction rule: routed.induct)
  case (routed_claim r m perm lat lon i r')
  have "\<bar>lat\<bar> \<le> 180"
    using routed_claim.hyps by simp
  with routed_claim show ?case
    by (rule_tac shard_for_cases [OF conjunct1 [OF routed_ok [OF routed_claim.hyps(1)]], of perm lat lon])
      (auto simp: add_receivers_fields claim_cell_fields)
qed (simp_all add: router_new_def release_receiver_def add_receivers_fields store_rate_def)

lemma set_partition_dump:
  assumes "routed r m"
  shows "set (partition_dump r) = partition_rows r"
proof -
  have "partition_rows r \<subseteq> (\<lambda>(l, y, x). (l, y, x, the (owner r (l, y, x)), case rx_count r (l, y, x) of Some c \<Rightarrow> c | None \<Rightarrow> 0)) ` dom (owner r)"
    by (force simp: partition_rows_def)
  then have "finite (partition_rows r)"
    using finite_owner [OF assms] finite_surj by blast
  then show ?thesis
    by (simp add: partition_dump_def)
qed

lemma owner_up_cell: "owner_up r lat lon l = Some i \<Longrightarrow> \<exists>l' \<le> l. owner r (cell_at r l' lat lon) = Some i"
  by (induction l) (auto split: option.splits intro: le_SucI)

lemma cell_in_range:
  fixes x s :: real
  assumes "\<bar>x\<bar> \<le> 180" "1 \<le> s"
  shows "of_int (as_i16 (of_int \<lfloor>x / s\<rfloor>)) * s \<le> x \<and> x < (of_int (as_i16 (of_int \<lfloor>x / s\<rfloor>)) + 1) * s"
proof -
  have "\<bar>x\<bar> / s \<le> 180"
    using assms by (simp add: pos_divide_le_eq order_trans [of _ 180])
  then have "\<bar>x / s\<bar> \<le> 180"
    using assms by simp
  then have "- 180 \<le> x / s" "x / s \<le> 180"
    by linarith+
  then have "- 180 \<le> \<lfloor>x / s\<rfloor>" "\<lfloor>x / s\<rfloor> \<le> 180"
    unfolding le_floor_iff floor_le_iff by simp_all
  then have "as_i16 (of_int \<lfloor>x / s\<rfloor>) = \<lfloor>x / s\<rfloor>"
    by (intro as_i16_id) linarith+
  then show ?thesis
    using assms(2) floor_divide_lower [of s x] floor_divide_upper [of s x] by simp
qed

lemma owned_cell_size:
  assumes "router_ok r" "1 \<le> base_deg r" "owner r (cell_at r l lat lon) = Some i"
  shows "1 \<le> cell_size r l"
proof (cases l)
  case 0
  then show ?thesis
    using assms(2) by (simp add: cell_size_def)
next
  case (Suc k)
  then have "splittable r k"
    using router_okD(6) [OF assms(1), of k lat lon i] router_okD(4) [OF assms(1), of "cell_at r k lat lon"] assms(3) by simp
  then show ?thesis
    by (simp add: Suc splittable_def MIN_CELL_DEG_def)
qed

subsection \<open>Properties\<close>

text \<open>
  A statistics round feeds the load gate and nothing else: it keeps the router's history
  valid, gives every shard that answered the observations it took since the last answer
  (never below zero) as its rate, remembers its count for the next round, and leaves a
  shard that did not answer as it was.
\<close>

theorem stats_round_feeds_gate:
  assumes "routed r m" "length prev = length (shards r)" "length answers = length (shards r)"
  shows "case stats_round r prev answers of (r', t) \<Rightarrow> routed r' m \<and> length (prev_sync t) = length prev \<and>
    list_all (\<lambda>j. case answered (answers ! j) of
        Some obs \<Rightarrow> rate (shards r' ! j) = obs - prev ! j \<and> prev_sync t ! j = obs
      | None \<Rightarrow> rate (shards r' ! j) = rate (shards r ! j) \<and> prev_sync t ! j = prev ! j) [0..<length (shards r)]"
proof -
  obtain r' t where s: "stats_round r prev answers = (r', t)"
    by fastforce
  have f: "foldl take_stats (r, stats_start prev) (zip [0..<length (shards r)] answers) = (r', t)"
    using s assms(3) by (simp add: stats_round_def)
  have "routed r' m"
    using foldl_take_routed [of "(r, stats_start prev)" m] assms(1) f by (metis fst_conv)
  moreover have "shards r \<noteq> []"
    using router_okD(1) [OF conjunct1 [OF routed_ok [OF assms(1)]]] .
  moreover have "length (prev_sync t) = length prev \<and>
      rate (shards r' ! j) = (case answered (answers ! j) of Some obs \<Rightarrow> obs - prev ! j | None \<Rightarrow> rate (shards r ! j)) \<and>
      prev_sync t ! j = (case answered (answers ! j) of Some obs \<Rightarrow> obs | None \<Rightarrow> prev ! j)" if "j < length (shards r)" for j
    using foldl_take_at [of j "(r, stats_start prev)" "length (shards r)" answers] assms(2,3) that f by (simp add: stats_start_def split: option.split)
  ultimately show ?thesis
    by (auto simp: s list_all_iff split: option.split)
qed

theorem stats_round_feeds_gate_witness:
  "case stats_round (router_new (replicate 2 \<lparr>receivers = 0, rate = 0\<rparr>) 5 64) [10, 20] [Some (Counters 1 15 0 0), None] of
     (r', t) \<Rightarrow> rate (shards r' ! 0) = 5 \<and> rate (shards r' ! 1) = 0 \<and> prev_sync t ! 1 = 20"
proof -
  have "routed (router_new (replicate 2 \<lparr>receivers = 0, rate = 0\<rparr>) 5 64) {#}"
    by (rule routed_new) simp_all
  from stats_round_feeds_gate [OF this, of "[10, 20]" "[Some (Counters 1 15 0 0), None]"] show ?thesis
    by (auto simp: router_new_def list_all_iff numeral_2_eq_2 upt_rec case_prod_beta answered_def)
qed

text \<open>
  In the merged \<open>aircraft.json\<close> the shard that heard an aircraft last speaks for it: an
  aircraft is listed exactly when some shard reports it, and its entry is one of those
  reported, with the least \<open>elapsed_seen\<close> of them all.
\<close>

theorem work_dir_newest:
  "case wd_aircraft (work_dir_round answers) i of
     None \<Rightarrow> list_all (\<lambda>a. a i = None) (reports answers)
   | Some e \<Rightarrow> list_ex (\<lambda>a. a i = Some e) (reports answers) \<and>
       list_all (\<lambda>a. case a i of None \<Rightarrow> True | Some e' \<Rightarrow> elapsed_seen e \<le> elapsed_seen e') (reports answers)"
  using merge_aircraft_newest [of "reports answers" i]
  by (auto simp: work_dir_round_def merge_aircraft_fold list_all_iff list_ex_iff reports_def [symmetric] split: option.splits)

text \<open>
  \<open>partition.json\<close> covers the partition: a point of the planet that the router gives to a
  shard lies in one of the exported cells of that shard, for base cells of a degree or more.
\<close>

theorem partition_json_covers:
  assumes "routed r m" "1 \<le> base_deg r" "\<bar>lat\<bar> \<le> 90" "\<bar>lon\<bar> \<le> 180" "owner_of_point r lat lon = Some (Some i)"
  shows "list_ex (\<lambda>c. ce_shard c = i \<and> lat0 c \<le> lat \<and> lat < lat1 c \<and> lon0 c \<le> lon \<and> lon < lon1 c) (partition_json r)"
proof -
  note ok = conjunct1 [OF routed_ok [OF assms(1)]]
  obtain l where l: "owner r (cell_at r l lat lon) = Some i"
    using assms(5) by (auto simp: owner_of_point_def owner_at_def bind_eq_Some_conv dest!: owner_up_cell)
  define y x where "y = as_i16 (of_int \<lfloor>lat / cell_size r l\<rfloor>)" and "x = as_i16 (of_int \<lfloor>lon / cell_size r l\<rfloor>)"
  have key: "cell_at r l lat lon = (l, y, x)"
    by (simp add: cell_at_def Let_def y_def x_def)
  define n where "n = (case rx_count r (l, y, x) of Some c \<Rightarrow> c | None \<Rightarrow> 0)"
  have "(l, y, x, i, n) \<in> set (partition_dump r)"
    using l by (simp add: set_partition_dump [OF assms(1)] partition_rows_def key n_def)
  then have "cell_row_of r (l, y, x, i, n) \<in> set (partition_json r)"
    by (simp add: partition_json_def)
  moreover have "of_int y * cell_size r l \<le> lat \<and> lat < (of_int y + 1) * cell_size r l"
      "of_int x * cell_size r l \<le> lon \<and> lon < (of_int x + 1) * cell_size r l"
    unfolding y_def x_def using cell_in_range owned_cell_size [OF ok assms(2) l] assms(3,4) by simp_all
  ultimately show ?thesis
    unfolding list_ex_iff by (intro bexI [of _ "cell_row_of r (l, y, x, i, n)"]) (simp_all add: cell_row_of_def Let_def)
qed

theorem partition_json_covers_witness:
  "\<exists>i r'. shard_for rev (router_new (replicate 2 \<lparr>receivers = 0, rate = 0\<rparr>) 5 64) 47 (- 1) = Some (i, r') \<and>
     list_ex (\<lambda>c. ce_shard c = i \<and> lat0 c \<le> 47 \<and> 47 < lat1 c \<and> lon0 c \<le> - 1 \<and> - 1 < lon1 c) (partition_json r')"
proof -
  let ?r = "router_new (replicate 2 \<lparr>receivers = 0, rate = 0\<rparr>) 5 64"
  have r: "routed ?r {#}"
    by (rule routed_new) simp_all
  note ok = conjunct1 [OF routed_ok [OF r]]
  obtain i r' where s: "shard_for rev ?r 47 (- 1) = Some (i, r')"
    using shard_for_returns [OF ok iterates_rev, of 47 "- 1"] by auto
  have "routed r' {#i#}"
    by (rule routed_claim [OF r iterates_rev _ _ _ s]) simp_all
  moreover have "base_deg r' = 5"
    using s by (rule_tac shard_for_cases [OF ok iterates_rev, of 47 "- 1"])
      (auto simp: add_receivers_fields claim_cell_def Let_def router_new_def)
  ultimately show ?thesis
    using partition_json_covers [of r' "{#i#}" 47 "- 1" i] s shard_for_ok(4) [OF ok iterates_rev _ _ s] by (auto simp: owner_of_point_def)
qed

end
