(* ===== verification/Server.thy ===== *)
theory Server
  imports Client Workdir
begin

text \<open>
  The whole process of \<^verbatim>\<open>crates/mlatd/src/main.rs\<close>: connections, router and shards, as a
  relation of the worlds it can reach. A shard has its state and its queue of messages; a
  connection is in its handshake, or waits for its slot (\<open>Adding\<close>), or was refused, or runs
  under a handle. Tasks interleave in any order, and each step of the relation is one
  uninterrupted piece of one task. A message that is answered by a slot carries the uid of
  the connection that waits for it. A connection may end at any point of its message loop:
  the stream ends, a line is too long, a frame does not decode, it is idle or it was evicted.
\<close>

subsection \<open>Settings\<close>

text \<open>The shard count and the listening address, from the options and the cores available.\<close>

definition n_shards_of :: "nat \<Rightarrow> nat option \<Rightarrow> nat" where
  "n_shards_of arg cores = (if arg = 0 then (case cores of Some n \<Rightarrow> max (n - 2) 1 | None \<Rightarrow> 1) else arg)"

definition listen_addr :: "string option \<Rightarrow> string \<Rightarrow> string" where
  "listen_addr client_listen listen =
     (case client_listen of Some s \<Rightarrow> if CHR '':'' \<in> set s then s else ''0.0.0.0:'' @ s | None \<Rightarrow> listen)"

lemma n_shards_pos: "n_shards_of arg cores \<noteq> 0"
  by (auto simp: n_shards_of_def max_def split: option.split)

subsection \<open>The world\<close>

datatype phase =
    Handshaking
  | Adding nat
  | Refused nat
  | Running nat rx_ref

record conn =
  c_phase :: phase
  c_traffic :: traffic
  c_out :: "string list"

record world =
  w_router :: router
  w_state :: "nat \<Rightarrow> state"
  w_queue :: "nat \<Rightarrow> (nat option \<times> shard_msg) list"
  w_conns :: "nat \<rightharpoonup> conn"
  w_next :: nat

definition world_new :: "router \<Rightarrow> (nat \<Rightarrow> state) \<Rightarrow> world" where
  "world_new r st = \<lparr>w_router = r, w_state = st, w_queue = (\<lambda>_. []), w_conns = Map.empty, w_next = 0\<rparr>"

definition enqueue :: "nat \<Rightarrow> (nat option \<times> shard_msg) list \<Rightarrow> world \<Rightarrow> world" where
  "enqueue k ms w = w\<lparr>w_queue := (w_queue w)(k := w_queue w k @ ms)\<rparr>"

definition set_conn :: "nat \<Rightarrow> conn option \<Rightarrow> world \<Rightarrow> world" where
  "set_conn u c w = w\<lparr>w_conns := (w_conns w)(u := c)\<rparr>"

definition set_state :: "nat \<Rightarrow> state \<Rightarrow> world \<Rightarrow> world" where
  "set_state k s w = w\<lparr>w_state := (w_state w)(k := s)\<rparr>"

text \<open>The answer of \<open>AddReceiver\<close>, as the waiting connection takes it.\<close>

definition deliver :: "nat option \<Rightarrow> nat \<Rightarrow> reply \<Rightarrow> world \<Rightarrow> world" where
  "deliver from k rep w =
     (case (from, rep) of
        (Some u, Added res) \<Rightarrow>
          (case w_conns w u of
             Some c \<Rightarrow> set_conn u (Some (c\<lparr>c_phase := (case res of Some r \<Rightarrow> Running k r | None \<Rightarrow> Refused k)\<rparr>)) w
           | None \<Rightarrow> w)
      | _ \<Rightarrow> w)"

text \<open>\<open>release\<close>: the slot, if one was given, and the router's count.\<close>

definition release :: "nat \<Rightarrow> rx_ref option \<Rightarrow> world \<Rightarrow> world" where
  "release k rx w =
     (let w = (case rx of Some r \<Rightarrow> enqueue k [(None, RemoveReceiver r)] w | None \<Rightarrow> w)
      in w\<lparr>w_router := release_receiver (w_router w) k\<rparr>)"

inductive serves :: "'j json_api \<Rightarrow> (string \<Rightarrow> bytes option) \<Rightarrow> (string set \<Rightarrow> string list) \<Rightarrow> real \<Rightarrow> world \<Rightarrow> bool"
  for J hx ord window where
  start: "base < 2 ^ 32 \<Longrightarrow>
    serves J hx ord window (world_new (router_new (replicate (n_shards_of arg cores) \<lparr>receivers = 0, rate = 0\<rparr>) base shcap)
      (\<lambda>k. set_output (state_new k scale adsb flt epoch t0)))"
| connect: "serves J hx ord window w \<Longrightarrow>
    serves J hx ord window ((set_conn (w_next w) (Some \<lparr>c_phase = Handshaking, c_traffic = traffic_new c, c_out = []\<rparr>) w)\<lparr>w_next := w_next w + 1\<rparr>)"
| give_up: "serves J hx ord window w \<Longrightarrow> w_conns w u = Some c \<Longrightarrow> c_phase c = Handshaking \<Longrightarrow>
    serves J hx ord window (set_conn u None w)"
| claim: "serves J hx ord window w \<Longrightarrow> w_conns w u = Some c \<Longrightarrow> c_phase c = Handshaking \<Longrightarrow>
    cfg_uid cfg = u \<Longrightarrow> check_handshake J cfg peer now line = Inr a \<Longrightarrow> iterates perm \<Longrightarrow> card (dom (w_conns w)) < 2 ^ 64 - 1 \<Longrightarrow>
    shard_for perm (w_router w) (lat_deg (geo (acc_info a))) (lon_deg (geo (acc_info a))) = Some (i, r') \<Longrightarrow>
    serves J hx ord window (enqueue i [(Some u, AddReceiver (acc_info a))] (set_conn u (Some (c\<lparr>c_phase := Adding i\<rparr>)) (w\<lparr>w_router := r'\<rparr>)))"
| serve: "serves J hx ord window w \<Longrightarrow> w_queue w k = (from, m) # q \<Longrightarrow> dispatch hx (w_state w k) now m = (rep, s') \<Longrightarrow>
    serves J hx ord window (deliver from k rep (set_state k s' (w\<lparr>w_queue := (w_queue w)(k := q)\<rparr>)))"
| refuse: "serves J hx ord window w \<Longrightarrow> w_conns w u = Some c \<Longrightarrow> c_phase c = Refused k \<Longrightarrow>
    serves J hx ord window (set_conn u None (release k None w))"
| read: "serves J hx ord window w \<Longrightarrow> w_conns w u = Some c \<Longrightarrow> c_phase c = Running k r \<Longrightarrow>
    process_lines J r (c_traffic c) now ls = (ms, outs, t') \<Longrightarrow>
    serves J hx ord window (enqueue k (map (Pair None) ms)
      (set_conn u (Some (c\<lparr>c_traffic := t', c_out := c_out c @ outs\<rparr>)) (set_state k (note_read (w_state w k) r now) w)))"
| finish: "serves J hx ord window w \<Longrightarrow> w_conns w u = Some c \<Longrightarrow> c_phase c = Running k r \<Longrightarrow>
    serves J hx ord window (set_conn u None (release k (Some r) w))"
| poll: "serves J hx ord window w \<Longrightarrow> m \<in> {Stats, SyncJson, StateJson} \<union> range ReceiverStats \<Longrightarrow>
    serves J hx ord window (enqueue k [(None, m)] w)"
| tick: "serves J hx ord window w \<Longrightarrow> serves J hx ord window (set_state k (shard_step hx ord window (w_state w k) (Tick c)) w)"
| gauge: "serves J hx ord window w \<Longrightarrow> serves J hx ord window (w\<lparr>w_router := store_rate (w_router w) k obs prev\<rparr>)"

subsection \<open>Who holds what\<close>

fun shard_of :: "phase \<Rightarrow> nat option" where
  "shard_of Handshaking = None"
| "shard_of (Adding k) = Some k"
| "shard_of (Refused k) = Some k"
| "shard_of (Running k r) = Some k"

definition phase_of :: "world \<Rightarrow> nat \<Rightarrow> phase option" where
  "phase_of w u = map_option c_phase (w_conns w u)"

text \<open>The shard each connection is counted at.\<close>

definition holds :: "(nat \<rightharpoonup> conn) \<Rightarrow> nat \<rightharpoonup> nat" where
  "holds cs u = Option.bind (cs u) (\<lambda>c. shard_of (c_phase c))"

definition mset_of :: "(nat \<rightharpoonup> 'a) \<Rightarrow> 'a multiset" where
  "mset_of f = image_mset (\<lambda>u. the (f u)) (mset_set (dom f))"

lemma mset_of_add: "finite (dom f) \<Longrightarrow> u \<notin> dom f \<Longrightarrow> mset_of (f(u \<mapsto> k)) = add_mset k (mset_of f)"
  by (auto simp: mset_of_def intro!: image_mset_cong split: if_splits)

lemma mset_of_remove: "finite (dom f) \<Longrightarrow> f u = Some k \<Longrightarrow> mset_of (f(u := None)) = mset_of f - {#k#}"
proof -
  assume f: "finite (dom f)" "f u = Some k"
  then have "mset_of (f(u := None, u \<mapsto> k)) = add_mset k (mset_of (f(u := None)))"
    by (intro mset_of_add) auto
  moreover have "f(u := None, u \<mapsto> k) = f"
    using f(2) by auto
  ultimately show ?thesis
    by simp
qed

lemma mset_of_mem: "finite (dom f) \<Longrightarrow> f u = Some k \<Longrightarrow> k \<in># mset_of f"
  by (force simp: mset_of_def)

lemma size_mset_of: "size (mset_of f) = card (dom f)"
  by (simp add: mset_of_def)

lemma count_mset_of: "finite (dom f) \<Longrightarrow> count (mset_of f) k = card {u. f u = Some k}"
proof -
  assume "finite (dom f)"
  moreover have "dom f \<inter> {x. k = the (f x)} = {u. f u = Some k}"
    by auto
  moreover have "(\<Sum>u | f u = Some k. count (mset_set (dom f)) u) = (\<Sum>u | f u = Some k. 1)"
    using \<open>finite (dom f)\<close> by (intro sum.cong) (auto simp: count_mset_set domI)
  ultimately show ?thesis
    by (simp add: mset_of_def count_image_mset' sum.If_cases Collect_conj_eq)
qed

lemma holds_upd: "holds (cs(u := c)) = (holds cs)(u := Option.bind c (\<lambda>c. shard_of (c_phase c)))"
  by (auto simp: holds_def)

lemma dom_holds: "dom (holds cs) \<subseteq> dom cs"
  by (auto simp: holds_def split: bind_splits)

subsection \<open>Steps of the parts\<close>

lemma check_handshake_position:
  assumes "check_handshake J cfg peer now line = Inr a"
  shows "\<bar>lat_deg (geo (acc_info a))\<bar> \<le> 90" "\<bar>lon_deg (geo (acc_info a))\<bar> \<le> 180"
  using assms by (auto simp: check_handshake_def plausible_position_def Let_def abs_le_iff split: if_splits option.splits)

lemma live_tame: "tame s s' \<Longrightarrow> live s' r \<longleftrightarrow> live s r"
  by (simp add: live_slot_of slot_of_tame)

lemma live_remove:
  assumes ok: "state_ok s" and l: "live (remove_receiver s r0) r"
  shows "live s r \<and> r0 \<noteq> r"
proof -
  have "rr_idx r < length (st_receivers s)"
    using l by (simp add: live_def remove_keeps_others)
  then obtain g a where "slot_of s (rr_idx r) = Some (g, a)"
    by (simp add: slot_of_def)
  then show ?thesis
    using l slot_remove [OF ok, of "rr_idx r" g a r0] by (auto simp: live_slot_of)
qed

text \<open>A message brings a handle to life only by adding a receiver, and answers with it.\<close>

lemma live_dispatch:
  assumes ok: "state_ok s" and d: "dispatch hx s now m = (rep, s')" and l: "live s' r"
  shows "live s r \<and> m \<noteq> RemoveReceiver r \<or> (\<exists>info. m = AddReceiver info) \<and> rep = Added (Some r)"
proof -
  have s': "s' = snd (dispatch hx s now m)"
    using d by simp
  from dispatch_tame [OF ok, of m hx now] show ?thesis
  proof (elim disjE exE)
    fix info assume m: "m = AddReceiver info"
    obtain res where a: "add_receiver s now info = (res, s')" "rep = Added res"
      using d by (auto simp: m dispatch_def split: prod.splits)
    show ?thesis
    proof (rule add_receiver_cases [OF ok a(1)])
      assume "s' = s"
      then show ?thesis
        using l m by simp
    next
      fix i s1 info'
      assume res: "res = Some (slot_ref s' i)" and s1: "s1 = s \<or> (\<exists>j. live s (slot_ref s j) \<and> s1 = remove_receiver s (slot_ref s j))"
        and upd: "(i < length (st_receivers s1) \<and> \<not> alive s1 ! i \<and> gens s' = (gens s1)[i := gens s1 ! i + 1] \<and> alive s' = (alive s1)[i := True]
            \<and> length (st_receivers s') = length (st_receivers s1))
         \<or> (i = length (st_receivers s1) \<and> gens s' = gens s1 @ [0] \<and> alive s' = alive s1 @ [True] \<and> length (st_receivers s') = Suc (length (st_receivers s1)))"
      have ok1: "slots_ok s1"
        using s1 ok state_ok_remove [OF ok] by (auto simp: state_ok_def)
      have "live s1 r \<Longrightarrow> live s r"
        using s1 live_remove [OF ok] by auto
      moreover have "live s1 r \<or> r = slot_ref s' i"
        using l upd slots_okD(4,5) [OF ok1]
        by (cases r) (auto simp: live_def slot_ref_def nth_list_update nth_append less_Suc_eq split: if_splits)
      ultimately show ?thesis
        using m res a(2) by auto
    qed
  next
    fix r0 assume "m = RemoveReceiver r0"
    then show ?thesis
      using live_remove [OF ok, of r0 r] l s' by auto
  next
    assume t: "tame s (snd (dispatch hx s now m))"
    then have "live s r"
      using l live_tame s' by blast
    moreover have "m \<noteq> RemoveReceiver r"
      using live_remove [OF ok, of r r] l s' by auto
    ultimately show ?thesis
      by simp
  qed
qed

text \<open>The uid of the receiver a handle names: it changes hands only with the slot.\<close>

definition owner_uid :: "state \<Rightarrow> rx_ref \<Rightarrow> nat" where
  "owner_uid s r = uid (st_receivers s ! rr_idx r)"

lemma check_handshake_uid: "check_handshake J cfg peer now line = Inr a \<Longrightarrow> uid (acc_info a) = cfg_uid cfg"
  by (auto simp: check_handshake_def Let_def split: if_splits option.splits)

lemma owner_uid_add:
  assumes a: "add_receiver s now info = (res, s')" and l: "live s' r"
  shows "owner_uid s' r = (if res = Some r then uid info else owner_uid s r)"
proof (cases "claim_user s now info")
  case None
  then show ?thesis
    using a by (simp add: add_receiver_def)
next
  case (Some c)
  obtain info' s1 where c: "claim_user s now info = Some (info', s1)"
    using Some by (cases c) auto
  obtain i s2 where o: "occupy s1 info' = (i, s2)"
    by fastforce
  have "st_receivers s1 = st_receivers s" and u: "uid info' = uid info"
    using c by (auto simp: claim_user_def remove_keeps_others Let_def split: option.splits if_splits)
  then have rx: "st_receivers s' = (if free_slots s1 = [] then st_receivers s @ [info'] else (st_receivers s)[i := info'])"
      "free_slots s1 = [] \<longrightarrow> i = length (st_receivers s)" and res: "res = Some (slot_ref s' i)"
    using a c o by (auto simp: add_receiver_def occupy_def elect_reference_def Let_def split: option.splits if_splits)
  show ?thesis
  proof (cases "rr_idx r = i")
    case True
    then have "r = slot_ref s' i"
      using l by (cases r) (simp add: live_def slot_ref_def)
    then show ?thesis
      using True l rx res u by (auto simp: owner_uid_def live_def nth_append split: if_splits)
  next
    case False
    then show ?thesis
      using l rx res by (auto simp: owner_uid_def live_def nth_append slot_ref_def split: if_splits)
  qed
qed

lemma owner_uid_dispatch:
  assumes ok: "state_ok s" and d: "dispatch hx s now m = (rep, s')" and l: "live s' r"
  shows "owner_uid s' r = (case (m, rep) of (AddReceiver info, Added (Some r')) \<Rightarrow> if r' = r then uid info else owner_uid s r | _ \<Rightarrow> owner_uid s r)"
proof (cases "\<exists>info. m = AddReceiver info")
  case True
  then obtain info res where m: "m = AddReceiver info" and "add_receiver s now info = (res, s')" "rep = Added res"
    using d by (auto simp: dispatch_def split: prod.splits)
  then show ?thesis
    using owner_uid_add [OF _ l] by (auto split: option.split)
next
  case False
  have "s' = snd (dispatch hx s now m)"
    using d by simp
  then have "st_receivers s' = st_receivers s"
    using dispatch_tame [OF ok, of m hx now] False by (auto simp: remove_keeps_others tame_def same_slots_def)
  then show ?thesis
    using False by (simp add: owner_uid_def split: shard_msg.split)
qed

lemma owner_uid_tick: "state_ok s \<Longrightarrow> owner_uid (shard_step hx ord window s (Tick c)) r = owner_uid s r"
  using tame_sweep by (auto simp: shard_step_def owner_uid_def tame_def same_slots_def)

lemma owner_uid_note_read: "owner_uid (note_read s r0 t) r = owner_uid s r"
  by (auto simp: owner_uid_def note_read_def live_def nth_list_update)

lemma state_ok_dispatch: "state_ok s \<Longrightarrow> dispatch hx s now m = (rep, s') \<Longrightarrow> state_ok s'"
  using sh.step_keeps [of s hx undefined undefined "Msg now m"] by (simp add: shard_step_def)

lemma live_tick: "state_ok s \<Longrightarrow> live (shard_step hx ord window s (Tick c)) r \<longleftrightarrow> live s r"
  by (simp add: shard_step_def live_tame [OF tame_sweep])

lemma live_note_read: "live (note_read s r0 t) r \<longleftrightarrow> live s r"
  by (simp add: live_slot_of note_read_slots)

subsection \<open>Invariants\<close>

lemmas world_defs = enqueue_def set_conn_def set_state_def release_def

lemma world_updates [simp]:
  "w_router (enqueue k ms w) = w_router w" "w_state (enqueue k ms w) = w_state w" "w_conns (enqueue k ms w) = w_conns w"
  "w_next (enqueue k ms w) = w_next w" "w_queue (enqueue k ms w) = (w_queue w)(k := w_queue w k @ ms)"
  "w_router (set_conn u c w) = w_router w" "w_state (set_conn u c w) = w_state w"
  "dom (w_conns (set_conn u c w)) = (case c of None \<Rightarrow> dom (w_conns w) - {u} | Some _ \<Rightarrow> insert u (dom (w_conns w)))"
  "w_next (set_conn u c w) = w_next w" "w_queue (set_conn u c w) = w_queue w"
  "w_router (set_state k s w) = w_router w" "w_state (set_state k s w) = (w_state w)(k := s)" "w_conns (set_state k s w) = w_conns w"
  "w_next (set_state k s w) = w_next w" "w_queue (set_state k s w) = w_queue w"
  "w_router (release k rx w) = release_receiver (w_router w) k" "w_state (release k rx w) = w_state w" "w_conns (release k rx w) = w_conns w"
  "w_next (release k rx w) = w_next w"
  "w_queue (release k rx w) = (case rx of Some r \<Rightarrow> (w_queue w)(k := w_queue w k @ [(None, RemoveReceiver r)]) | None \<Rightarrow> w_queue w)"
  by (auto simp: world_defs split: option.split)

lemma conns_set_conn: "w_conns (set_conn u c w) = (w_conns w)(u := c)"
  by (simp add: set_conn_def)

lemma deliver_fields [simp]:
  "w_router (deliver from k rep w) = w_router w" "w_state (deliver from k rep w) = w_state w" "w_next (deliver from k rep w) = w_next w"
  "w_queue (deliver from k rep w) = w_queue w" "dom (w_conns (deliver from k rep w)) = dom (w_conns w)"
  by (auto simp: deliver_def domI split: option.splits reply.splits)

text \<open>The messages with a waiting sender: each is that of a connection waiting at this shard, and no two share one.\<close>

definition waiting_ok :: "world \<Rightarrow> bool" where
  "waiting_ok w \<longleftrightarrow> (\<forall>k. distinct (List.map_filter fst (w_queue w k)) \<and> (\<forall>info. (None, AddReceiver info) \<notin> set (w_queue w k)) \<and>
     (\<forall>u m. (Some u, m) \<in> set (w_queue w k) \<longrightarrow> (\<exists>info. m = AddReceiver info \<and> uid info = u) \<and> phase_of w u = Some (Adding k)))"

lemma set_map_filter_fst: "u \<in> set (List.map_filter fst q) \<longleftrightarrow> (\<exists>m. (Some u, m) \<in> set q)"
  by (force simp: List.map_filter_def)

lemma map_filter_fst_append: "List.map_filter fst (q @ q') = List.map_filter fst q @ List.map_filter fst q'"
  by (simp add: List.map_filter_def)

lemma map_filter_fst_None [simp]: "List.map_filter fst (map (Pair None) ms) = []"
  by (induction ms) (simp_all add: List.map_filter_simps)

lemma phase_deliver:
  "phase_of (deliver from k rep w) u =
     (if from = Some u \<and> phase_of w u \<noteq> None
      then (case rep of Added (Some r) \<Rightarrow> Some (Running k r) | Added None \<Rightarrow> Some (Refused k) | _ \<Rightarrow> phase_of w u) else phase_of w u)"
  by (auto simp: deliver_def phase_of_def conns_set_conn split: option.splits reply.splits)

lemma phase_updates [simp]:
  "phase_of (set_conn u c w) v = (if v = u then map_option c_phase c else phase_of w v)"
  "phase_of (enqueue k ms w) = phase_of w" "phase_of (set_state k s w) = phase_of w" "phase_of (release k rx w) = phase_of w"
  "phase_of (w\<lparr>w_router := r\<rparr>) = phase_of w" "phase_of (w\<lparr>w_next := n\<rparr>) = phase_of w" "phase_of (w\<lparr>w_queue := q\<rparr>) = phase_of w"
  by (auto simp: phase_of_def fun_eq_iff conns_set_conn world_defs split: option.split)

lemma serves_fresh: "serves J hx ord window w \<Longrightarrow> finite (dom (w_conns w)) \<and> (\<forall>u \<in> dom (w_conns w). u < w_next w) \<and> (\<forall>k. state_ok (w_state w k))"
proof (induction rule: serves.induct)
  case (start base arg cores shcap scale adsb flt epoch t0)
  then show ?case
    by (simp add: world_new_def set_output_ok state_new_ok)
next
  case (serve w k "from" m q now rep s')
  then show ?case
    using state_ok_dispatch [OF _ serve.hyps(3)] by auto
next
  case (read w u c k r now ls ms outs t')
  then show ?case
    by (auto simp: note_read_ok)
next
  case (tick w k now)
  then show ?case
    using sh.step_keeps by auto
qed (auto intro: less_SucI)

lemma serves_traffic: "serves J hx ord window w \<Longrightarrow> w_conns w u = Some c \<Longrightarrow> \<exists>n. traffic_ok n (c_traffic c)"
proof (induction arbitrary: u c rule: serves.induct)
  case (connect w n)
  then show ?case
    using traffic_new_ok [of n] by (auto simp: conns_set_conn split: if_splits)
next
  case (serve w k "from" m q now rep s')
  then show ?case
    by (auto simp: deliver_def conns_set_conn split: option.splits reply.splits if_splits)
next
  case (read w v d k r now ls ms outs t')
  obtain n where "traffic_ok n (c_traffic d)"
    using read.IH read.hyps(2) by blast
  from process_lines_asks [OF this read.hyps(4)] read show ?case
    by (auto simp: conns_set_conn split: if_splits)
qed (auto simp: conns_set_conn world_new_def split: if_splits)

text \<open>What a connection forwards is never an admission.\<close>

lemma read_forwards:
  assumes "serves J hx ord window w" "w_conns w u = Some c" "process_lines J r (c_traffic c) now ls = (ms, outs, t')"
  shows "AddReceiver info \<notin> set ms"
proof -
  obtain n where "traffic_ok n (c_traffic c)"
    using serves_traffic [OF assms(1,2)] by blast
  then have "\<exists>l. asks_for J r now l (AddReceiver info)" if "AddReceiver info \<in> set ms"
    using process_lines_forward [OF _ assms(3) that] by blast
  moreover have "\<not> asks_for J r now l (AddReceiver info)" for l
    by (simp add: asks_for_def split: option.split)
  ultimately show ?thesis
    by blast
qed

lemma not_waiting:
  assumes "waiting_ok w" "w_conns w u = Some c" "\<And>k. c_phase c \<noteq> Adding k"
  shows "(Some u, m) \<notin> set (w_queue w k)"
  using assms by (fastforce simp: waiting_ok_def phase_of_def)

lemma serves_waiting: "serves J hx ord window w \<Longrightarrow> waiting_ok w"
proof (induction rule: serves.induct)
  case (start base arg cores shcap scale adsb flt epoch t0)
  then show ?case
    by (simp add: waiting_ok_def world_new_def List.map_filter_simps)
next
  case (connect w c)
  have "phase_of w (w_next w) = None"
    using serves_fresh [OF connect.hyps] by (auto simp: phase_of_def)
  then show ?case
    using connect.IH by (auto simp: waiting_ok_def)
next
  case (claim w u c cfg peer now line a perm i r')
  have "phase_of w u = Some Handshaking"
    using claim.hyps by (simp add: phase_of_def)
  then have "u \<notin> set (List.map_filter fst (w_queue w k))" for k
    using claim.IH by (auto simp: waiting_ok_def set_map_filter_fst)
  then show ?case
    using claim.IH check_handshake_uid [OF claim.hyps(5)] claim.hyps(4)
    by (auto simp: waiting_ok_def map_filter_fst_append List.map_filter_simps set_map_filter_fst)
next
  case (serve w k "from" m q now rep s')
  have new: "from \<noteq> Some u" if "(Some u, m') \<in> set q \<or> (Some u, m') \<in> set (w_queue w k')" "k' \<noteq> k \<or> (Some u, m') \<in> set q" for u m' k'
  proof
    assume f: "from = Some u"
    have d: "distinct (List.map_filter fst (w_queue w k))" and p: "\<And>k m. (Some u, m) \<in> set (w_queue w k) \<Longrightarrow> phase_of w u = Some (Adding k)"
      using serve.IH unfolding waiting_ok_def by blast+
    have "(Some u, m') \<notin> set q"
      using d set_map_filter_fst [of u q] by (auto simp: serve.hyps(2) f List.map_filter_simps)
    moreover have "phase_of w u = Some (Adding k)"
      by (rule p [of m]) (simp add: serve.hyps(2) f)
    ultimately show False
      using that p [of m' k'] by auto
  qed
  show ?case
    unfolding waiting_ok_def
  proof (intro allI conjI impI)
    fix k'
    show "(None, AddReceiver info) \<notin> set (w_queue (deliver from k rep (set_state k s' (w\<lparr>w_queue := (w_queue w)(k := q)\<rparr>))) k')" for info
      using serve.IH serve.hyps(2) by (auto simp: waiting_ok_def dest: spec [of _ k])
    show "distinct (List.map_filter fst (w_queue (deliver from k rep (set_state k s' (w\<lparr>w_queue := (w_queue w)(k := q)\<rparr>))) k'))"
      using serve.IH serve.hyps(2) by (cases "from") (auto simp: waiting_ok_def List.map_filter_simps dest: spec [of _ k])
    fix u m' assume "(Some u, m') \<in> set (w_queue (deliver from k rep (set_state k s' (w\<lparr>w_queue := (w_queue w)(k := q)\<rparr>))) k')"
    then have "(Some u, m') \<in> set (w_queue w k') \<and> from \<noteq> Some u"
      using new serve.hyps(2) by (auto split: if_splits)
    then show "\<exists>info. m' = AddReceiver info \<and> uid info = u" "phase_of (deliver from k rep (set_state k s' (w\<lparr>w_queue := (w_queue w)(k := q)\<rparr>))) u = Some (Adding k')"
      using serve.IH by (auto simp: waiting_ok_def phase_deliver)
  qed
next
  case (read w u c k r now ls ms outs t')
  then show ?case
    using not_waiting [OF read.IH read.hyps(2)] read_forwards [OF read.hyps(1,2,4)] by (auto simp: waiting_ok_def map_filter_fst_append)
next
  case (finish w u c k r)
  then show ?case
    using not_waiting [OF finish.IH finish.hyps(2)] by (auto simp: waiting_ok_def map_filter_fst_append List.map_filter_simps)
next
  case (give_up w u c)
  then show ?case
    using not_waiting [OF give_up.IH give_up.hyps(2)] by (auto simp: waiting_ok_def)
next
  case (refuse w u c k)
  then show ?case
    using not_waiting [OF refuse.IH refuse.hyps(2)] by (auto simp: waiting_ok_def)
next
  case (poll w m k)
  then show ?case
    by (auto simp: waiting_ok_def map_filter_fst_append List.map_filter_simps)
qed (auto simp: waiting_ok_def)

lemma holds_same: "holds cs u = Option.bind c (\<lambda>c. shard_of (c_phase c)) \<Longrightarrow> holds (cs(u := c)) = holds cs"
  by (simp add: holds_upd fun_upd_idem)

lemma holds_deliver:
  assumes "\<And>u. from = Some u \<Longrightarrow> phase_of w u = Some (Adding k)"
  shows "holds (w_conns (deliver from k rep w)) = holds (w_conns w)"
proof -
  have "holds (w_conns (set_conn u (Some (c\<lparr>c_phase := p\<rparr>)) w)) = holds (w_conns w)"
    if "from = Some u" "w_conns w u = Some c" "shard_of p = Some k" for u c p
    unfolding conns_set_conn using assms [OF that(1)] that(2,3) by (intro holds_same) (auto simp: holds_def phase_of_def)
  then show ?thesis
    by (auto simp: deliver_def split: option.splits reply.splits)
qed

lemma finite_holds: "finite (dom cs) \<Longrightarrow> finite (dom (holds cs))"
  using dom_holds finite_subset by blast

lemma waiting_okD:
  assumes "waiting_ok w"
  shows "(None, AddReceiver info) \<notin> set (w_queue w k)" "(Some u, m) \<in> set (w_queue w k) \<Longrightarrow> phase_of w u = Some (Adding k)"
  using assms unfolding waiting_ok_def by blast+

lemma waiting_adds: "waiting_ok w \<Longrightarrow> w_queue w k = (from, AddReceiver info) # q \<Longrightarrow> \<exists>u. from = Some u"
  using waiting_okD(1) [of w info k] by (cases "from") auto

lemma waiting_uid:
  assumes "waiting_ok w" "w_queue w k = (Some u, AddReceiver info) # q"
  shows "uid info = u"
proof -
  have "(Some u, AddReceiver info) \<in> set (w_queue w k)"
    using assms(2) by simp
  then have "\<exists>info'. AddReceiver info = AddReceiver info' \<and> uid info' = u"
    using assms(1) unfolding waiting_ok_def by blast
  then show ?thesis
    by simp
qed

lemma waiting_head: "waiting_ok w \<Longrightarrow> w_queue w k = (Some u, m) # q \<Longrightarrow> phase_of w u = Some (Adding k)"
  using waiting_okD(2) [of w u m k] by simp

lemma serves_routed: "serves J hx ord window w \<Longrightarrow> routed (w_router w) (mset_of (holds (w_conns w)))"
proof (induction rule: serves.induct)
  case (start base arg cores shcap scale adsb flt epoch t0)
  have "holds Map.empty = Map.empty"
    by (simp add: holds_def fun_eq_iff)
  then show ?case
    using routed_new [OF n_shards_pos start, of arg cores shcap] by (simp add: world_new_def mset_of_def)
next
  case (connect w c)
  have "w_conns w (w_next w) = None"
    using serves_fresh [OF connect.hyps] by auto
  then have "holds ((w_conns w)(w_next w := Some \<lparr>c_phase = Handshaking, c_traffic = traffic_new c, c_out = []\<rparr>)) = holds (w_conns w)"
    by (intro holds_same) (simp add: holds_def)
  then show ?case
    using connect.IH by (simp add: conns_set_conn del: fun_upd_apply)
next
  case (give_up w u c)
  then have "holds ((w_conns w)(u := None)) = holds (w_conns w)"
    by (intro holds_same) (simp add: holds_def)
  then show ?case
    using give_up.IH by (simp add: conns_set_conn del: fun_upd_apply)
next
  case (claim w u c cfg peer now line a perm i r')
  have f: "finite (dom (w_conns w))"
    using serves_fresh [OF claim.hyps(1)] by simp
  have "holds (w_conns w) u = None"
    using claim.hyps(2,3) by (simp add: holds_def)
  then have "mset_of (holds ((w_conns w)(u \<mapsto> c\<lparr>c_phase := Adding i\<rparr>))) = add_mset i (mset_of (holds (w_conns w)))"
    by (simp add: holds_upd mset_of_add [OF finite_holds [OF f]] domIff)
  moreover have "size (mset_of (holds (w_conns w))) < 2 ^ 64 - 1"
    using card_mono [OF f dom_holds] claim.hyps(7) by (simp add: size_mset_of)
  ultimately show ?case
    using routed_claim [OF claim.IH claim.hyps(6) check_handshake_position [OF claim.hyps(5)] _ claim.hyps(8)]
    by (simp add: conns_set_conn del: fun_upd_apply)
next
  case (serve w k "from" m q now rep s')
  have "phase_of w u = Some (Adding k)" if "from = Some u" for u
    using waiting_head [OF serves_waiting [OF serve.hyps(1)]] serve.hyps(2) that by simp
  then show ?case
    using serve.IH by (subst holds_deliver) simp_all
next
  case (refuse w u c k)
  have f: "finite (dom (holds (w_conns w)))" and h: "holds (w_conns w) u = Some k"
    using serves_fresh [OF refuse.hyps(1)] refuse.hyps(2,3) by (simp_all add: finite_holds) (simp add: holds_def)
  have "holds ((w_conns w)(u := None)) = (holds (w_conns w))(u := None)"
    by (simp add: holds_upd)
  then show ?case
    using routed_release [OF refuse.IH mset_of_mem [OF f h]] by (simp add: conns_set_conn mset_of_remove [OF f h] del: fun_upd_apply)
next
  case (read w u c k r now ls ms outs t')
  then have "holds ((w_conns w)(u \<mapsto> c\<lparr>c_traffic := t', c_out := c_out c @ outs\<rparr>)) = holds (w_conns w)"
    by (intro holds_same) (simp add: holds_def)
  then show ?case
    using read.IH by (simp add: conns_set_conn del: fun_upd_apply)
next
  case (finish w u c k r)
  have f: "finite (dom (holds (w_conns w)))" and h: "holds (w_conns w) u = Some k"
    using serves_fresh [OF finish.hyps(1)] finish.hyps(2,3) by (simp_all add: finite_holds) (simp add: holds_def)
  have "holds ((w_conns w)(u := None)) = (holds (w_conns w))(u := None)"
    by (simp add: holds_upd)
  then show ?case
    using routed_release [OF finish.IH mset_of_mem [OF f h]] by (simp add: conns_set_conn mset_of_remove [OF f h] del: fun_upd_apply)
next
  case (gauge w k obs prev)
  then show ?case
    using routed_rate by simp
qed simp_all

text \<open>Every occupied slot is accounted for: its connection runs, or its removal is queued.\<close>

definition claimed :: "world \<Rightarrow> nat \<Rightarrow> rx_ref \<Rightarrow> bool" where
  "claimed w k r \<longleftrightarrow> phase_of w (owner_uid (w_state w k) r) = Some (Running k r) \<or> (None, RemoveReceiver r) \<in> set (w_queue w k)"

lemma claimed_keeps:
  assumes "claimed w k r" "\<And>u. phase_of w u = Some (Running k r) \<Longrightarrow> phase_of w' u = Some (Running k r)"
    "set (w_queue w k) \<subseteq> set (w_queue w' k)" "owner_uid (w_state w' k) r = owner_uid (w_state w k) r"
  shows "claimed w' k r"
  using assms unfolding claimed_def by (metis subsetD)

lemma serves_claimed: "serves J hx ord window w \<Longrightarrow> live (w_state w k0) r0 \<Longrightarrow> claimed w k0 r0"
proof (induction arbitrary: k0 r0 rule: serves.induct)
  case (start base arg cores shcap scale adsb flt epoch t0)
  then show ?case
    by (simp add: world_new_def live_def set_output_def state_new_def)
next
  case (connect w c)
  have "phase_of w (w_next w) = None"
    using serves_fresh [OF connect.hyps] by (auto simp: phase_of_def)
  with connect show ?case
    by (intro claimed_keeps [OF connect.IH]) auto
next
  case (give_up w u c)
  then have "phase_of w u = Some Handshaking"
    by (simp add: phase_of_def)
  with give_up show ?case
    by (intro claimed_keeps [OF give_up.IH]) auto
next
  case (claim w u c cfg peer now line a perm i r')
  then have "phase_of w u = Some Handshaking"
    by (simp add: phase_of_def)
  with claim.prems show ?case
    by (intro claimed_keeps [OF claim.IH]) auto
next
  case (serve w k "from" m q now rep s')
  have wait: "\<And>u. from = Some u \<Longrightarrow> phase_of w u = Some (Adding k)"
    using waiting_head [OF serves_waiting [OF serve.hyps(1)]] serve.hyps(2) by simp
  have ok: "state_ok (w_state w k)"
    using serves_fresh [OF serve.hyps(1)] by simp
  let ?w = "deliver from k rep (set_state k s' (w\<lparr>w_queue := (w_queue w)(k := q)\<rparr>))"
  show ?case
  proof (cases "k0 = k \<and> rep = Added (Some r0) \<and> (\<exists>info. m = AddReceiver info)")
    case True
    then obtain info where m: "m = AddReceiver info" "rep = Added (Some r0)" "k0 = k"
      by blast
    obtain u where u: "from = Some u"
      using waiting_adds [OF serves_waiting [OF serve.hyps(1)]] serve.hyps(2) m(1) by blast
    have "uid info = u"
      using waiting_uid [OF serves_waiting [OF serve.hyps(1)]] serve.hyps(2) m(1) u by blast
    moreover have "phase_of ?w u = Some (Running k r0)"
      using wait [OF u] m(2) u by (simp add: phase_deliver)
    ultimately show ?thesis
      using owner_uid_dispatch [OF ok serve.hyps(3), of r0] serve.prems m by (simp add: claimed_def)
  next
    case False
    then have l: "live (w_state w k0) r0 \<and> (k0 = k \<longrightarrow> m \<noteq> RemoveReceiver r0)"
      using live_dispatch [OF ok serve.hyps(3), of r0] serve.prems by (auto split: if_splits)
    have "owner_uid (w_state ?w k0) r0 = owner_uid (w_state w k0) r0"
      using owner_uid_dispatch [OF ok serve.hyps(3), of r0] serve.prems False
      by (auto split: shard_msg.splits reply.splits option.splits if_splits)
    moreover have "phase_of ?w u = Some (Running k0 r0)" if "phase_of w u = Some (Running k0 r0)" for u
      using that wait by (auto simp: phase_deliver)
    ultimately show ?thesis
      using serve.IH [of k0 r0] l serve.hyps(2) unfolding claimed_def by (auto split: if_splits)
  qed
next
  case (refuse w u c k)
  then have "phase_of w u = Some (Refused k)"
    by (simp add: phase_of_def)
  with refuse show ?case
    by (intro claimed_keeps [OF refuse.IH]) auto
next
  case (read w u c k r now ls ms outs t')
  have "live (w_state w k0) r0"
    using read.prems by (auto simp: live_note_read split: if_splits)
  moreover have "phase_of w u = Some (Running k r)"
    using read.hyps by (simp add: phase_of_def)
  ultimately show ?case
    using read.hyps by (intro claimed_keeps [OF read.IH]) (auto simp: owner_uid_note_read)
next
  case (finish w u c k r)
  then have "phase_of w u = Some (Running k r)"
    by (simp add: phase_of_def)
  moreover from finish.IH [of k0 r0] finish.prems have "claimed w k0 r0"
    by simp
  ultimately show ?case
    unfolding claimed_def
  proof (elim disjE)
    assume "phase_of w u = Some (Running k r)" "phase_of w (owner_uid (w_state w k0) r0) = Some (Running k0 r0)"
    then show "phase_of (set_conn u None (release k (Some r) w)) (owner_uid (w_state (set_conn u None (release k (Some r) w)) k0) r0) = Some (Running k0 r0) \<or>
        (None, RemoveReceiver r0) \<in> set (w_queue (set_conn u None (release k (Some r) w)) k0)"
      by (cases "owner_uid (w_state w k0) r0 = u") (simp_all add: phase_updates(1,4))
  next
    assume "(None, RemoveReceiver r0) \<in> set (w_queue w k0)"
    then show "phase_of (set_conn u None (release k (Some r) w)) (owner_uid (w_state (set_conn u None (release k (Some r) w)) k0) r0) = Some (Running k0 r0) \<or>
        (None, RemoveReceiver r0) \<in> set (w_queue (set_conn u None (release k (Some r) w)) k0)"
      by (cases "k0 = k") simp_all
  qed
next
  case (poll w m k)
  then show ?case
    by (intro claimed_keeps [OF poll.IH]) auto
next
  case (tick w k now)
  have "live (w_state w k0) r0"
    using tick.prems serves_fresh [OF tick.hyps] by (auto simp: live_tick split: if_splits)
  then show ?case
    using serves_fresh [OF tick.hyps] by (intro claimed_keeps [OF tick.IH]) (auto simp: owner_uid_tick)
next
  case (gauge w k obs prev)
  then show ?case
    by (intro claimed_keeps [OF gauge.IH]) auto
qed

subsection \<open>Properties\<close>

text \<open>
  C2. The router's books balance: in every world the server can reach, whatever connections
  have come and gone by whichever exit, the receiver count of every shard is exactly the
  number of connections now counted at it, each connection at one shard of the router's.
\<close>

theorem server_counts_balance:
  assumes "serves J hx ord window w"
  shows "list_all (\<lambda>k. receivers (shards (w_router w) ! k) = card {u. holds (w_conns w) u = Some k}) [0..<length (shards (w_router w))] \<and>
    ran (holds (w_conns w)) \<subseteq> {..<length (shards (w_router w))}"
proof -
  have f: "finite (dom (holds (w_conns w)))"
    using serves_fresh [OF assms] finite_holds by blast
  have c: "counts_ok (w_router w) (mset_of (holds (w_conns w)))"
    using routed_ok [OF serves_routed [OF assms]] by simp
  have "ran (holds (w_conns w)) \<subseteq> {..<length (shards (w_router w))}"
    using c mset_of_mem [OF f] unfolding counts_ok_def ran_def by blast
  then show ?thesis
    using c by (simp add: counts_ok_def list_all_iff count_mset_of [OF f])
qed

text \<open>
  C3. No slot leaks, and a uid names one connection: in every reachable world an occupied slot
  of a shard belongs to the connection with the uid of its receiver, which runs at this shard
  under this very handle, or the message that frees the slot is on the queue. So no two
  slots of the server are held by one running connection, and once all connections are gone
  and the queues are served, every shard is empty.
\<close>

theorem server_slots_owned:
  assumes "serves J hx ord window w" "live (w_state w k) r"
  shows "(\<exists>c. w_conns w (uid (st_receivers (w_state w k) ! rr_idx r)) = Some c \<and> c_phase c = Running k r) \<or>
    RemoveReceiver r \<in> snd ` set (w_queue w k)"
  using serves_claimed [OF assms] by (force simp: claimed_def phase_of_def owner_uid_def)

lemma no_live_no_receivers: "state_ok s \<Longrightarrow> (\<And>r. \<not> live s r) \<Longrightarrow> live_receivers s = 0"
proof -
  assume ok: "state_ok s" and n: "\<And>r. \<not> live s r"
  have "\<not> alive s ! i" if "i < length (alive s)" for i
    using n [of "slot_ref s i"] that slots_okD(5) [OF state_okD(1) [OF ok]] by (auto simp: live_def slot_ref_def)
  then show ?thesis
    by (auto simp: live_receivers_def filter_empty_conv in_set_conv_nth)
qed

text \<open>
  The server winds down clean: in a reachable world with no connection left and a shard's
  queue served, that shard has no receiver in a slot and the router counts none at it.
\<close>

theorem server_winds_down:
  assumes "serves J hx ord window w" "w_conns w = Map.empty" "w_queue w k = []" "k < length (shards (w_router w))"
  shows "live_receivers (w_state w k) = 0 \<and> receivers (shards (w_router w) ! k) = 0"
proof -
  have "\<not> live (w_state w k) r" for r
    using serves_claimed [OF assms(1), of k r] assms(2,3) by (auto simp: claimed_def phase_of_def)
  then have "live_receivers (w_state w k) = 0"
    using no_live_no_receivers serves_fresh [OF assms(1)] by blast
  moreover have "holds (w_conns w) = Map.empty"
    using assms(2) by (simp add: holds_def fun_eq_iff)
  then have "mset_of (holds (w_conns w)) = {#}"
    by (simp add: mset_of_def)
  then have "receivers (shards (w_router w) ! k) = 0"
    using routed_ok [OF serves_routed [OF assms(1)]] assms(4) by (simp add: counts_ok_def)
  ultimately show ?thesis
    by simp
qed

text \<open>The life of one connection, for the examples: it connects, is admitted, and ends.\<close>

definition example_json :: "json_tree json_api" where
  "example_json = tree_json (\<lambda>_. Some (JObj [(''compress'', JArr [JStr ''none'']), (''lat'', JNum 47), (''lon'', JNum (- 1)), (''alt'', JNum 40)]))"

lemma example_accepted:
  "\<exists>a. check_handshake example_json \<lparr>cfg_uid = 0, cfg_sync_cap = 0, cfg_client_results = True\<rparr> ([], 0) 0 [CHR 0x0A] = Inr a \<and>
     uuid (acc_info a) = None \<and> geo (acc_info a) = \<lparr>lat_deg = 47, lon_deg = - 1, alt_m = 40\<rparr>"
  by (simp add: check_handshake_def example_json_def tree_json_def field_def negotiate_def plausible_position_def Let_def List.map_filter_simps)

definition example_state :: "nat \<Rightarrow> state" where
  "example_state k = set_output (state_new k 1 False False (0, 0) 0)"

lemma example_admitted:
  "uuid info = None \<Longrightarrow> \<exists>s'. dispatch hx (example_state k) 0 (AddReceiver info) = (Added (Some \<lparr>rr_idx = 0, rr_gen = 0\<rparr>), s') \<and>
     live s' \<lparr>rr_idx = 0, rr_gen = 0\<rparr>"
  by (simp add: dispatch_def example_state_def example_defs Let_def)

lemma example_life:
  "\<exists>i w w'. i < length (shards (w_router w)) \<and> serves example_json hx ord window w \<and> live (w_state w i) \<lparr>rr_idx = 0, rr_gen = 0\<rparr> \<and>
     serves example_json hx ord window w' \<and> w_conns w' = Map.empty \<and> w_queue w' i = [] \<and> i < length (shards (w_router w'))"
proof -
  let ?S = "serves example_json hx ord window"
  let ?rr = "\<lparr>rr_idx = 0, rr_gen = 0\<rparr>"
  let ?r = "router_new (replicate 2 \<lparr>receivers = 0, rate = 0\<rparr>) 5 64"
  let ?w0 = "world_new ?r example_state"
  have s0: "?S ?w0"
    using serves.start [of 5 example_json hx ord window 2 None 64 1 False False "(0, 0)" 0] by (simp add: example_state_def [abs_def] n_shards_of_def)
  define w1 where "w1 = (set_conn (w_next ?w0) (Some \<lparr>c_phase = Handshaking, c_traffic = traffic_new 0, c_out = []\<rparr>) ?w0)\<lparr>w_next := w_next ?w0 + 1\<rparr>"
  have s1: "?S w1"
    unfolding w1_def by (rule serves.connect [OF s0])
  have f1: "w_conns w1 = [0 \<mapsto> \<lparr>c_phase = Handshaking, c_traffic = traffic_new 0, c_out = []\<rparr>]" "w_router w1 = ?r" "w_state w1 = example_state" "w_queue w1 = (\<lambda>_. [])"
    by (simp_all add: w1_def world_new_def set_conn_def)
  obtain a where a: "check_handshake example_json \<lparr>cfg_uid = 0, cfg_sync_cap = 0, cfg_client_results = True\<rparr> ([], 0) 0 [CHR 0x0A] = Inr a"
      "uuid (acc_info a) = None" "geo (acc_info a) = \<lparr>lat_deg = 47, lon_deg = - 1, alt_m = 40\<rparr>"
    using example_accepted by blast
  have "routed ?r {#}"
    by (rule routed_new) simp_all
  note ok = conjunct1 [OF routed_ok [OF this]]
  obtain i r' where i: "shard_for rev ?r 47 (- 1) = Some (i, r')" "i < length (shards ?r)"
    using shard_for_returns [OF ok iterates_rev, of 47 "- 1"] by auto
  have len: "length (shards r') = length (shards ?r)"
    using shard_for_ok(5) [OF ok iterates_rev _ _ i(1)] by (auto simp: add_receivers_def)
  define w2 where "w2 = enqueue i [(Some 0, AddReceiver (acc_info a))]
      (set_conn 0 (Some (\<lparr>c_phase = Adding i, c_traffic = traffic_new 0, c_out = []\<rparr>)) (w1\<lparr>w_router := r'\<rparr>))"
  have s2: "?S w2"
    using serves.claim [OF s1 _ _ _ a(1) iterates_rev, of 0 "\<lparr>c_phase = Handshaking, c_traffic = traffic_new 0, c_out = []\<rparr>" i r'] a(3) i(1)
    by (simp add: f1 w2_def)
  obtain s' where s': "dispatch hx (example_state i) 0 (AddReceiver (acc_info a)) = (Added (Some ?rr), s')" "live s' ?rr"
    using example_admitted [OF a(2)] by blast
  define w3 where "w3 = deliver (Some 0) i (Added (Some ?rr)) (set_state i s' (w2\<lparr>w_queue := (w_queue w2)(i := [])\<rparr>))"
  have q2: "w_queue w2 i = [(Some 0, AddReceiver (acc_info a))]" "w_state w2 i = example_state i"
    by (simp_all add: w2_def f1)
  have s3: "?S w3"
    unfolding w3_def by (rule serves.serve [OF s2 q2(1), where now = 0]) (unfold q2(2), rule s'(1))
  have c3: "w_conns w3 = [0 \<mapsto> \<lparr>c_phase = Running i ?rr, c_traffic = traffic_new 0, c_out = []\<rparr>]" "w_state w3 i = s'" "w_queue w3 i = []"
      "w_router w3 = r'"
    by (simp_all add: w3_def w2_def deliver_def f1 set_conn_def set_state_def enqueue_def)
  define w4 where "w4 = set_conn 0 None (release i (Some ?rr) w3)"
  have s4: "?S w4"
    unfolding w4_def by (rule serves.finish [OF s3, where c = "\<lparr>c_phase = Running i ?rr, c_traffic = traffic_new 0, c_out = []\<rparr>"]) (simp_all add: c3)
  have q4: "w_queue w4 i = [(None, RemoveReceiver ?rr)]" "w_conns w4 = Map.empty" "w_router w4 = release_receiver r' i"
    by (simp_all add: w4_def c3 conns_set_conn release_def enqueue_def)
  define w5 where "w5 = deliver None i NoReply (set_state i (remove_receiver (w_state w4 i) ?rr) (w4\<lparr>w_queue := (w_queue w4)(i := [])\<rparr>))"
  have s5: "?S w5"
    unfolding w5_def by (rule serves.serve [OF s4 q4(1)]) (simp add: dispatch_def)
  have "w_conns w5 = Map.empty" "w_queue w5 i = []" "w_router w5 = release_receiver r' i"
    by (simp_all add: w5_def deliver_def set_state_def q4)
  then show ?thesis
    using s3 s5 s'(2) c3 i(2) len by (intro exI [of _ i] exI [of _ w3] exI [of _ w5]) (simp add: release_receiver_def add_receivers_def)
qed

theorem server_counts_balance_witness:
  "\<exists>w. serves example_json (\<lambda>_. None) (\<lambda>_. []) 1 w \<and> ran (holds (w_conns w)) \<subseteq> {..<length (shards (w_router w))} \<and> w_conns w = Map.empty"
  using example_life [of "\<lambda>_. None" "\<lambda>_. []" 1] server_counts_balance by metis

theorem server_slots_owned_witness:
  "\<exists>w i c. serves example_json (\<lambda>_. None) (\<lambda>_. []) 1 w \<and> (w_conns w (uid (st_receivers (w_state w i) ! 0)) = Some c \<and> c_phase c = Running i \<lparr>rr_idx = 0, rr_gen = 0\<rparr> \<or>
     RemoveReceiver \<lparr>rr_idx = 0, rr_gen = 0\<rparr> \<in> snd ` set (w_queue w i))"
proof -
  obtain i w where w: "serves example_json (\<lambda>_. None) (\<lambda>_. []) 1 w" "live (w_state w i) \<lparr>rr_idx = 0, rr_gen = 0\<rparr>"
    using example_life [of "\<lambda>_. None" "\<lambda>_. []" 1] by blast
  show ?thesis
    using server_slots_owned [OF w] w(1) by (intro exI [of _ w] exI [of _ i]) auto
qed

theorem server_winds_down_witness:
  "\<exists>w i. serves example_json (\<lambda>_. None) (\<lambda>_. []) 1 w \<and> live_receivers (w_state w i) = 0 \<and> receivers (shards (w_router w) ! i) = 0"
  using example_life [of "\<lambda>_. None" "\<lambda>_. []" 1] server_winds_down by metis

end
