(* ===== verification/Simulation.thy ===== *)
theory Simulation
  imports Downlink
begin

text \<open>
  What \<^verbatim>\<open>crates/mb-core/src/lib.rs\<close> provides for simulations beside the geometry of \<open>Geo\<close>:
  time in nanoseconds since the scenario's epoch, the truth log's record, and the seeds of
  the named random streams. The hash function and the generator come from the \<open>sha2\<close> and
  \<open>rand_chacha\<close> crates and are parameters.
\<close>

datatype sim_nanos = SimNanos (nanos: u64)

definition sim_from_secs :: "real \<Rightarrow> sim_nanos" where
  "sim_from_secs s = SimNanos (of_nat (as_u64 (of_int (round_real (s * 10 ^ 9)))))"

definition sim_as_secs :: "sim_nanos \<Rightarrow> real" where
  "sim_as_secs t = of_nat (unat (nanos t)) / 10 ^ 9"

record truth_point =
  tp_t :: sim_nanos
  tp_icao :: icao
  tp_pos :: geodetic
  gs_mps :: real
  vrate_mps :: real

fun le_bytes :: "nat \<Rightarrow> nat \<Rightarrow> bytes" where
  "le_bytes 0 x = []"
| "le_bytes (Suc n) x = of_nat x # le_bytes n (x div 256)"

definition rng_preimage :: "u64 \<Rightarrow> string \<Rightarrow> bytes" where
  "rng_preimage seed stream = le_bytes 8 (unat seed) @ [0x1f] @ to_bytes stream"

definition rng_for :: "(bytes \<Rightarrow> bytes) \<Rightarrow> (bytes \<Rightarrow> 'rng) \<Rightarrow> u64 \<Rightarrow> string \<Rightarrow> 'rng" where
  "rng_for sha256 from_seed seed stream = from_seed (sha256 (rng_preimage seed stream))"

subsection \<open>Lemmas\<close>

lemma length_le_bytes: "length (le_bytes n x) = n"
  by (induction n x rule: le_bytes.induct) simp_all

lemma le_bytes_inj: "le_bytes n x = le_bytes n y \<Longrightarrow> x < 256 ^ n \<Longrightarrow> y < 256 ^ n \<Longrightarrow> x = y"
proof (induction n arbitrary: x y)
  case (Suc n)
  have "x mod 256 = y mod 256"
    using Suc.prems(1) by (simp add: word_of_nat_eq_iff take_bit_eq_mod)
  moreover have "x div 256 = y div 256"
    using Suc.prems by (intro Suc.IH) (auto simp: less_mult_imp_div_less mult.commute)
  ultimately show ?case
    by (metis div_mult_mod_eq)
qed simp

lemma to_bytes_inj: "to_bytes s = to_bytes t \<Longrightarrow> s = t"
proof -
  have "inj (of_char :: char \<Rightarrow> u8)"
  proof (rule injI)
    fix c d :: char assume "(of_char c :: u8) = of_char d"
    then have "(of_nat (of_char c) :: u8) = of_nat (of_char d)"
      by (simp only: of_nat_of_char)
    then show "c = d"
      by (simp add: word_of_nat_eq_iff take_bit_eq_mod)
  qed
  then show "to_bytes s = to_bytes t \<Longrightarrow> s = t"
    by (simp add: to_bytes_def inj_map_eq_map)
qed

subsection \<open>Properties\<close>

text \<open>
  Streams are separated by seed and name: two pairs give the hash function the same input
  only if they are the same pair, so with a hash that does not collide on them two streams
  never share a key.
\<close>

theorem rng_streams_separate:
  "rng_preimage seed stream = rng_preimage seed' stream' \<longleftrightarrow> seed = seed' \<and> stream = stream'"
proof
  assume e: "rng_preimage seed stream = rng_preimage seed' stream'"
  then have "le_bytes 8 (unat seed) = le_bytes 8 (unat seed')" "to_bytes stream = to_bytes stream'"
    by (simp_all add: rng_preimage_def append_eq_append_conv length_le_bytes)
  moreover have "unat s < 2 ^ LENGTH(64)" for s :: u64
    by (rule unsigned_less)
  then have "unat s < 256 ^ 8" for s :: u64
    by simp
  ultimately show "seed = seed' \<and> stream = stream'"
    using le_bytes_inj [of 8 "unat seed" "unat seed'"] to_bytes_inj by (simp add: unsigned_word_eqI)
qed simp

text \<open>
  Simulation time keeps half a nanosecond: seconds turned into nanoseconds and back differ
  by at most that, for any time from the epoch up to the 584 years a 64-bit count holds;
  times before the epoch become the epoch.
\<close>

theorem sim_time_roundtrip:
  "(0 \<le> s \<longrightarrow> s < 18446744073 \<longrightarrow> \<bar>sim_as_secs (sim_from_secs s) - s\<bar> \<le> 1 / (2 * 10 ^ 9)) \<and>
   (s \<le> 0 \<longrightarrow> sim_as_secs (sim_from_secs s) = 0)"
proof (intro conjI impI)
  define k where "k = round_real (s * 10 ^ 9)"
  have u: "sim_as_secs (sim_from_secs s) = of_int (saturate 0 (2 ^ 64 - 1) k) / 10 ^ 9"
  proof -
    define n where "n = as_u64 (of_int k)"
    have n: "n = nat (saturate 0 (2 ^ 64 - 1) k)"
      by (simp add: n_def as_u64_def trunc_real_def)
    then have "n < 2 ^ 64" "real n = of_int (saturate 0 (2 ^ 64 - 1) k)"
      by (simp_all add: saturate_def)
    then show ?thesis
      unfolding sim_as_secs_def sim_from_secs_def k_def [symmetric] n_def [symmetric] by (simp add: unat_of_nat)
  qed
  {
    assume s: "0 \<le> s" "s < 18446744073"
    have "k = \<lfloor>s * 10 ^ 9 + 1 / 2\<rfloor>"
      using s by (simp add: k_def round_real_def)
    then have k: "0 \<le> k" "k \<le> 2 ^ 64 - 1" "of_int k \<le> s * 10 ^ 9 + 1 / 2" "s * 10 ^ 9 + 1 / 2 < of_int k + 1"
      using s of_int_floor_le [of "s * 10 ^ 9 + 1 / 2"] real_of_int_floor_add_one_gt [of "s * 10 ^ 9 + 1 / 2"]
      by (simp_all add: floor_le_iff)
    then have "\<bar>of_int k - s * 10 ^ 9\<bar> \<le> 1 / 2"
      by linarith
    moreover have "\<bar>of_int k / 10 ^ 9 - s\<bar> = \<bar>of_int k - s * 10 ^ 9\<bar> / 10 ^ 9"
    proof -
      have "of_int k / 10 ^ 9 - s = (of_int k - s * 10 ^ 9) / 10 ^ 9"
        by (simp add: diff_divide_distrib)
      then show ?thesis
        by (simp only: abs_divide) simp
    qed
    ultimately show "\<bar>sim_as_secs (sim_from_secs s) - s\<bar> \<le> 1 / (2 * 10 ^ 9)"
      using k(1,2) unfolding u saturate_def by simp
  }
  assume "s \<le> 0"
  then have "k \<le> 0"
    by (auto simp: k_def round_real_def floor_le_iff ceiling_le_iff)
  then show "sim_as_secs (sim_from_secs s) = 0"
    by (simp add: u saturate_def)
qed

end
