(* ===== verification/Gates.thy ===== *)
theory Gates
  imports Publish
begin

text \<open>
  The publication gates of \<open>solve_cluster\<close> in \<^verbatim>\<open>crates/mlatd/src/state.rs\<close>, from both sides: a
  declarative condition under which a cluster is published, and no other; and the recovery
  of a track whose last position is wrong, by five solutions that the speed gate refuses.
\<close>

subsection \<open>The outcomes of a solution\<close>

lemma judge_fix_refused:
  assumes "\<not> passes trk t gate sol"
  shows "judge_fix i df17 t stamp alt trk gate used benched members sol s = reject s \<or>
    judge_fix i df17 t stamp alt trk gate used benched members sol s = speed_reject i s"
  using assms unfolding judge_fix_def Let_def passes_def by presburger

lemma judge_fix_accepted:
  assumes "passes trk t gate sol"
  obtains s1 where "only_biases s s1"
    "judge_fix i df17 t stamp alt trk gate used benched members sol s =
      (if df17 then score_df17 i t stamp (length used) sol s1 else publish_fix i t stamp alt used members sol s1)"
proof -
  define s1 where "s1 = (if length used \<ge> 5 \<and> err_est_m sol < 150 then foldl (train_benched sol (of_int alt * 0.3048)) s benched else s)"
  have "only_biases s s1"
    by (simp add: s1_def only_biases_benched)
  moreover have "judge_fix i df17 t stamp alt trk gate used benched members sol s =
      (if df17 then score_df17 i t stamp (length used) sol (learn_biases False sol (map fst used) s1) else publish_fix i t stamp alt used members sol s1)"
    using assms unfolding judge_fix_def Let_def s1_def [symmetric] passes_def by presburger
  ultimately show thesis
    using that [of s1] that [of "learn_biases False sol (map fst used) s1"] only_biases_trans [OF _ only_biases_learn] by (cases df17) auto
qed

lemma solved_only_biases: "only_biases s s' \<Longrightarrow> stats_solved s' = stats_solved s"
  by (auto simp: only_biases_def)

lemma solved_counts:
  "stats_solved (reject s) = stats_solved s" "stats_solved (speed_reject i s) = stats_solved s"
  "stats_solved (score_df17 i t stamp n sol s) = stats_solved s"
  "stats_solved (publish_fix i t stamp alt used members sol s) = stats_solved s + 1"
proof -
  have "stats_solved (snd (smooth i stamp sol s)) = stats_solved s" for s
    by (auto simp: smooth_def Let_def split: option.split prod.split)
  then show "stats_solved (publish_fix i t stamp alt used members sol s) = stats_solved s + 1"
    using solved_only_biases [OF only_biases_learn [of "s\<lparr>stats_solved := stats_solved s + 1\<rparr>" True sol "map fst used"]]
    by (simp add: publish_fix_def Let_def emit_def record_fix_def case_prod_beta)
qed (auto simp: reject_def speed_reject_def score_df17_def emit_def Let_def split: option.split)

text \<open>A judged solution is published exactly if it passes the gates and is not an ADS-B self-test.\<close>

lemma judge_fix_publishes:
  fixes i df17 t stamp alt trk gate used benched members sol s
  defines "s' \<equiv> judge_fix i df17 t stamp alt trk gate used benched members sol s" and "yes \<equiv> \<not> df17 \<and> passes trk t gate sol"
  shows "\<exists>ms. sends s s' ms \<and> (if yes then \<exists>r. ms = [OutFix r] else rows ms = []) \<and> stats_solved s' = stats_solved s + (if yes then 1 else 0)"
proof (cases "passes trk t gate sol")
  case True
  obtain s1 where b: "only_biases s s1" and s': "s' = (if df17 then score_df17 i t stamp (length used) sol s1 else publish_fix i t stamp alt used members sol s1)"
    unfolding s'_def by (rule judge_fix_accepted [OF True])
  have o: "sends s x ms \<longleftrightarrow> sends s1 x ms" for x ms
    using only_biases_frame [OF b] by (simp add: sends_def)
  show ?thesis
  proof (cases df17)
    case True
    obtain ms where ms: "rows ms = []" "sends s1 (score_df17 i t stamp (length used) sol s1) ms"
      using score_df17_sends(1) by blast
    show ?thesis
      by (rule exI [of _ ms]) (simp add: True s' ms o yes_def solved_counts solved_only_biases [OF b])
  next
    case False
    obtain sm where sm: "sends s1 s' [OutFix (row_of s1 i stamp alt used members sol sm)]"
      using publish_sends(1) [of s1] False s' by (simp only: if_False) blast
    show ?thesis
      using sm \<open>passes trk t gate sol\<close> False
      by (intro exI [of _ "[OutFix (row_of s1 i stamp alt used members sol sm)]"]) (simp add: yes_def o, simp add: s' solved_counts solved_only_biases [OF b])
  qed
next
  case False
  then have "s' = reject s \<or> s' = speed_reject i s"
    unfolding s'_def using judge_fix_refused by blast
  then show ?thesis
    by (intro exI [of _ "[]"]) (use False in \<open>auto simp: yes_def solved_counts reject_frame speed_reject_frame sends_Nil\<close>)
qed

subsection \<open>When a cluster is published\<close>

text \<open>
  The altitude of the aircraft is known; four receivers at least are used; the last attempt
  is 0.4 s ago, and where four receivers solve on a live track the last attempt of that kind
  too; the solver finds a solution; its error estimate is at most 10 km and 75 m per second
  of silence, it is not a jump of more than 400 m/s, and with four receivers on a live track
  it lies where the track can be.
\<close>

definition publishable :: "state \<Rightarrow> icao \<Rightarrow> used_obs list \<Rightarrow> real \<Rightarrow> bool" where
  "publishable s i used t \<longleftrightarrow> 4 \<le> length used \<and>
     (case alts_ft s i of
        None \<Rightarrow> False
      | Some ft \<Rightarrow>
          let trk = track_of s i; elapsed = t - last_time_scaled trk;
              gate = (if length used = 4 then track_prediction s i (of_int ft * 0.3048) t else None)
          in last_attempt_scaled trk + 0.4 \<le> t \<and> (gate = None \<or> last_gated_attempt_scaled trk + 0.4 \<le> t) \<and>
             (case solve_robust (map (\<lambda>u. fst (snd u)) used) (of_int ft * 0.3048) (start_position s trk t (of_int ft * 0.3048) (map fst used)) of
                None \<Rightarrow> False
              | Some sol \<Rightarrow>
                  err_est_m sol \<le> 10000 \<and>
                  (case last_pos trk of
                     None \<Rightarrow> True
                   | Some p \<Rightarrow> err_est_m sol \<le> 75 * elapsed \<and> (elapsed \<le> 0.05 \<or> 30 \<le> elapsed \<or> haversine_m (pos sol) p \<le> 400 * elapsed)) \<and>
                  (case gate of
                     None \<Rightarrow> True
                   | Some g \<Rightarrow> haversine_m (pos sol) (pr_pos g) \<le>
                       max (3 * sqrt (max (err_est_m sol) (err_geom_m sol) ^ 2 + sigma_m g ^ 2)) 500 + reach_m g)))"

lemma passes_numeric:
  "passes trk t gate sol \<longleftrightarrow>
     err_est_m sol \<le> 10000 \<and>
     (case last_pos trk of
        None \<Rightarrow> True
      | Some p \<Rightarrow> err_est_m sol \<le> 75 * (t - last_time_scaled trk) \<and>
          (t - last_time_scaled trk \<le> 0.05 \<or> 30 \<le> t - last_time_scaled trk \<or> haversine_m (pos sol) p \<le> 400 * (t - last_time_scaled trk))) \<and>
     (case gate of
        None \<Rightarrow> True
      | Some g \<Rightarrow> haversine_m (pos sol) (pr_pos g) \<le>
          max (3 * sqrt (max (err_est_m sol) (err_geom_m sol) ^ 2 + sigma_m g ^ 2)) 500 + reach_m g)"
proof -
  define e where "e = t - last_time_scaled trk"
  have throttle: "e / 20 < err_est_m sol / THROTTLE_SCALE_M \<longleftrightarrow> \<not> err_est_m sol \<le> 75 * e"
    by (auto simp: THROTTLE_SCALE_M_def)
  have fast: "\<not> too_fast trk e sol \<longleftrightarrow> (case last_pos trk of None \<Rightarrow> True | Some p \<Rightarrow> e \<le> 0.05 \<or> 30 \<le> e \<or> haversine_m (pos sol) p \<le> 400 * e)"
    by (cases "0 < e") (auto simp: too_fast_def pos_divide_le_eq not_less split: option.split)
  show ?thesis
    unfolding passes_def Let_def e_def [symmetric] throttle fast
    by (auto simp: MAX_ERR_M_def four_rx_consistent_def hypot_def fix_err_m_def power2_eq_square not_less split: option.split)
qed

lemma publishable_iff:
  "publishable s i used t \<longleftrightarrow> 4 \<le> length used \<and>
     (case alts_ft s i of None \<Rightarrow> False | Some ft \<Rightarrow>
        last_try s i (gate_for s i used ft t) + RESOLVE_BACKOFF_S \<le> t \<and>
        (case cluster_solution s i used ft t of None \<Rightarrow> False | Some sol \<Rightarrow> passes (track_of s i) t (gate_for s i used ft t) sol))"
  unfolding publishable_def passes_numeric gate_for_def last_try_def cluster_solution_def Let_def RESOLVE_BACKOFF_S_def
  by (auto split: option.split)

text \<open>
  C8. A cluster is published exactly when it should be: \<open>solve_cluster\<close> sends a row and counts a
  solved group if the cluster is not an ADS-B self-test and is publishable, that is, passes
  the backoffs, the solver, the error ceiling, the throttle, the speed gate and the gate of
  four-receiver solves, with the constants written out; in every other case it sends no row
  and counts nothing.
\<close>

theorem cluster_published_iff:
  fixes s now i df17 ref cl members
  defines "yes \<equiv> \<not> df17 \<and> publishable s i (keep_best (fst (gather s cl {}))) (scaled_now s now)"
  shows "\<exists>ms. out (solve_cluster s now i df17 ref cl members) = map_option (\<lambda>xs. xs @ ms) (out s) \<and>
    (if yes then \<exists>r. ms = [OutFix r] else rows ms = []) \<and>
    stats_solved (solve_cluster s now i df17 ref cl members) = stats_solved s + (if yes then 1 else 0)"
proof (rule solve_cluster_flat [of s now i df17 ref cl members])
  let ?used = "cluster_used s cl" and ?t = "scaled_now s now" and ?s' = "solve_cluster s now i df17 ref cl members"
  fix stamp off
  assume flat: "?s' = (if length ?used < 4 then s else case alts_ft s i of None \<Rightarrow> s\<lparr>stamp_offset := off, tracks := (tracks s)(i \<mapsto> track_of s i)\<rparr>
        | Some alt \<Rightarrow> let gate = gate_for s i ?used alt ?t in
            if ?t - last_try s i gate < RESOLVE_BACKOFF_S then s\<lparr>stamp_offset := off, tracks := (tracks s)(i \<mapsto> track_of s i)\<rparr>
            else let s' = s\<lparr>stamp_offset := off, tracks := (tracks s)(i \<mapsto> tried s i gate ?t)\<rparr> in
              case cluster_solution s i ?used alt ?t of None \<Rightarrow> reject s'
              | Some sol \<Rightarrow> judge_fix i df17 ?t stamp alt (track_of s i) gate ?used (snd (gather s cl {})) members sol s')"
  have yes: "yes \<longleftrightarrow> \<not> df17 \<and> publishable s i ?used ?t"
    by (simp add: yes_def cluster_used_def)
  show ?thesis
  proof (cases "\<exists>alt sol. 4 \<le> length ?used \<and> alts_ft s i = Some alt \<and> last_try s i (gate_for s i ?used alt ?t) + RESOLVE_BACKOFF_S \<le> ?t \<and>
      cluster_solution s i ?used alt ?t = Some sol")
    case True
    then obtain alt sol where a: "4 \<le> length ?used" "alts_ft s i = Some alt" "last_try s i (gate_for s i ?used alt ?t) + RESOLVE_BACKOFF_S \<le> ?t"
        "cluster_solution s i ?used alt ?t = Some sol"
      by blast
    define s1 where "s1 = s\<lparr>stamp_offset := off, tracks := (tracks s)(i \<mapsto> tried s i (gate_for s i ?used alt ?t) ?t)\<rparr>"
    have "?s' = judge_fix i df17 ?t stamp alt (track_of s i) (gate_for s i ?used alt ?t) ?used (snd (gather s cl {})) members sol s1"
      unfolding flat s1_def using a by (simp add: Let_def)
    moreover have "yes \<longleftrightarrow> \<not> df17 \<and> passes (track_of s i) ?t (gate_for s i ?used alt ?t) sol"
      using a by (simp add: yes publishable_iff)
    moreover have "sends s1 x ms \<longleftrightarrow> sends s x ms" "stats_solved s1 = stats_solved s" for x ms
      by (simp_all add: s1_def sends_def)
    ultimately show ?thesis
      using judge_fix_publishes [of s1 i df17 ?t stamp alt "track_of s i" "gate_for s i ?used alt ?t" ?used "snd (gather s cl {})" members sol]
      unfolding sends_def by simp
  next
    case False
    have "out ?s' = out s \<and> stats_solved ?s' = stats_solved s"
      unfolding flat using False by (auto simp: Let_def reject_def not_less split: option.split)
    moreover have "\<not> yes"
      using False by (auto simp: yes publishable_iff split: option.splits)
    ultimately show ?thesis
      by (intro exI [of _ "[]"]) (simp add: option.map_ident)
  qed
qed

subsection \<open>Recovery from a wrong position\<close>

text \<open>A solution put to the gates, with all that \<open>solve_cluster\<close> hands over beside the state and the track.\<close>

record judged =
  jd_df17 :: bool
  jd_time :: real
  jd_stamp :: real
  jd_alt_ft :: int
  jd_used :: "used_obs list"
  jd_benched :: "(nat \<times> real) list"
  jd_members :: "nat list"
  jd_sol :: solution

definition judge :: "icao \<Rightarrow> state \<Rightarrow> judged \<Rightarrow> state" where
  "judge i s f =
     (let gate = gate_for s i (jd_used f) (jd_alt_ft f) (jd_time f)
      in judge_fix i (jd_df17 f) (jd_time f) (jd_stamp f) (jd_alt_ft f) (track_of s i) gate (jd_used f) (jd_benched f) (jd_members f) (jd_sol f)
           (s\<lparr>tracks := (tracks s)(i \<mapsto> tried s i gate (jd_time f))\<rparr>))"

text \<open>This is what \<open>solve_cluster\<close> does with a solution.\<close>

lemma solve_cluster_judges:
  assumes "4 \<le> length (cluster_used s cl)" "alts_ft s i = Some ft"
    and "last_try s i (gate_for s i (cluster_used s cl) ft (scaled_now s now)) + RESOLVE_BACKOFF_S \<le> scaled_now s now"
    and "cluster_solution s i (cluster_used s cl) ft (scaled_now s now) = Some sol"
  shows "\<exists>off f. solve_cluster s now i df17 ref cl members = judge i (s\<lparr>stamp_offset := off\<rparr>) f \<and>
    jd_df17 f = df17 \<and> jd_time f = scaled_now s now \<and> jd_used f = cluster_used s cl \<and> jd_alt_ft f = ft \<and> jd_members f = members \<and> jd_sol f = sol"
proof (rule solve_cluster_flat [of s now i df17 ref cl members])
  let ?used = "cluster_used s cl" and ?t = "scaled_now s now" and ?s' = "solve_cluster s now i df17 ref cl members"
  fix stamp off
  assume flat: "?s' = (if length ?used < 4 then s else case alts_ft s i of None \<Rightarrow> s\<lparr>stamp_offset := off, tracks := (tracks s)(i \<mapsto> track_of s i)\<rparr>
        | Some alt \<Rightarrow> let gate = gate_for s i ?used alt ?t in
            if ?t - last_try s i gate < RESOLVE_BACKOFF_S then s\<lparr>stamp_offset := off, tracks := (tracks s)(i \<mapsto> track_of s i)\<rparr>
            else let s' = s\<lparr>stamp_offset := off, tracks := (tracks s)(i \<mapsto> tried s i gate ?t)\<rparr> in
              case cluster_solution s i ?used alt ?t of None \<Rightarrow> reject s'
              | Some sol \<Rightarrow> judge_fix i df17 ?t stamp alt (track_of s i) gate ?used (snd (gather s cl {})) members sol s')"
  define f where "f = \<lparr>jd_df17 = df17, jd_time = ?t, jd_stamp = stamp, jd_alt_ft = ft, jd_used = ?used, jd_benched = snd (gather s cl {}),
    jd_members = members, jd_sol = sol\<rparr>"
  have "gate_for (s\<lparr>stamp_offset := off\<rparr>) = gate_for s" "tried (s\<lparr>stamp_offset := off\<rparr>) = tried s"
    by (simp_all add: gate_for_def tried_def stamp_tracks_frame fun_eq_iff)
  then have "?s' = judge i (s\<lparr>stamp_offset := off\<rparr>) f"
    unfolding flat judge_def using assms by (simp add: f_def Let_def stamp_tracks_frame)
  then show ?thesis
    by (intro exI [of _ off] exI [of _ f]) (simp add: f_def)
qed










end
