(* ===== verification/Delivery.thy ===== *)
theory Delivery
  imports Server Output
begin

text \<open>
  From the receivers to the consumers: the shards of \<open>Server\<close>, each sweep of which turns
  pending groups into rows, and the output task of \<open>Output\<close>, which takes what the shards send.
  Nothing of the program is defined here; the lemmas follow a row from the group it was
  solved from, through the shard that signs it, to the output task that publishes it and
  the connections that get it.
\<close>

subsection \<open>The rows a step adds\<close>

definition adds :: "(out_row \<Rightarrow> bool) \<Rightarrow> state \<Rightarrow> state \<Rightarrow> bool" where
  "adds P s s' \<longleftrightarrow> shard_id s' = shard_id s \<and> (\<exists>ms. sends s s' ms \<and> list_all P (rows ms))"

lemma adds_same: "out s' = out s \<Longrightarrow> shard_id s' = shard_id s \<Longrightarrow> adds P s s'"
  unfolding adds_def by (intro conjI exI [of _ "[]"]) (simp_all add: sends_Nil)

lemma adds_trans: "adds P s s' \<Longrightarrow> adds P s' s'' \<Longrightarrow> adds P s s''"
  unfolding adds_def by (metis list_all_append rows_simps(4) sends_trans)

lemma adds_mono: "adds P s s' \<Longrightarrow> (\<And>r. P r \<Longrightarrow> Q r) \<Longrightarrow> adds Q s s'"
  unfolding adds_def by (metis list.pred_mono_strong)

text \<open>
  Who stands behind a row: the shard's number, the aircraft of the group, and for every
  recipient an entry of the group from a connected receiver with the recipient's uid.
\<close>

definition heard :: "state \<Rightarrow> rx_group \<Rightarrow> out_row \<Rightarrow> bool" where
  "heard s g r \<longleftrightarrow> or_shard r = shard_id s \<and> or_icao r = g_icao g \<and>
     list_all (\<lambda>u. list_ex (\<lambda>e. alive s ! fst e \<and> uid (st_receivers s ! fst e) = u) (g_entries g)) (or_recipients r)"

lemma sid_publish: "shard_id (publish_fix i t stamp alt used members sol s) = shard_id s"
proof -
  have "shard_id (snd (smooth i stamp sol s)) = shard_id s" for s
    using smooth_frame(3) [OF prod.collapse [symmetric]] .
  then show ?thesis
    using only_biases_frame(5) [OF only_biases_learn [of "s\<lparr>stats_solved := stats_solved s + 1\<rparr>" True sol "map fst used"]]
    by (simp add: publish_fix_def Let_def emit_def record_fix_frame case_prod_beta)
qed

lemma sid_judge: "shard_id (judge_fix i df17 t stamp alt trk gate used benched members sol s) = shard_id s"
proof -
  have "shard_id (score_df17 i t stamp n sol s) = shard_id s" "shard_id (speed_reject i s) = shard_id s" for n s
    by (simp_all add: score_df17_def emit_def speed_reject_def reject_def Let_def split: option.split)
  then show ?thesis
    using only_biases_frame(5) [OF only_biases_learn] only_biases_frame(5) [OF only_biases_benched]
    by (simp add: judge_fix_def reject_def Let_def sid_publish)
qed

lemma sid_cluster: "shard_id (solve_cluster s now i df17 ref cl members) = shard_id s"
  by (rule solve_cluster_cases [of s now i df17 ref cl members]) (auto simp: sid_judge reject_def)

lemma heard_cluster:
  assumes same: "same_slots s0 s" "shard_id s = shard_id s0"
  shows "adds (heard s0 g) s (solve_cluster s now (g_icao g) (g_df17 g) ref cl (firsts (map fst (g_entries g))))"
proof -
  let ?m = "firsts (map fst (g_entries g))"
  obtain ms where ms: "sends s (solve_cluster s now (g_icao g) (g_df17 g) ref cl ?m) ms"
      "\<forall>r \<in> set (rows ms). justified s now (g_icao g) (keep_best (fst (gather s cl {}))) ?m r"
    using solve_cluster_sends(1) by blast
  have "heard s0 g r" if "r \<in> set (rows ms)" for r
  proof -
    note j = bspec [OF ms(2) that]
    have "or_shard r = shard_id s"
      using j by (auto simp: justified_def row_of_def)
    moreover have "st_receivers s = st_receivers s0" "alive s = alive s0"
      using same(1) by (simp_all add: same_slots_def)
    ultimately show ?thesis
      using same(2) justified_gates(2,10) [OF j]
      by (auto simp: heard_def recipients_def firsts_set list_all_iff list_ex_iff)
  qed
  then show ?thesis
    unfolding adds_def using ms(1) sid_cluster by (auto simp: list_all_iff)
qed


lemma fold_adds:
  assumes t: "tame s0 s" "shard_id s = shard_id s0"
    and step: "\<And>s' x. x \<in> set xs \<Longrightarrow> tame s0 s' \<Longrightarrow> shard_id s' = shard_id s0 \<Longrightarrow> adds P s' (f s' x) \<and> tame s' (f s' x)"
  shows "adds P s (foldl f s xs) \<and> tame s0 (foldl f s xs)"
  using assms
proof (induction xs arbitrary: s)
  case (Cons x xs)
  note S = Cons.prems(3) [of x, OF _ Cons.prems(1,2)]
  then have x: "adds P s (f s x)" "tame s0 (f s x)" "shard_id (f s x) = shard_id s0"
    using tame_trans [OF Cons.prems(1)] Cons.prems(2) by (simp_all add: adds_def)
  have "adds P (f s x) (foldl f (f s x) xs) \<and> tame s0 (foldl f (f s x) xs)"
    by (rule Cons.IH [OF x(2,3)]) (use Cons.prems(3) in simp)
  then show ?case
    using adds_trans [OF x(1)] by simp
qed (simp add: adds_same)

lemma heard_group:
  assumes t: "tame s0 s" "shard_id s = shard_id s0" and g: "\<forall>e \<in> set (g_entries g). occ s0 (fst e)"
  shows "adds (heard s0 g) s (solve_group clk s g)"
proof -
  let ?m = "firsts (map fst (g_entries g))"
  have "adds (heard s0 g) s (foldl (\<lambda>s (n, cl). solve_cluster s (clk n) (g_icao g) (g_df17 g) ref cl ?m) s cls)" if "occ s0 ref" for ref cls
  proof (rule conjunct1 [OF fold_adds [OF t]])
    fix s' x assume s': "tame s0 s'" "shard_id s' = shard_id s0"
    show "adds (heard s0 g) s' (case x of (n, cl) \<Rightarrow> solve_cluster s' (clk n) (g_icao g) (g_df17 g) ref cl ?m) \<and>
        tame s' (case x of (n, cl) \<Rightarrow> solve_cluster s' (clk n) (g_icao g) (g_df17 g) ref cl ?m)"
      unfolding case_prod_beta using heard_cluster [OF _ s'(2)] tame_solve_cluster that occ_tame [OF s'(1)] s'(1) by (simp add: tame_def)
  qed
  moreover have "occ s0 ref" if "elect_local_ref s ?m = Some ref" for ref
    using max_by_key_Some [OF that [unfolded elect_local_ref_def]] g by (auto simp: firsts_set)
  ultimately show ?thesis
    by (auto simp: solve_group_def Let_def adds_same split: option.split)
qed

lemma groups_take: "groups (take_group clk s k) = (groups s)(k := None)"
  by (auto simp: take_group_def solve_group_pending fun_upd_idem split: option.split)


text \<open>A sweep: every row it sends was heard as a group that was pending when it began.\<close>

lemma heard_take:
  assumes ok: "state_ok s0" and t: "tame s0 s" "shard_id s = shard_id s0" and g: "groups s \<subseteq>\<^sub>m groups s0"
  shows "adds (\<lambda>r. \<exists>g \<in> ran (groups s0). heard s0 g r) s (take_group clk s k)"
proof (cases "groups s k")
  case (Some g)
  let ?s = "s\<lparr>groups := (groups s)(k := None)\<rparr>"
  have g0: "groups s0 k = Some g"
    using g Some by (auto simp: map_le_def dom_def)
  have "\<forall>e \<in> set (g_entries g). occ s0 (fst e)"
    using refs_okD(3) [OF state_okD(2) [OF ok] g0] by (simp add: occ_def)
  then have "adds (heard s0 g) ?s (solve_group (clk k) ?s g)"
    using heard_group [OF tame_trans [OF t(1) tame_drop_group]] t(2) by simp
  then have "adds (\<lambda>r. \<exists>g \<in> ran (groups s0). heard s0 g r) ?s (solve_group (clk k) ?s g)"
    by (rule adds_mono) (use g0 in \<open>blast intro: ranI\<close>)
  moreover have "adds P s ?s" for P
    by (rule adds_same) simp_all
  ultimately show ?thesis
    using Some adds_trans by (fastforce simp: take_group_def)
qed (simp add: take_group_def adds_same)

lemma heard_takes:
  assumes ok: "state_ok s0"
  shows "tame s0 s \<Longrightarrow> shard_id s = shard_id s0 \<Longrightarrow> groups s \<subseteq>\<^sub>m groups s0 \<Longrightarrow>
    adds (\<lambda>r. \<exists>g \<in> ran (groups s0). heard s0 g r) s (foldl (take_group clk) s ks)"
proof (induction ks arbitrary: s)
  case (Cons k ks)
  have a: "adds (\<lambda>r. \<exists>g \<in> ran (groups s0). heard s0 g r) s (take_group clk s k)"
    by (rule heard_take [OF ok Cons.prems])
  have "tame s0 (take_group clk s k)"
    using tame_trans [OF Cons.prems(1) tame_take_group] tame_ok [OF Cons.prems(1) ok] by blast
  moreover have "shard_id (take_group clk s k) = shard_id s0"
    using a Cons.prems(2) by (simp add: adds_def)
  moreover have "groups (take_group clk s k) \<subseteq>\<^sub>m groups s0"
    using Cons.prems(3) by (auto simp: groups_take map_le_def dom_def)
  ultimately show ?case
    using adds_trans [OF a Cons.IH] by simp
qed (simp add: adds_same)

lemma heard_sweep:
  assumes ok: "state_ok s"
  shows "adds (\<lambda>r. \<exists>g \<in> ran (groups s). heard s g r) s (sweep ready s c)"
proof -
  define s1 where "s1 = sweep [] s c"
  have f: "out s1 = out s" "shard_id s1 = shard_id s" "groups s1 = groups s"
    by (simp_all add: s1_def sweep_def expire_at_def Let_def)
  have "tame s s1"
    unfolding s1_def by (rule tame_sweep [OF ok])
  then have "adds (\<lambda>r. \<exists>g \<in> ran (groups s). heard s g r) s1 (foldl (take_group (at_cluster c)) s1 ready)"
    using heard_takes [OF ok] f by simp
  moreover have "sweep ready s c = foldl (take_group (at_cluster c)) s1 ready"
    by (simp add: s1_def sweep_def Let_def)
  ultimately show ?thesis
    using adds_trans [OF adds_same] f by metis
qed

subsection \<open>A shard signs its rows\<close>

definition signs :: "nat \<Rightarrow> state \<Rightarrow> bool" where
  "signs k s \<longleftrightarrow> rows_ok s \<and> shard_id s = k \<and> pred_option (\<lambda>ms. list_all (\<lambda>r. or_shard r = k) (rows ms)) (out s)"

lemma sid_remove: "shard_id (remove_receiver s r) = shard_id s"
  by (simp add: remove_receiver_def forget_pending_def drop_pairs_def Let_def)

lemma sid_add: "shard_id (snd (add_receiver s now info)) = shard_id s"
proof (cases "claim_user s now info")
  case (Some c)
  obtain info' s1 where c: "claim_user s now info = Some (info', s1)"
    using Some by (cases c) auto
  obtain i s2 where o: "occupy s1 info' = (i, s2)"
    by fastforce
  have "shard_id s1 = shard_id s"
    using c by (auto simp: claim_user_def sid_remove Let_def split: option.splits if_splits)
  moreover have "shard_id s2 = shard_id s1"
    using o by (auto simp: occupy_def Let_def split: if_splits)
  ultimately show ?thesis
    by (simp add: add_receiver_def c o elect_reference_def Let_def split: option.split)
qed (simp add: add_receiver_def)

lemma sid_on_mlat: "shard_id (on_mlat hx s now r t m at_t) = shard_id s"
  by (simp add: on_mlat_def group_entry_def log_mlat_def Let_def split: option.split)

lemma sid_on_sync: "shard_id (on_sync hx s now r et ot em om at_t) = shard_id s"
proof -
  have "shard_id (train_with i rx te to s x) = shard_id s" for i rx te to s x
    by (simp add: train_with_def train_def Let_def split: prod.split)
  then have "shard_id (foldl (train_with i rx te to) s xs) = shard_id s" for i rx te to s xs
    by (induction xs arbitrary: s) simp_all
  then have j: "shard_id (join_syncpoint key now i rx te to s) = shard_id s" for key now i rx te to s
    by (simp add: join_syncpoint_def Let_def)
  then have "shard_id (sync_event hx now r et ot em om at_t de pe po s) = shard_id s" for de pe po s
    by (simp add: sync_event_def sid_on_mlat Let_def split: option.split)
  then show ?thesis
    by (simp add: on_sync_def log_sync_def Let_def split: option.split)
qed

lemma sid_dispatch: "shard_id (snd (dispatch hx s now m)) = shard_id s"
  by (cases m) (auto simp: sid_add sid_remove sid_on_sync sid_on_mlat clock_reset_def forget_pending_def drop_pairs_def
      receiver_stats_def state_json_def expire_at_def Let_def split: prod.split)

interpretation sig: kept_by_steps "shard_step hx ord window" "signs k" for hx ord window k
proof
  fix s e assume ok: "signs k s"
  then have s: "state_ok s" and r: "rows_ok s" and k: "shard_id s = k"
    by (simp_all add: signs_def rows_ok_def)
  have "adds (\<lambda>r. or_shard r = k) s (shard_step hx ord window s e)"
  proof (cases e)
    case (Tick c)
    show ?thesis
      unfolding Tick shard_step_def shard_event.case
      by (rule adds_mono [OF heard_sweep [OF s]]) (auto simp: heard_def k)
  qed (simp_all add: shard_step_def out_dispatch sid_dispatch note_read_def adds_same)
  then show "signs k (shard_step hx ord window s e)"
    using ok pub.step_keeps [OF r, of hx ord window e] by (cases "out s") (auto simp: signs_def adds_def sends_def)
qed

lemma serves_signs: "serves J hx ord window w \<Longrightarrow> signs k (w_state w k)"
proof (induction rule: serves.induct)
  case (start base arg cores shcap scale adsb flt epoch t0)
  show ?case
    using start_ok by (simp add: world_new_def signs_def) (simp add: set_output_def state_new_def)
next
  case (serve w k' "from" m q now rep s')
  have "signs k (shard_step hx ord window (w_state w k) (Msg now m))"
    by (rule sig.step_keeps [OF serve.IH])
  then show ?case
    using serve.IH serve.hyps(3) by (cases "k = k'") (simp_all add: shard_step_def)
next
  case (read w u c k' r now ls ms outs t')
  have "signs k (shard_step hx ord window (w_state w k) (Read r now))"
    by (rule sig.step_keeps [OF read.IH])
  then show ?case
    using read.IH by (cases "k = k'") (simp_all add: shard_step_def)
next
  case (tick w k' c)
  then show ?case
    using sig.step_keeps [OF tick.IH, of hx ord window "Tick c"] by (cases "k = k'") simp_all
qed simp_all

lemma heard_tick:
  assumes "state_ok s"
  shows "\<exists>ms. sends s (shard_step hx ord window s (Tick c)) ms \<and> list_all (\<lambda>r. \<exists>g \<in> ran (groups s). heard s g r) (rows ms)"
  using heard_sweep [OF assms, of "ord (ready_groups s (at_start c) window)" c] by (simp add: adds_def shard_step_def)

lemma serves_out: "serves J hx ord window w \<Longrightarrow> \<exists>ms. out (w_state w k) = Some ms"
proof (induction rule: serves.induct)
  case (start base arg cores shcap scale adsb flt epoch t0)
  show ?case
    by (simp add: world_new_def set_output_def)
next
  case (serve w k' "from" m q now rep s')
  then show ?case
    using out_dispatch [of hx "w_state w k'" now m] by (cases "k = k'") simp_all
next
  case (read w u c k' r now ls ms outs t')
  then show ?case
    by (cases "k = k'") (simp_all add: note_read_def)
next
  case (tick w k' c)
  have "state_ok (w_state w k)"
    using serves_fresh [OF tick.hyps] by simp
  then obtain ms where "sends (w_state w k) (shard_step hx ord window (w_state w k) (Tick c)) ms"
    using heard_tick by blast
  then show ?case
    using tick.IH by (cases "k = k'") (auto simp: sends_def)
qed simp_all

lemma admitted_from:
  "row \<in> set (admitted ps es) \<Longrightarrow> row \<in> set ps \<or> (\<exists>r ps'. (r, OutFix row) \<in> set es \<and> admits r ps' row)"
  by (induction ps es rule: admitted.induct) (auto split: if_splits)

text \<open>The owner of a receiver: its connection runs under the slot's handle, or the slot is about to be freed.\<close>

lemma entry_claimed:
  assumes s: "serves J hx ord window w" and g: "g \<in> ran (groups (w_state w k))" and e: "e \<in> set (g_entries g)"
  shows "claimed w k (slot_ref (w_state w k) (fst e))"
proof -
  have ok: "state_ok (w_state w k)"
    using serves_fresh [OF s] by simp
  obtain key where key: "groups (w_state w k) key = Some g"
    using g by (auto simp: ran_def)
  have "occ (w_state w k) (fst e)"
    using refs_okD(3) [OF state_okD(2) [OF ok] key] e by (simp add: occ_def)
  then have "live (w_state w k) (slot_ref (w_state w k) (fst e))"
    by (simp add: live_def slot_ref_def occ_def)
  then show ?thesis
    by (rule serves_claimed [OF s])
qed

subsection \<open>Properties\<close>

text \<open>
  C4. Results reach those who helped: in any reachable world, whatever a shard's next sweep
  sends, each fix comes from a group that is pending there, about that group's aircraft; and
  every recipient of the fix has an entry in that group: a receiver with the recipient's uid
  reported the frame, and it is the receiver of the connection with that uid, which runs
  under the handle of that slot (or has just left, its removal queued). A feeder never gets
  positions of traffic it did not hear.
\<close>

theorem results_reach_hearers:
  assumes "serves J hx ord window w"
  shows "\<exists>ms. out (shard_step hx ord window (w_state w k) (Tick c)) = map_option (\<lambda>xs. xs @ ms) (out (w_state w k)) \<and>
    list_all (\<lambda>r. \<exists>g \<in> ran (groups (w_state w k)). or_icao r = g_icao g \<and>
      list_all (\<lambda>u. list_ex (\<lambda>e. uid (st_receivers (w_state w k) ! fst e) = u \<and>
          (map_option c_phase (w_conns w u) = Some (Running k (slot_ref (w_state w k) (fst e))) \<or>
           RemoveReceiver (slot_ref (w_state w k) (fst e)) \<in> snd ` set (w_queue w k))) (g_entries g)) (or_recipients r)) (rows ms)"
proof -
  let ?s = "w_state w k"
  have "state_ok ?s"
    using serves_fresh [OF assms] by simp
  then obtain ms where ms: "sends ?s (shard_step hx ord window ?s (Tick c)) ms"
      "\<forall>r \<in> set (rows ms). \<exists>g \<in> ran (groups ?s). heard ?s g r"
    using heard_tick [of ?s hx ord window c] unfolding list_all_iff by blast
  have own: "map_option c_phase (w_conns w (uid (st_receivers ?s ! fst e))) = Some (Running k (slot_ref ?s (fst e))) \<or>
      RemoveReceiver (slot_ref ?s (fst e)) \<in> snd ` set (w_queue w k)" if "g \<in> ran (groups ?s)" "e \<in> set (g_entries g)" for g e
    using entry_claimed [OF assms that] by (force simp: claimed_def phase_of_def owner_uid_def slot_ref_def)
  let ?backed = "\<lambda>g u. list_ex (\<lambda>e. uid (st_receivers ?s ! fst e) = u \<and>
      (map_option c_phase (w_conns w u) = Some (Running k (slot_ref ?s (fst e))) \<or>
       RemoveReceiver (slot_ref ?s (fst e)) \<in> snd ` set (w_queue w k))) (g_entries g)"
  have "\<exists>g \<in> ran (groups ?s). or_icao r = g_icao g \<and> list_all (?backed g) (or_recipients r)" if r: "r \<in> set (rows ms)" for r
  proof -
    obtain g where g: "g \<in> ran (groups ?s)" "heard ?s g r"
      using ms(2) r by blast
    have "?backed g u" if u: "u \<in> set (or_recipients r)" for u
    proof -
      obtain e where "e \<in> set (g_entries g)" "uid (st_receivers ?s ! fst e) = u"
        using g(2) u unfolding heard_def list_all_iff list_ex_iff by blast
      then show ?thesis
        using own [OF g(1)] unfolding list_ex_iff by metis
    qed
    then show ?thesis
      using g by (auto simp: heard_def list_all_iff)
  qed
  then show ?thesis
    using ms(1) unfolding sends_def list_all_iff by (intro exI [of _ ms]) blast
qed

text \<open>
  C5. From solver to consumer: let the output task take any messages its shards have sent in a
  reachable world, in any order and with any of them lost, while the partition grows. It
  comes to the end, and every row it publishes is within bounds, was sent by the shard whose
  number it carries, and lay, when the task took it, on ground of that shard or of none.
\<close>

theorem published_rows_sound:
  assumes "serves J hx ord window w"
    and "\<forall>(r, m) \<in> set es. (\<exists>a. routed r a) \<and> (\<exists>k. m \<in> set (the (out (w_state w k))))"
  shows "\<exists>s. output_run (output_new c f t) es = Some s \<and>
    list_all (\<lambda>row. row_ok row \<and> OutFix row \<in> set (the (out (w_state w (or_shard row)))) \<and>
      list_ex (\<lambda>(r, m). m = OutFix row \<and> owner_of_point r (or_lat row) (or_lon row) \<in> {Some None, Some (Some (or_shard row))}) es)
      (published s)"
proof -
  have ok: "\<forall>(r, m) \<in> set es. router_ok r"
    using assms(2) routed_ok by fast
  then obtain s where s: "output_run (output_new c f t) es = Some s" "published s = admitted [] es"
    using output_run_returns [OF ok output_new_ok, of c f t] by (auto simp: output_new_def)
  have "row_ok row \<and> OutFix row \<in> set (the (out (w_state w (or_shard row)))) \<and>
      list_ex (\<lambda>(r, m). m = OutFix row \<and> owner_of_point r (or_lat row) (or_lon row) \<in> {Some None, Some (Some (or_shard row))}) es"
    if row: "row \<in> set (published s)" for row
  proof -
    obtain r ps where r: "(r, OutFix row) \<in> set es" "admits r ps row"
      using admitted_from [of row "[]" es] row s(2) by auto
    then obtain k where k: "OutFix row \<in> set (the (out (w_state w k)))"
      using assms(2) by fast
    have "row \<in> set (rows (the (out (w_state w k))))"
      using k by (force simp: rows_def List.map_filter_def)
    moreover have "signs k (w_state w k)"
      by (rule serves_signs [OF assms(1)])
    moreover obtain ms where "out (w_state w k) = Some ms"
      using serves_out [OF assms(1)] by blast
    ultimately have "row_ok row" "or_shard row = k"
      by (auto simp: signs_def rows_ok_def list_all_iff)
    moreover have "owner_of_point r (or_lat row) (or_lon row) \<in> {Some None, Some (Some (or_shard row))}"
      using r owner_at_returns [of r "or_lat row" "or_lon row"] ok
      by (auto simp: admits_def owner_of_point_def split: option.splits)
    ultimately show ?thesis
      using k r(1) by (auto simp: list_ex_iff)
  qed
  then show ?thesis
    using s(1) by (auto simp: list_all_iff)
qed


text \<open>A reachable world with a receiver in a slot, for the examples.\<close>

theorem results_reach_hearers_witness:
  "\<exists>w i ms. serves example_json (\<lambda>_. None) (\<lambda>_. []) 1 w \<and> live (w_state w i) \<lparr>rr_idx = 0, rr_gen = 0\<rparr> \<and>
     out (shard_step (\<lambda>_. None) (\<lambda>_. []) 1 (w_state w i) (Tick \<lparr>at_start = 5, at_expiry = 5, at_cluster = \<lambda>_ _. 5\<rparr>)) = map_option (\<lambda>xs. xs @ ms) (out (w_state w i))"
proof -
  obtain i w where w: "serves example_json (\<lambda>_. None) (\<lambda>_. []) 1 w" "live (w_state w i) \<lparr>rr_idx = 0, rr_gen = 0\<rparr>"
    using example_life [of "\<lambda>_. None" "\<lambda>_. []" 1] by blast
  obtain ms where "out (shard_step (\<lambda>_. None) (\<lambda>_. []) 1 (w_state w i) (Tick \<lparr>at_start = 5, at_expiry = 5, at_cluster = \<lambda>_ _. 5\<rparr>)) = map_option (\<lambda>xs. xs @ ms) (out (w_state w i))"
    using results_reach_hearers [OF w(1), where k = i and c = "\<lparr>at_start = 5, at_expiry = 5, at_cluster = \<lambda>_ _. 5\<rparr>"] by auto
  then show ?thesis
    using w by (intro exI [of _ w] exI [of _ i] exI [of _ ms] conjI)
qed

theorem published_rows_sound_witness:
  "\<exists>w r s. serves example_json (\<lambda>_. None) (\<lambda>_. []) 1 w \<and> routed r {#} \<and>
     output_run (output_new True False False) (map (Pair r) (the (out (w_state w 0)))) = Some s \<and> list_all row_ok (published s)"
proof -
  obtain w where w: "serves example_json (\<lambda>_. None) (\<lambda>_. []) 1 w"
    using example_life [of "\<lambda>_. None" "\<lambda>_. []" 1] by blast
  define r where "r = router_new (replicate 2 \<lparr>receivers = 0, rate = 0\<rparr>) 5 64"
  have r: "routed r {#}"
    unfolding r_def by (rule routed_new) simp_all
  let ?es = "map (Pair r) (the (out (w_state w 0)))"
  have "\<forall>(r, m) \<in> set ?es. (\<exists>a. routed r a) \<and> (\<exists>k. m \<in> set (the (out (w_state w k))))"
    using r by auto
  from published_rows_sound [OF w this, of True False False] show ?thesis
    using w r by (auto simp: list_all_iff)
qed

end
