(* ===== verification/Exact.thy ===== *)
theory Exact
  imports Solve
begin

text \<open>
  The solver on perfect data. When every arrival time is exactly the transmit time plus the
  flight time from one position, the residuals of \<^verbatim>\<open>crates/mlatd/src/solve.rs\<close> at that
  position are one clock error, shared by all receivers; the Gauss-Newton step then moves the
  time only, and the loop walks to the true transmit time in steps of a millisecond.
\<close>

definition exact_from :: "geodetic \<Rightarrow> real \<Rightarrow> observation list \<Rightarrow> bool" where
  "exact_from p t0 obs \<longleftrightarrow> list_all (\<lambda>ob. t_s ob = t0 + dist (to_ecef p) (obs_rx ob) / C_MPS) obs"

definition weight_of :: "observation \<Rightarrow> real" where
  "weight_of ob = 1 / max (err_s ob) (1 / 10 ^ 9)"

lemma exact_residuals:
  assumes "exact_from \<lparr>lat_deg = lat, lon_deg = lon, alt_m = alt\<rparr> t0 obs"
  shows "obs_residuals obs lat lon alt t = map (\<lambda>ob. t - t0) obs"
    and "residuals_w obs lat lon alt t = map (\<lambda>ob. (t - t0) * weight_of ob) obs"
proof -
  show r: "obs_residuals obs lat lon alt t = map (\<lambda>ob. t - t0) obs"
    using assms by (auto simp: obs_residuals_def exact_from_def dist_def list_all_iff Let_def)
  show "residuals_w obs lat lon alt t = map (\<lambda>ob. (t - t0) * weight_of ob) obs"
    by (rule nth_equalityI) (simp_all add: residuals_w_def r weight_of_def)
qed

text \<open>
  The rows of the Jacobian in closed form: how the flight time changes with latitude and
  longitude, and the weight for the time, all independent of the time itself.
\<close>

lemma residuals_w_nth: "i < length obs \<Longrightarrow> residuals_w obs lat lon alt t ! i =
  (t + dist (to_ecef \<lparr>lat_deg = lat, lon_deg = lon, alt_m = alt\<rparr>) (obs_rx (obs ! i)) / C_MPS - t_s (obs ! i)) * weight_of (obs ! i)"
  by (simp add: residuals_w_def obs_residuals_def weight_of_def dist_def Let_def)

definition flight_slope :: "geodetic \<Rightarrow> geodetic \<Rightarrow> real \<Rightarrow> observation \<Rightarrow> real" where
  "flight_slope p q h ob = (dist (to_ecef q) (obs_rx ob) - dist (to_ecef p) (obs_rx ob)) / C_MPS * weight_of ob / h"

lemma jacobian_rows:
  "jacobian obs lat lon alt t =
     map (\<lambda>ob. (flight_slope \<lparr>lat_deg = lat, lon_deg = lon, alt_m = alt\<rparr> \<lparr>lat_deg = lat + jac_dlat, lon_deg = lon, alt_m = alt\<rparr> jac_dlat ob,
                flight_slope \<lparr>lat_deg = lat, lon_deg = lon, alt_m = alt\<rparr> \<lparr>lat_deg = lat, lon_deg = lon + jac_dlon lat, alt_m = alt\<rparr> (jac_dlon lat) ob,
                weight_of ob)) obs"
proof -
  have "(t + a / C_MPS - s) * w - (t + b / C_MPS - s) * w = (a - b) / C_MPS * w" "(t + h + a / C_MPS - s) * w - (t + a / C_MPS - s) * w = h * w"
    for a b s w h :: real
    by (simp_all add: algebra_simps diff_divide_distrib)
  then show ?thesis
    by (intro nth_equalityI) (simp_all add: jacobian_def Let_def residuals_w_nth flight_slope_def, simp add: jac_dt_def)
qed

subsection \<open>The step\<close>

fun col3 :: "mat3 \<Rightarrow> vec3" where
  "col3 ((a00, a01, a02), (a10, a11, a12), (a20, a21, a22)) = (a02, a12, a22)"

fun scale3 :: "real \<Rightarrow> vec3 \<Rightarrow> vec3" where
  "scale3 c (x, y, z) = (c * x, c * y, c * z)"

lemma solve3_col3: "\<not> \<bar>det3 a\<bar> < 1 / 10 ^ 30 \<Longrightarrow> solve3 a (scale3 c (col3 a)) = Some (0, 0, c)"
proof -
  assume d: "\<not> \<bar>det3 a\<bar> < 1 / 10 ^ 30"
  obtain a00 a01 a02 a10 a11 a12 a20 a21 a22 where a: "a = ((a00, a01, a02), (a10, a11, a12), (a20, a21, a22))"
    by (metis surj_pair)
  have "det3 (set_col a 0 (scale3 c (col3 a))) = 0" "det3 (set_col a 1 (scale3 c (col3 a))) = 0"
      "det3 (set_col a 2 (scale3 c (col3 a))) = c * det3 a"
    by (simp_all add: a algebra_simps)
  moreover have "det3 a \<noteq> 0"
    using d by auto
  ultimately show ?thesis
    using d by (simp add: solve3_def Let_def)
qed

lemma jtr_third: "jtr_of js (map (\<lambda>j. e * snd (snd j)) js) = scale3 (- e) (col3 (jtj_of js))"
proof (induction js rule: rev_induct)
  case (snoc j js)
  obtain x y z where j: "j = (x, y, z)"
    by (metis surj_pair)
  obtain a00 a01 a02 a10 a11 a12 a20 a21 a22 where a: "jtj_of js = ((a00, a01, a02), (a10, a11, a12), (a20, a21, a22))"
    by (metis surj_pair)
  show ?case
    using snoc by (simp add: jtr_of_def j zip_append) (simp add: jtj_of_def a [unfolded jtj_of_def] algebra_simps)
qed (simp add: jtr_of_def jtj_of_def)

lemma gn_step_exact:
  assumes e: "exact_from \<lparr>lat_deg = lat, lon_deg = lon, alt_m = alt\<rparr> t0 obs"
    and d: "1 / 10 ^ 30 \<le> \<bar>det3 (normal_matrix obs lat lon alt t)\<bar>"
  shows "gn_step obs lat lon alt t = Some (0, 0, t0 - t)"
proof -
  have "residuals_w obs lat lon alt t = map (\<lambda>j. (t - t0) * snd (snd j)) (jacobian obs lat lon alt t)"
    using exact_residuals(2) [OF e, of t] by (simp add: jacobian_rows comp_def)
  then show ?thesis
    using solve3_col3 [of "normal_matrix obs lat lon alt t" "t0 - t"] d
    by (simp add: gn_step_def normal_matrix_def jtr_third Let_def)
qed

lemma gn_loop_exact:
  assumes e: "exact_from \<lparr>lat_deg = lat, lon_deg = lon, alt_m = alt\<rparr> t0 obs"
    and d: "1 / 10 ^ 30 \<le> \<bar>det3 (normal_matrix obs lat lon alt t0)\<bar>"
  shows "\<bar>t0 - t\<bar> \<le> of_nat k / 10 ^ 3 \<Longrightarrow> \<exists>n. gn_loop (Suc k) it obs alt lat lon t = Some (lat, lon, t0, n)"
proof (induction k arbitrary: it t)
  case 0
  then show ?case
    using gn_step_exact [OF e] d by (simp add: clamp_def)
next
  case (Suc k)
  define st where "st = clamp (t0 - t) (- (1 / 10 ^ 3)) (1 / 10 ^ 3)"
  have g: "gn_step obs lat lon alt t = Some (0, 0, t0 - t)"
    using gn_step_exact [OF e] d by (simp add: normal_matrix_def jacobian_rows)
  have "\<bar>t0 - (t + st)\<bar> \<le> of_nat k / 10 ^ 3"
    using Suc.prems by (auto simp: st_def clamp_def abs_le_iff field_simps split: if_splits)
  from Suc.IH [OF this, of "it + 1"] obtain n where n: "gn_loop (Suc k) (it + 1) obs alt lat lon (t + st) = Some (lat, lon, t0, n)"
    by blast
  have "clamp 0 (- 1) 1 = 0"
    by (simp add: clamp_def)
  then have "gn_loop (Suc (Suc k)) it obs alt lat lon t =
      (if \<bar>st\<bar> < 1 / 10 ^ 12 then Some (lat, lon, t + st, it + 1) else gn_loop (Suc k) (it + 1) obs alt lat lon (t + st))"
    by (simp only: gn_loop.simps(2) [of "Suc k"] g option.case prod.case st_def [symmetric] Let_def) simp
  moreover have "t + st = t0" if "\<bar>st\<bar> < 1 / 10 ^ 12"
    using that by (auto simp: st_def clamp_def split: if_splits)
  ultimately show ?case
    using n by simp
qed


subsection \<open>Properties\<close>

lemma invert3_returns: "\<not> \<bar>det3 a\<bar> < 1 / 10 ^ 30 \<Longrightarrow> \<exists>c. invert3 a = Some c"
  by (simp add: invert3_def solve3_def Let_def)

lemma earliest_is_min: "obs \<noteq> [] \<Longrightarrow> fold min (map t_s (tl obs)) (t_s (hd obs)) = Min (t_s ` set obs)"
  by (cases obs) (simp_all add: Min.set_eq_fold [symmetric])

lemma rem_euclid_lon: "- 180 \<le> x \<Longrightarrow> x < 180 \<Longrightarrow> rem_euclid (x + 540) 360 - 180 = x"
proof -
  assume "- 180 \<le> x" "x < 180"
  then have "\<lfloor>(x + 540) / 360\<rfloor> = 1"
    by (simp add: floor_eq_iff)
  then show ?thesis
    by (simp add: rem_euclid_def)
qed

lemma solve_exact:
  assumes n: "4 \<le> length obs" and e: "exact_from p t0 obs" and r: "\<bar>lat_deg p\<bar> \<le> 90" "- 180 \<le> lon_deg p" "lon_deg p < 180"
    and near: "list_ex (\<lambda>ob. dist (to_ecef p) (obs_rx ob) \<le> 4000000) obs"
    and d: "1 / 10 ^ 30 \<le> \<bar>det3 (normal_matrix obs (lat_deg p) (lon_deg p) (alt_m p) t0)\<bar>"
  shows "\<exists>sol. solve obs (alt_m p) p = Some sol \<and> pos sol = p \<and> t_tx sol = t0 \<and> rms_s sol = 0 \<and> err_est_m sol = 0"
proof -
  obtain lat lon alt where p: "p = \<lparr>lat_deg = lat, lon_deg = lon, alt_m = alt\<rparr>"
    by (cases p) auto
  define t_min where "t_min = fold min (map t_s (tl obs)) (t_s (hd obs))"
  have obs: "obs \<noteq> []"
    using n by auto
  have at_t: "t_s ob = t0 + dist (to_ecef p) (obs_rx ob) / C_MPS" if "ob \<in> set obs" for ob
    using e that by (simp add: exact_from_def list_all_iff)
  have "t_min = Min (t_s ` set obs)"
    unfolding t_min_def by (rule earliest_is_min [OF obs])
  then have "t_min \<in> t_s ` set obs" "\<forall>ob \<in> set obs. t_min \<le> t_s ob"
    using obs Min_in [of "t_s ` set obs"] Min_le [of "t_s ` set obs"] by auto
  moreover obtain ob where ob: "ob \<in> set obs" "dist (to_ecef p) (obs_rx ob) \<le> 4000000"
    using near by (auto simp: list_ex_iff)
  moreover have "0 \<le> dist x y" for x y
    by (simp add: dist_def)
  ultimately have "t0 \<le> t_min" "t_min \<le> t0 + dist (to_ecef p) (obs_rx ob) / C_MPS"
    using at_t by (auto simp: C_MPS_def)
  then have "t0 \<le> t_min" "t_min \<le> t0 + 4000000 / C_MPS"
    using ob(2) by (simp_all add: C_MPS_def)
  then have "\<bar>t0 - (t_min - 200000 / C_MPS)\<bar> \<le> of_nat 14 / 10 ^ 3"
    by (intro abs_leI) (simp_all add: C_MPS_def)
  then obtain k where k: "gn_loop MAX_ITER 0 obs alt lat lon (t_min - 200000 / C_MPS) = Some (lat, lon, t0, k)"
    using gn_loop_exact [of lat lon alt t0 obs "t_min - 200000 / C_MPS" 14 0] e d by (auto simp: p MAX_ITER_def eval_nat_numeral)
  obtain cov where cov: "invert3 (normal_matrix obs lat lon alt t0) = Some cov"
    using invert3_returns [of "normal_matrix obs lat lon alt t0"] d by (auto simp: p not_less)
  note R = exact_residuals [OF e [unfolded p], of t0]
  have rms: "rms_of (obs_residuals obs lat lon alt t0) = 0"
    by (simp add: R rms_of_def sum_list_0 comp_def)
  have lon: "rem_euclid (lon + 540) 360 - 180 = lon"
    by (rule rem_euclid_lon) (use r in \<open>simp_all add: p\<close>)
  show ?thesis
    using n r(1) k cov by (simp add: solve_def p t_min_def [symmetric] rms lon Let_def MAX_RMS_S_def) (simp add: R comp_def)
qed

text \<open>
  Perfect data give the perfect fix: if the arrival times of at least five receivers are
  exactly those of a transmission from \<open>p\<close> at \<open>t0\<close>, one receiver at least is within 4000 km, the
  receivers determine the position (the determinant of the normal matrix is not below
  the threshold) and the search starts at \<open>p\<close>, then the robust solve returns \<open>p\<close> and \<open>t0\<close>,
  with no residual and an error estimate of zero, although it starts from a guessed time.
\<close>

lemma solve_robust_exact:
  assumes "5 \<le> length obs" "exact_from p t0 obs" "\<bar>lat_deg p\<bar> \<le> 90" "- 180 \<le> lon_deg p" "lon_deg p < 180"
    "list_ex (\<lambda>ob. dist (to_ecef p) (obs_rx ob) \<le> 4000000) obs"
    "1 / 10 ^ 30 \<le> \<bar>det3 (normal_matrix obs (lat_deg p) (lon_deg p) (alt_m p) t0)\<bar>"
  shows "\<exists>sol. solve_robust obs (alt_m p) p = Some sol \<and> pos sol = p \<and> t_tx sol = t0 \<and> rms_s sol = 0 \<and> err_est_m sol = 0"
proof -
  obtain sol where sol: "solve obs (alt_m p) p = Some sol" "pos sol = p" "t_tx sol = t0" "rms_s sol = 0" "err_est_m sol = 0"
    using solve_exact [OF _ assms(2-7)] assms(1) by auto
  have "0 \<le> sum_list (map (\<lambda>ob. err_s ob * err_s ob) obs)"
    by (rule sum_list_nonneg) auto
  then have "across_the_line obs (alt_m p) sol = Some sol"
    using assms(1) by (simp add: across_the_line_def sol(4) LOBE_TEST_RMS_FACTOR_def Let_def)
  then show ?thesis
    using sol by (simp add: solve_robust_def)
qed


text \<open>An aircraft above the equator, heard at three sites 100 km east, west and north of it, at two of them twice.\<close>

definition example_obs :: "observation list" where
  "example_obs =
     (let ob = (\<lambda>y z. \<lparr>obs_rx = \<lparr>ecef_x = 6381185, ecef_y = y, ecef_z = z\<rparr>, t_s = 100000 / C_MPS, err_s = 1\<rparr>)
      in [ob 100000 0, ob (- 100000) 0, ob 0 100000, ob (- 100000) 0, ob 0 100000])"

lemma half_sin: "0 < x \<Longrightarrow> x \<le> 1 \<Longrightarrow> x / 2 \<le> sin (x :: real)"
proof -
  assume x: "0 < x" "x \<le> 1"
  have "\<bar>sin x - x\<bar> \<le> inverse (fact 3) * \<bar>x\<bar> ^ 3"
    using Maclaurin_sin_bound [of x 3] by (simp add: sin_coeff_def lessThan_Suc eval_nat_numeral)
  moreover have "x ^ 3 \<le> x"
    using x power_decreasing [of 1 3 x] by simp
  moreover have "x - sin x \<le> \<bar>sin x - x\<bar>"
    by simp
  moreover have "inverse (fact 3) * \<bar>x\<bar> ^ 3 = x ^ 3 / 6"
    using x by (simp add: fact_numeral)
  ultimately show ?thesis
    using x by linarith
qed

definition small_angle :: real where "small_angle = to_radians (1 / 10 ^ 5)"

lemma small_angle_bounds: "5 / 10 ^ 8 \<le> sin small_angle" "sin small_angle \<le> 1"
proof -
  have "1 / 10 ^ 7 \<le> small_angle" "small_angle \<le> 1"
    using pi_ge_two pi_less_4 by (simp_all add: small_angle_def to_radians_def)
  then show "5 / 10 ^ 8 \<le> sin small_angle"
    using half_sin [of small_angle] by simp
qed simp

lemma det_gram5:
  "det3 (jtj_of [(b, c, 1), (b, c', 1), (a, e, 1), (b, c', 1), (a, e, 1)]) = 4 * ((c - c') * (a - b)) ^ 2"
  by (simp add: jtj_of_def algebra_simps power2_eq_square)


lemma sqrt_gap:
  assumes "0 \<le> u" "u \<le> v" "v \<le> (2 * 10 ^ 7) ^ 2"
  shows "(v - u) / (4 * 10 ^ 7) \<le> sqrt v - sqrt u"
proof -
  have s: "0 \<le> sqrt u" "sqrt u \<le> sqrt v"
    using assms by simp_all
  have "sqrt v \<le> 2 * 10 ^ 7"
    by (rule real_le_lsqrt) (use assms in simp_all)
  then have "sqrt v + sqrt u \<le> 4 * 10 ^ 7"
    using s by linarith
  then have "(sqrt v - sqrt u) * (sqrt v + sqrt u) \<le> (sqrt v - sqrt u) * (4 * 10 ^ 7)"
    using s by (intro mult_left_mono) simp_all
  moreover have "(sqrt v - sqrt u) * (sqrt v + sqrt u) = v - u"
    using assms by (simp add: algebra_simps)
  ultimately show ?thesis
    by simp
qed

text \<open>The aircraft, and where it would be a hundred-thousandth of a degree further north or east.\<close>

lemma example_places:
  "to_ecef \<lparr>lat_deg = 0, lon_deg = 0, alt_m = 3048\<rparr> = \<lparr>ecef_x = 6381185, ecef_y = 0, ecef_z = 0\<rparr>"
  "to_ecef \<lparr>lat_deg = 0, lon_deg = 1 / 100000, alt_m = 3048\<rparr> = \<lparr>ecef_x = 6381185 * cos small_angle, ecef_y = 6381185 * sin small_angle, ecef_z = 0\<rparr>"
  by (simp_all add: to_ecef_def Let_def WGS84_A_def small_angle_def to_radians_def)

lemma example_north:
  obtains x z where "to_ecef \<lparr>lat_deg = 1 / 100000, lon_deg = 0, alt_m = 3048\<rparr> = \<lparr>ecef_x = x, ecef_y = 0, ecef_z = z\<rparr>"
    "\<bar>x\<bar> \<le> 8000000" "3 / 10 \<le> z" "z \<le> 8000000"
proof -
  define q where "q = 1 - WGS84_E2 * sin small_angle * sin small_angle"
  define n where "n = WGS84_A / sqrt q"
  have e2: "0 \<le> WGS84_E2" "WGS84_E2 \<le> 1 / 100"
    by (simp_all add: WGS84_E2_def WGS84_F_def)
  have "0 \<le> sin small_angle * sin small_angle" "sin small_angle * sin small_angle \<le> 1"
    using small_angle_bounds by (simp_all add: mult_le_one)
  then have "0 \<le> WGS84_E2 * (sin small_angle * sin small_angle)" "WGS84_E2 * (sin small_angle * sin small_angle) \<le> 1 / 100 * 1"
    using e2 by (simp, intro mult_mono) simp_all
  then have q: "99 / 100 \<le> q" "q \<le> 1"
    by (simp_all add: q_def mult.assoc)
  then have "9 / 10 \<le> sqrt q" "sqrt q \<le> 1"
    using real_le_rsqrt [of "9 / 10" q] by (simp_all add: power2_eq_square)
  then have n: "6378137 \<le> n" "n \<le> 7100000"
    using q by (simp_all add: n_def WGS84_A_def le_divide_eq divide_le_eq)
  have m: "6300000 \<le> n * (1 - WGS84_E2) + 3048" "n * (1 - WGS84_E2) + 3048 \<le> 7200000"
    using mult_mono [of 6378137 n "99 / 100" "1 - WGS84_E2"] mult_mono [of n 7100000 "1 - WGS84_E2" 1] n e2 by simp_all
  have "3 / 10 \<le> (n * (1 - WGS84_E2) + 3048) * sin small_angle"
    using mult_mono [OF m(1) small_angle_bounds(1)] m by simp
  moreover have "(n * (1 - WGS84_E2) + 3048) * sin small_angle \<le> 7200000 * 1"
    by (rule mult_mono) (use m small_angle_bounds in simp_all)
  moreover have "\<bar>(n + 3048) * cos small_angle\<bar> \<le> 7200000 * 1"
    unfolding abs_mult by (rule mult_mono) (use n in simp_all)
  moreover have "to_ecef \<lparr>lat_deg = 1 / 100000, lon_deg = 0, alt_m = 3048\<rparr> =
      \<lparr>ecef_x = (n + 3048) * cos small_angle, ecef_y = 0, ecef_z = (n * (1 - WGS84_E2) + 3048) * sin small_angle\<rparr>"
    by (simp add: to_ecef_def Let_def n_def q_def small_angle_def to_radians_def)
  ultimately show thesis
    using that by simp
qed


lemma example_determined: "1 / 10 ^ 30 \<le> \<bar>det3 (normal_matrix example_obs 0 0 3048 0)\<bar>"
proof -
  obtain x z where north: "to_ecef \<lparr>lat_deg = 1 / 100000, lon_deg = 0, alt_m = 3048\<rparr> = \<lparr>ecef_x = x, ecef_y = 0, ecef_z = z\<rparr>"
      and x: "\<bar>x\<bar> \<le> 8000000" and z: "3 / 10 \<le> z" "z \<le> 8000000"
    by (rule example_north)
  define cd where "cd = C_MPS / 10 ^ 5"
  define y where "y = 6381185 * sin small_angle"
  define q where "q = (6381185 * cos small_angle - 6381185) ^ 2"
  define b where "b = sqrt ((x - 6381185) ^ 2 + 100000 ^ 2 + z ^ 2)"
  define a where "a = sqrt ((x - 6381185) ^ 2 + (z - 100000) ^ 2)"
  define c where "c = sqrt (q + (y - 100000) ^ 2)"
  define c' where "c' = sqrt (q + (y + 100000) ^ 2)"
  define e where "e = sqrt (q + y ^ 2 + 100000 ^ 2)"
  let ?s = "\<lambda>d. (d - 100000) / cd"
  have cd: "cd = 2997.92458"
    by (simp add: cd_def C_MPS_def)
  have rows: "jacobian example_obs 0 0 3048 0 = [(?s b, ?s c, 1), (?s b, ?s c', 1), (?s a, ?s e, 1), (?s b, ?s c', 1), (?s a, ?s e, 1)]"
    by (simp add: jacobian_rows example_obs_def flight_slope_def weight_of_def jac_dlat_def jac_dlon_def example_places north dist_def Let_def
        to_radians_def cd_def y_def q_def a_def b_def c_def c'_def e_def)
  have "(x - 6381185) ^ 2 \<le> 15000000 ^ 2" "z ^ 2 \<le> 8000000 ^ 2"
    by (rule power2_le_iff_abs_le [THEN iffD2]; use x z in \<open>simp add: abs_le_iff\<close>)+
  then have "((x - 6381185) ^ 2 + 100000 ^ 2 + z ^ 2 - ((x - 6381185) ^ 2 + (z - 100000) ^ 2)) / (4 * 10 ^ 7) \<le> b - a"
    unfolding a_def b_def by (intro sqrt_gap) (simp, use z in \<open>simp_all add: power2_diff [of z 100000]\<close>)
  then have ab: "1 / 1000 \<le> b - a"
    using z by (simp add: power2_diff)
  have y: "0.319 \<le> y" "y \<le> 6381185"
    using small_angle_bounds by (simp_all add: y_def)
  have "\<bar>6381185 * cos small_angle - 6381185\<bar> \<le> 12762370"
    using cos_ge_minus_one [of small_angle] cos_le_one [of small_angle] by linarith
  then have "q \<le> 12762370 ^ 2"
    unfolding q_def by (subst power2_le_iff_abs_le) simp_all
  moreover have "(y + 100000) ^ 2 \<le> 6481185 ^ 2" "0 \<le> q"
    using y by (intro power_mono) (simp_all add: q_def)
  moreover have "(y - 100000) ^ 2 \<le> (y + 100000) ^ 2"
    using y by (simp add: power2_diff power2_sum)
  ultimately have "(q + (y + 100000) ^ 2 - (q + (y - 100000) ^ 2)) / (4 * 10 ^ 7) \<le> c' - c"
    unfolding c_def c'_def by (intro sqrt_gap) simp_all
  then have cc: "1 / 1000 \<le> c' - c"
    using y by (simp add: power2_diff power2_sum)
  have "1 / 10 ^ 7 \<le> (b - a) / cd" "1 / 10 ^ 7 \<le> (c' - c) / cd"
    using ab cc by (simp_all add: cd)
  then have "1 / 10 ^ 7 * (1 / 10 ^ 7) \<le> (c' - c) / cd * ((b - a) / cd)"
    using ab cc by (intro mult_mono) (simp_all add: cd)
  then have "(1 / 10 ^ 7 * (1 / 10 ^ 7)) ^ 2 \<le> ((c' - c) / cd * ((b - a) / cd)) ^ 2"
    by (intro power_mono) simp_all
  moreover have "(?s c - ?s c') * (?s a - ?s b) = (c' - c) / cd * ((b - a) / cd)"
    by (simp add: cd field_simps)
  then have "det3 (normal_matrix example_obs 0 0 3048 0) = 4 * ((c' - c) / cd * ((b - a) / cd)) ^ 2"
    unfolding normal_matrix_def rows det_gram5 by simp
  moreover have "1 / 10 ^ 30 \<le> 4 * (1 / 10 ^ 7 * (1 / 10 ^ 7) :: real) ^ 2"
    by (simp add: power2_eq_square)
  ultimately show ?thesis
    by linarith
qed

end
