(* ===== verification/Perfect.thy ===== *)
theory Perfect
  imports Exact Publish
begin

text \<open>
  From exact arrivals to a published fix: \<open>solve_group\<close> and \<open>solve_cluster\<close> of
  \<^verbatim>\<open>crates/mlatd/src/state.rs\<close> composed with the solver on perfect data of \<open>Exact\<close>, under the
  assumption that the search starts at the true position, so that nothing is said of how far
  it converges. The example is a shard that does publish.
\<close>

subsection \<open>What a group is solved from\<close>

text \<open>The receptions of a group on the clock of its elected receiver, in order of time.\<close>

definition on_one_clock :: "state \<Rightarrow> nat \<Rightarrow> rx_group \<Rightarrow> (nat \<times> real \<times> real \<times> real) list" where
  "on_one_clock s ref g = sort_key (\<lambda>c. fst (snd c)) (converted s (firsts (map fst (g_entries g))) ref (g_entries g))"

definition observed :: "state \<Rightarrow> (nat \<times> real \<times> real \<times> real) list \<Rightarrow> observation list" where
  "observed s cs = map (\<lambda>(rx, t, sigma, at_t). \<lparr>obs_rx = rx_ecef (st_receivers s ! rx), t_s = t + bias_s (rx_bias s ! rx), err_s = sigma\<rparr>) cs"

text \<open>Every reception is from a connected receiver in good standing, and no receiver has two.\<close>

definition all_good :: "state \<Rightarrow> (nat \<times> real \<times> real \<times> real) list \<Rightarrow> bool" where
  "all_good s cs \<longleftrightarrow> list_all (\<lambda>c. alive s ! fst c \<and> \<not> quarantined (rx_bias s ! fst c)) cs \<and> distinct (map fst cs)"

lemma gather_all_good:
  assumes "all_good s cs" "set (map fst cs) \<inter> sn = {}"
  shows "snd (gather s cs sn) = [] \<and> map (\<lambda>u. fst (snd u)) (fst (gather s cs sn)) = observed s cs \<and>
    map fst (fst (gather s cs sn)) = map fst cs \<and>
    map (\<lambda>u. fst (snd (snd u))) (fst (gather s cs sn)) = map (\<lambda>c. user (st_receivers s ! fst c)) cs"
  using assms
proof (induction s cs sn rule: gather.induct)
  case (2 s rx t sigma at_t cs sn)
  have "all_good s cs" "set (map fst cs) \<inter> insert rx sn = {}"
    using "2.prems" by (auto simp: all_good_def)
  from "2.IH" [OF this] show ?case
    using "2.prems" by (auto simp: all_good_def observed_def Let_def case_prod_beta)
qed (simp add: observed_def)

text \<open>Arrivals that are all within the span of a cluster are one cluster.\<close>

lemma one_cluster:
  assumes "c \<in> set cs" "\<forall>d \<in> set cs. fst (snd d) - fst (snd (hd cs)) \<le> CLUSTER_SPAN_S"
  shows "clusters cs = [cs]"
  using assms by (cases cs) (simp_all add: takeWhile_eq_all_conv [THEN iffD2] dropWhile_eq_Nil_conv [THEN iffD2])

lemma keep_best_few: "length xs \<le> 16 \<Longrightarrow> keep_best xs = xs"
  by (simp add: keep_best_def)

subsection \<open>Through the gates\<close>

text \<open>The position the search starts at is the last one while that is fresh: the speed between them is none.\<close>

lemma start_not_too_fast:
  assumes "start_position s trk t alt ids = p" "alt_m p = alt" "pos sol = p" "last_time_scaled trk \<le> t"
  shows "\<not> too_fast trk (t - last_time_scaled trk) sol"
proof (cases "last_pos trk")
  case (Some q)
  then have "haversine_m p q = 0 \<or> 60 \<le> t - last_time_scaled trk"
    using assms(1) haversine_lat_lon(1) [where p = q and q = q and h = alt] by (auto simp: start_position_def haversine_m_def haversine_a_def to_radians_def Let_def split: if_splits)
  then show ?thesis
    using assms(3) Some by (auto simp: too_fast_def)
qed (simp add: too_fast_def)

lemma exact_passes:
  assumes "start_position s trk t alt ids = p" "alt_m p = alt" "pos sol = p" "last_time_scaled trk \<le> t" "err_est_m sol = 0"
  shows "passes trk t None sol"
  using start_not_too_fast [OF assms(1-4)] assms(4,5) by (simp add: passes_def Let_def MAX_ERR_M_def THROTTLE_SCALE_M_def not_less)

lemma judge_fix_passed:
  assumes "passes trk t gate sol"
  shows "judge_fix i False t stamp alt_ft trk gate used [] members sol s = publish_fix i t stamp alt_ft used members sol s"
  using assms by (auto simp: passes_def judge_fix_def Let_def)


subsection \<open>The fix\<close>

text \<open>
  What a shard needs for a fix at \<open>p\<close>: an aircraft whose altitude is known and is that of \<open>p\<close>,
  the backoff and any last fix in the past, five to sixteen receptions which have the arrival
  times of a transmission from \<open>p\<close> at \<open>t0\<close>, some receiver within range, a geometry that determines
  the position, and a search that starts there.
\<close>

definition sharp :: "state \<Rightarrow> real \<Rightarrow> icao \<Rightarrow> int \<Rightarrow> geodetic \<Rightarrow> real \<Rightarrow> (nat \<times> real \<times> real \<times> real) list \<Rightarrow> bool" where
  "sharp s now i ft p t0 cs \<longleftrightarrow>
     (let t = scaled_now s now; trk = track_of s i; obs = observed s cs
      in alts_ft s i = Some ft \<and> alt_m p = of_int ft * 0.3048 \<and> \<bar>lat_deg p\<bar> \<le> 90 \<and> - 180 \<le> lon_deg p \<and> lon_deg p < 180 \<and>
         RESOLVE_BACKOFF_S \<le> t - last_attempt_scaled trk \<and> last_time_scaled trk \<le> t \<and>
         start_position s trk t (alt_m p) (map fst cs) = p \<and>
         all_good s cs \<and> 5 \<le> length cs \<and> length cs \<le> 16 \<and> exact_from p t0 obs \<and>
         list_ex (\<lambda>ob. dist (to_ecef p) (obs_rx ob) \<le> 4000000) obs \<and>
         1 / 10 ^ 30 \<le> \<bar>det3 (normal_matrix obs (lat_deg p) (lon_deg p) (alt_m p) t0)\<bar>)"

lemma sharp_cluster:
  assumes "sharp s now i ft p t0 cs"
  shows "\<exists>stamp sol s1. pos sol = p \<and> t_tx sol = t0 \<and> rms_s sol = 0 \<and> err_est_m sol = 0 \<and>
    shard_id s1 = shard_id s \<and> out s1 = out s \<and> st_receivers s1 = st_receivers s \<and> alive s1 = alive s \<and>
    solve_cluster s now i False ref cs members = publish_fix i (scaled_now s now) stamp ft (fst (gather s cs {})) members sol s1"
proof -
  define used where "used = fst (gather s cs {})"
  have g: "gather s cs {} = (used, [])" "map (\<lambda>u. fst (snd u)) used = observed s cs" "map fst used = map fst cs"
    using gather_all_good [of s cs "{}"] assms by (auto simp: sharp_def Let_def used_def prod_eq_iff)
  have len: "length used = length cs"
    using arg_cong [OF g(3), of length] by simp
  obtain sol where sol: "solve_robust (observed s cs) (alt_m p) p = Some sol" "pos sol = p" "t_tx sol = t0" "rms_s sol = 0" "err_est_m sol = 0"
    using solve_robust_exact [of "observed s cs" p t0] assms by (auto simp: sharp_def Let_def observed_def)
  have pass: "passes (track_of s i) (scaled_now s now) None sol"
    using exact_passes [OF _ refl sol(2) _ sol(5)] assms by (auto simp: sharp_def Let_def)
  define m where "m = min_of (map (\<lambda>u. t_s (fst (snd u))) used)"
  define off where "off = next_offset (stamp_offset s ref) (min_of (map (\<lambda>u. snd (snd (snd u))) used) - m)"
  define s1 where "s1 = s\<lparr>stamp_offset := (stamp_offset s)(ref \<mapsto> off),
    tracks := (tracks s)(i \<mapsto> (track_of s i)\<lparr>last_attempt_scaled := scaled_now s now\<rparr>)\<rparr>"
  have n: "\<not> length used < 4" "length used \<noteq> 4" "length used \<le> 16" "alts_ft s i = Some ft"
      "\<not> scaled_now s now - last_attempt_scaled (track_of s i) < RESOLVE_BACKOFF_S"
      "start_position s (track_of s i) (scaled_now s now) (alt_m p) (map fst cs) = p" and ft: "of_int ft * 0.3048 = alt_m p"
    using assms len by (auto simp: sharp_def Let_def)
  have "solve_cluster s now i False ref cs members =
      judge_fix i False (scaled_now s now) (m + off) ft (track_of s i) None used [] members sol s1"
    using n(6) [folded ft] sol(1) [folded ft] unfolding solve_cluster_def g(1)
    by (simp add: Let_def stamp_tracks_frame n(1-5) g keep_best_few s1_def off_def m_def
        split del: if_split cong: if_cong option.case_cong)
  then have "solve_cluster s now i False ref cs members = publish_fix i (scaled_now s now) (m + off) ft used members sol s1"
    by (simp add: judge_fix_passed [OF pass])
  then show ?thesis
    using sol(2-5) by (intro exI [of _ "m + off"] exI [of _ sol] exI [of _ s1]) (simp add: s1_def used_def)
qed

lemma on_one_clock_members:
  assumes "distinct (map fst (on_one_clock s ref g))"
  shows "length (on_one_clock s ref g) \<le> length (firsts (map fst (g_entries g)))"
proof -
  have "set (map fst (on_one_clock s ref g)) \<subseteq> set (firsts (map fst (g_entries g)))"
    by (auto simp: on_one_clock_def firsts_set dest!: converted_receivers)
  then show ?thesis
    using card_mono [OF finite_set] distinct_card [OF assms] distinct_card [OF firsts_distinct] by (metis length_map)
qed

lemma solve_group_one_cluster:
  assumes "elect_local_ref s (firsts (map fst (g_entries g))) = Some ref"
    and "distinct (map fst (on_one_clock s ref g))" "4 \<le> length (on_one_clock s ref g)"
    and "list_all (\<lambda>c. fst (snd c) - fst (snd (hd (on_one_clock s ref g))) \<le> CLUSTER_SPAN_S) (on_one_clock s ref g)"
  shows "solve_group clk s g =
    solve_cluster s (clk 0) (g_icao g) (g_df17 g) ref (on_one_clock s ref g) (firsts (map fst (g_entries g)))"
proof -
  have "clusters (on_one_clock s ref g) = [on_one_clock s ref g]"
    using assms(3,4) by (intro one_cluster [where c = "hd (on_one_clock s ref g)"]) (auto simp: list_all_iff intro: hd_in_set)
  then show ?thesis
    using on_one_clock_members [OF assms(2)] assms(1,3)
    by (simp add: solve_group_def Let_def on_one_clock_def [symmetric]) (simp add: on_one_clock_def)
qed

text \<open>
  Exact arrivals are published: let the receptions of a group fall into one cluster on the
  clock of the elected receiver and be exactly those of a transmission from \<open>p\<close>, heard by
  five to sixteen receivers, and let \<open>sharp\<close> hold: the altitude is known, the backoff over, the
  geometry determines the position, and the search starts at \<open>p\<close>. Then the group leaves the
  shard as one row at \<open>p\<close>, with error zero, from all receivers that took part, to the
  receivers that heard it within range.
\<close>

lemma exact_group_published:
  assumes "elect_local_ref s (firsts (map fst (g_entries g))) = Some ref" "\<not> g_df17 g"
    and "sharp s (clk 0) (g_icao g) ft p t0 (on_one_clock s ref g)"
    and "list_all (\<lambda>c. fst (snd c) - fst (snd (hd (on_one_clock s ref g))) \<le> CLUSTER_SPAN_S) (on_one_clock s ref g)"
  shows "\<exists>r. out (solve_group clk s g) = map_option (\<lambda>ms. ms @ [OutFix r]) (out s) \<and>
    or_icao r = g_icao g \<and> or_lat r = lat_deg p \<and> or_lon r = lon_deg p \<and> or_alt_ft r = ft \<and> or_err_m r = 0 \<and>
    or_users r = map (\<lambda>c. user (st_receivers s ! fst c)) (on_one_clock s ref g) \<and>
    or_recipients r = recipients s (firsts (map fst (g_entries g))) p \<and> or_shard r = shard_id s"
proof -
  let ?cs = "on_one_clock s ref g" and ?members = "firsts (map fst (g_entries g))"
  have good: "all_good s ?cs" "5 \<le> length ?cs" "distinct (map fst ?cs)"
    using assms(3) by (auto simp: sharp_def Let_def all_good_def)
  obtain stamp sol s1 where S: "pos sol = p" "err_est_m sol = 0" "shard_id s1 = shard_id s" "out s1 = out s"
      "st_receivers s1 = st_receivers s" "alive s1 = alive s"
      "solve_group clk s g = publish_fix (g_icao g) (scaled_now s (clk 0)) stamp ft (fst (gather s ?cs {})) ?members sol s1"
    using sharp_cluster [OF assms(3), of ref ?members] solve_group_one_cluster [OF assms(1) good(3) _ assms(4), of clk] good(2) assms(2)
    by auto
  obtain sm where sm: "sends s1 (solve_group clk s g) [OutFix (row_of s1 (g_icao g) stamp ft (fst (gather s ?cs {})) ?members sol sm)]"
    unfolding S(7) using publish_sends(1) by blast
  have "map (\<lambda>u. fst (snd (snd u))) (fst (gather s ?cs {})) = map (\<lambda>c. user (st_receivers s ! fst c)) ?cs"
    using gather_all_good [OF good(1), of "{}"] by simp
  then show ?thesis
    using sm recipients_frame [OF S(5,6)] unfolding sends_def S(4)
    by (intro exI [of _ "row_of s1 (g_icao g) stamp ft (fst (gather s ?cs {})) ?members sol sm"]) (simp add: row_of_def S)
qed

subsection \<open>Example\<close>

text \<open>Five receivers at the places of \<open>example_obs\<close>, with clocks that agree, and an aircraft last seen at the true position.\<close>

definition example_model :: pair_model where
  "example_model = pair_default\<lparr>pm_w := 8, caa := 100, cab := 100\<rparr>"

definition example_receivers :: "receiver_info list" where
  "example_receivers =
     map (\<lambda>(u, ob). \<lparr>user = u, uid = length u, uuid = None, privacy = False, connection_info = [], source_ip = [], source_port = 0,
        geo = \<lparr>lat_deg = 0, lon_deg = 0, alt_m = 3048\<rparr>, rx_ecef = obs_rx ob, freq_hz = 12000000, gps = False, jitter_s = 1, last_read = 0\<rparr>)
       (zip [''a'', ''ab'', ''abc'', ''abcd'', ''abcde''] example_obs)"

definition example_shard :: state where
  "example_shard = (set_output (state_new 0 1 False False (0, 0) 0))
     \<lparr>alive := replicate 5 True, rx_bias := replicate 5 bias_default, st_receivers := example_receivers,
      pairs := (\<lambda>_. Some example_model), alts_ft := [Icao 7 \<mapsto> 10000],
      tracks := [Icao 7 \<mapsto> track_default\<lparr>last_pos := Some \<lparr>lat_deg = 0, lon_deg = 0, alt_m = 0\<rparr>\<rparr>]\<rparr>"

definition example_group :: rx_group where
  "example_group = \<lparr>g_created = 0, g_icao = Icao 7, g_df17 = False, g_entries = map (\<lambda>k. (k, 100000 / C_MPS, 0)) [0, 1, 2, 3, 4]\<rparr>"

lemma example_convert: "usable example_model" "convert example_model t = Some (t, 0)"
  by (simp_all add: example_model_def usable_def convert_def predict_unchecked_def pair_beta_def pair_default_def Let_def
      MIN_WEIGHT_def MIN_SPAN_S_def MAX_PRED_SIGMA_S_def power2_eq_square)

lemma example_members: "firsts (map fst (g_entries example_group)) = [0, 1, 2, 3, 4]"
  by (simp add: example_group_def firsts_def)

lemma example_elected: "elect_local_ref example_shard [0, 1, 2, 3, 4] = Some 4"
  by (simp add: elect_local_ref_def pair_usable_def example_shard_def example_convert)

lemma example_clock: "on_one_clock example_shard 4 example_group = map (\<lambda>k. (k, 100000 / C_MPS, 1, 0)) [0, 1, 2, 3, 4]"
proof -
  have "converted example_shard [0, 1, 2, 3, 4] 4 (g_entries example_group) = map (\<lambda>k. (k, 100000 / C_MPS, 1, 0)) [0, 1, 2, 3, 4]"
    by (simp add: converted_def example_group_def to_ref_def pair_convert_def example_shard_def example_convert
        example_receivers_def example_obs_def Let_def List.map_filter_simps)
  then show ?thesis
    unfolding on_one_clock_def example_members by (simp add: sort_key_id_if_sorted)
qed

lemma example_observed: "observed example_shard (map (\<lambda>k. (k, 100000 / C_MPS, 1, 0)) [0, 1, 2, 3, 4]) = example_obs"
  by (simp add: observed_def example_shard_def example_receivers_def example_obs_def bias_default_def Let_def)

lemma example_sharp:
  "sharp example_shard 1 (Icao 7) 10000 \<lparr>lat_deg = 0, lon_deg = 0, alt_m = 3048\<rparr> 0 (map (\<lambda>k. (k, 100000 / C_MPS, 1, 0)) [0, 1, 2, 3, 4])"
proof -
  have "exact_from \<lparr>lat_deg = 0, lon_deg = 0, alt_m = 3048\<rparr> 0 example_obs"
    "list_ex (\<lambda>ob. dist (to_ecef \<lparr>lat_deg = 0, lon_deg = 0, alt_m = 3048\<rparr>) (obs_rx ob) \<le> 4000000) example_obs"
    by (simp_all add: exact_from_def example_obs_def example_places dist_def Let_def)
  moreover have "all_good example_shard (map (\<lambda>k. (k, 100000 / C_MPS, 1, 0)) [0, 1, 2, 3, 4])"
    by (simp add: all_good_def example_shard_def bias_default_def quarantined_def QUARANTINE_MIN_N_def)
  ultimately show ?thesis
    unfolding sharp_def Let_def example_observed using example_determined
    by (simp add: track_of_def scaled_now_def start_position_def example_shard_def set_output_def state_new_def track_default_def RESOLVE_BACKOFF_S_def)
qed

lemma example_publishes:
  "\<exists>r. out (solve_group (\<lambda>_. 1) example_shard example_group) = Some [OutFix r] \<and> or_icao r = Icao 7 \<and> or_lat r = 0 \<and> or_lon r = 0 \<and>
     or_alt_ft r = 10000 \<and> or_err_m r = 0 \<and> or_users r = [''a'', ''ab'', ''abc'', ''abcd'', ''abcde'']"
proof -
  have g: "\<not> g_df17 example_group" "g_icao example_group = Icao 7"
    by (simp_all add: example_group_def)
  note P = exact_group_published [where s = example_shard and g = example_group and ref = 4 and clk = "\<lambda>_. 1", unfolded example_members example_clock,
      OF example_elected g(1) example_sharp [folded g(2)]]
  obtain r where "out (solve_group (\<lambda>_. 1) example_shard example_group) = map_option (\<lambda>ms. ms @ [OutFix r]) (out example_shard)"
      "or_icao r = Icao 7 \<and> or_lat r = 0 \<and> or_lon r = 0 \<and> or_alt_ft r = 10000 \<and> or_err_m r = 0"
      "or_users r = map (\<lambda>c. user (st_receivers example_shard ! fst c)) (map (\<lambda>k. (k, 100000 / C_MPS, 1 :: real, 0 :: real)) [0, 1, 2, 3, 4])"
    using P by (simp add: g CLUSTER_SPAN_S_def) blast
  then show ?thesis
    by (intro exI [of _ r]) (simp add: example_shard_def set_output_def example_receivers_def example_obs_def Let_def)
qed

end
