(* ===== verification/Files.thy ===== *)
theory Files
  imports Workdir
begin

text \<open>
  The files of the work directory: \<open>write_atomic\<close> of \<^verbatim>\<open>crates/mlatd/src/main.rs\<close> and the four
  documents that each export writes with it. A file system is a map from paths to contents.
  An operation gives the successive file systems that another process can observe; a write
  can fail at once or break off anywhere, a rename happens at one instant or not at all. The
  serialiser is the parameter \<open>to_vec\<close>.
\<close>

type_synonym file_system = "string \<rightharpoonup> bytes"

subsection \<open>Paths\<close>

definition path_join :: "string \<Rightarrow> string \<Rightarrow> string" where
  "path_join dir name = (if dir = [] \<or> last dir = CHR ''/'' then dir @ name else dir @ [CHR ''/''] @ name)"

text \<open>The last dot of the file name, unless it is its first character, starts the extension.\<close>

definition with_extension :: "string \<Rightarrow> string \<Rightarrow> string" where
  "with_extension path ext =
     (let name = takeWhile (\<lambda>c. c \<noteq> CHR ''/'') (rev path); dir = rev (drop (length name) (rev path));
          stem = tl (dropWhile (\<lambda>c. c \<noteq> CHR ''.'') name)
      in dir @ (if stem = [] then rev name else rev stem) @ ''.'' @ ext)"

subsection \<open>Operations\<close>

datatype write_end = CannotOpen | BreaksOff nat | Completes

definition fs_write :: "write_end \<Rightarrow> string \<Rightarrow> bytes \<Rightarrow> file_system \<Rightarrow> file_system list \<times> bool" where
  "fs_write how path bs fs =
     (let upto = (\<lambda>n. map (\<lambda>k. fs(path \<mapsto> take k bs)) [0..<Suc n])
      in case how of CannotOpen \<Rightarrow> ([], False) | BreaksOff n \<Rightarrow> (upto n, False) | Completes \<Rightarrow> (upto (length bs), True))"

definition fs_rename :: "bool \<Rightarrow> string \<Rightarrow> string \<Rightarrow> file_system \<Rightarrow> file_system list" where
  "fs_rename ok old new fs = (if ok then [fs(new := fs old, old := None)] else [])"

definition document_bytes :: "('v \<Rightarrow> bytes option) \<Rightarrow> 'v \<Rightarrow> bytes" where
  "document_bytes to_vec v = (case to_vec v of Some bs \<Rightarrow> bs | None \<Rightarrow> [])"

definition write_atomic ::
  "('v \<Rightarrow> bytes option) \<Rightarrow> write_end \<Rightarrow> bool \<Rightarrow> string \<Rightarrow> 'v \<Rightarrow> file_system \<Rightarrow> file_system list" where
  "write_atomic to_vec how rename_ok path v fs =
     (let tmp = with_extension path ''json.tmp'';
          (states, ok) = fs_write how tmp (document_bytes to_vec v) fs
      in if ok then states @ fs_rename rename_ok tmp path (last (fs # states)) else states)"

text \<open>The documents of one export, each written after the one before.\<close>

definition work_documents ::
  "((string \<rightharpoonup> sync_row) \<Rightarrow> 'v) \<Rightarrow> ((string \<rightharpoonup> client_row) \<Rightarrow> 'v) \<Rightarrow> ((icao \<rightharpoonup> aircraft_row) \<Rightarrow> 'v) \<Rightarrow> (cell_row list \<Rightarrow> 'v) \<Rightarrow>
   work_dir \<Rightarrow> router \<Rightarrow> (string \<times> 'v) list" where
  "work_documents js jc ja jp w r =
     [(''sync.json'', js (wd_sync w)), (''clients.json'', jc (wd_clients w)), (''aircraft.json'', ja (wd_aircraft w)),
      (''partition.json'', jp (partition_json r))]"

fun write_documents ::
  "('v \<Rightarrow> bytes option) \<Rightarrow> string \<Rightarrow> (write_end \<times> bool) list \<Rightarrow> (string \<times> 'v) list \<Rightarrow> file_system \<Rightarrow> file_system list" where
  "write_documents to_vec dir ((how, ok) # ends) ((name, v) # docs) fs =
     (let states = write_atomic to_vec how ok (path_join dir name) v fs
      in states @ write_documents to_vec dir ends docs (last (fs # states)))"
| "write_documents to_vec dir ends docs fs = []"

subsection \<open>Lemmas\<close>

definition work_names :: "string list" where
  "work_names = [''sync.json'', ''clients.json'', ''aircraft.json'', ''partition.json'']"

lemma with_extension_stem:
  assumes "CHR ''/'' \<notin> set stem" "stem \<noteq> []"
  shows "with_extension (path_join dir (stem @ ''.json'')) ''json.tmp'' = path_join dir (stem @ ''.json.tmp'')"
proof -
  define d where "d = path_join dir []"
  have d: "path_join dir name = d @ name" for name
    by (simp add: d_def path_join_def)
  have "d = [] \<or> (\<exists>e. d = e @ [CHR ''/''])"
    by (cases dir rule: rev_cases) (auto simp: d_def path_join_def)
  then have tw: "takeWhile (\<lambda>c. c \<noteq> CHR ''/'') (rev stem @ rev d) = rev stem"
    using assms(1) by (subst takeWhile_append2) auto
  have "rev (d @ stem @ ''.json'') = ''nosj.'' @ rev stem @ rev d"
    by simp
  then have name: "takeWhile (\<lambda>c. c \<noteq> CHR ''/'') (rev (d @ stem @ ''.json'')) = ''nosj.'' @ rev stem"
    by (simp only:) (simp add: tw)
  show ?thesis
    unfolding d with_extension_def name Let_def using assms(2) by simp
qed

lemma with_extension_document:
  assumes "name \<in> set work_names"
  shows "with_extension (path_join dir name) ''json.tmp'' = path_join dir (name @ ''.tmp'')"
  using assms with_extension_stem [of "''sync''" dir] with_extension_stem [of "''clients''" dir]
    with_extension_stem [of "''aircraft''" dir] with_extension_stem [of "''partition''" dir]
  by (auto simp: work_names_def)

lemma path_join_inj: "path_join dir a = path_join dir b \<longleftrightarrow> a = b"
  by (simp add: path_join_def)

text \<open>What an atomic write shows: every other path but the temporary one is left alone, and the document is old or new.\<close>

lemma write_atomic_states:
  assumes "tmp = with_extension path ''json.tmp''" "tmp \<noteq> path" "st \<in> set (write_atomic to_vec how ok path v fs)"
  shows "st path = fs path \<or> st path = Some (document_bytes to_vec v)" "q \<noteq> path \<Longrightarrow> q \<noteq> tmp \<Longrightarrow> st q = fs q"
  using assms by (auto simp: write_atomic_def fs_write_def fs_rename_def Let_def split: write_end.splits if_splits)

lemma write_atomic_completes:
  assumes "tmp = with_extension path ''json.tmp''" "tmp \<noteq> path"
  shows "last (fs # write_atomic to_vec Completes True path v fs) = fs(path \<mapsto> document_bytes to_vec v, tmp := None)"
  using assms by (auto simp: write_atomic_def fs_write_def fs_rename_def Let_def fun_eq_iff)


definition work_paths :: "string \<Rightarrow> string set" where
  "work_paths dir = path_join dir ` (set work_names \<union> (\<lambda>n. n @ ''.tmp'') ` set work_names)"

lemma tmp_not_document: "a \<in> set work_names \<Longrightarrow> b \<in> set work_names \<Longrightarrow> a @ ''.tmp'' \<noteq> b"
  by (auto simp: work_names_def)

text \<open>One document written among the others.\<close>

lemma write_document_states:
  assumes n: "name \<in> set work_names" and st: "st \<in> set (write_atomic to_vec how ok (path_join dir name) v fs)"
  shows "st (path_join dir name) = fs (path_join dir name) \<or> st (path_join dir name) = Some (document_bytes to_vec v)"
    and "b \<in> set work_names \<Longrightarrow> b \<noteq> name \<Longrightarrow> st (path_join dir b) = fs (path_join dir b)"
    and "q \<notin> work_paths dir \<Longrightarrow> st q = fs q"
proof -
  let ?tmp = "path_join dir (name @ ''.tmp'')"
  have tmp: "?tmp = with_extension (path_join dir name) ''json.tmp''" "?tmp \<noteq> path_join dir name"
    using with_extension_document [OF n] by (simp_all add: path_join_inj)
  note S = write_atomic_states [OF tmp st]
  show "st (path_join dir name) = fs (path_join dir name) \<or> st (path_join dir name) = Some (document_bytes to_vec v)"
    by (rule S(1))
  show "st (path_join dir b) = fs (path_join dir b)" if "b \<in> set work_names" "b \<noteq> name"
    by (rule S(2)) (use that tmp_not_document [OF n that(1)] in \<open>simp_all add: path_join_inj eq_commute\<close>)
  show "st q = fs q" if "q \<notin> work_paths dir"
    by (rule S(2)) (use that n in \<open>auto simp: work_paths_def\<close>)
qed

lemma last_states: "last (fs # states) = fs \<or> last (fs # states) \<in> set states"
  by (cases states) auto

lemma write_documents_states:
  assumes "distinct (map fst docs)" "set (map fst docs) \<subseteq> set work_names" "st \<in> set (write_documents to_vec dir ends docs fs)"
  shows "(\<forall>(name, v) \<in> set docs. st (path_join dir name) = fs (path_join dir name) \<or> st (path_join dir name) = Some (document_bytes to_vec v)) \<and>
    (\<forall>b \<in> set work_names. b \<notin> fst ` set docs \<longrightarrow> st (path_join dir b) = fs (path_join dir b)) \<and> (\<forall>q. q \<notin> work_paths dir \<longrightarrow> st q = fs q)"
  using assms
proof (induction to_vec dir ends docs fs rule: write_documents.induct)
  case (1 to_vec dir how ok ends name v docs fs)
  let ?states = "write_atomic to_vec how ok (path_join dir name) v fs"
  have name: "name \<in> set work_names" "name \<notin> fst ` set docs"
    using "1.prems"(1,2) by auto
  note W = write_document_states [OF name(1), of _ to_vec how ok dir v fs]
  define fs1 where "fs1 = last (fs # ?states)"
  have f1: "fs1 (path_join dir name) = fs (path_join dir name) \<or> fs1 (path_join dir name) = Some (document_bytes to_vec v)"
      "\<And>b. b \<in> set work_names \<Longrightarrow> b \<noteq> name \<Longrightarrow> fs1 (path_join dir b) = fs (path_join dir b)" "\<And>q. q \<notin> work_paths dir \<Longrightarrow> fs1 q = fs q"
    using last_states [of fs ?states, folded fs1_def] W by auto
  have sub: "b \<in> set work_names \<and> b \<noteq> name" if "b \<in> fst ` set docs" for b
    using that "1.prems"(1,2) by auto
  have docs: "b \<noteq> name" "b \<in> set work_names" if "(b, v') \<in> set docs" for b v'
    using sub [of b] that by force+
  from "1.prems"(3) consider "st \<in> set ?states" | "st \<in> set (write_documents to_vec dir ends docs fs1)"
    by (auto simp: Let_def fs1_def)
  then show ?case
  proof cases
    case 1
    then show ?thesis
      using W [OF 1] docs by auto
  next
    case 2
    have IH: "(\<forall>(name, v) \<in> set docs. st (path_join dir name) = fs1 (path_join dir name) \<or> st (path_join dir name) = Some (document_bytes to_vec v)) \<and>
        (\<forall>b \<in> set work_names. b \<notin> fst ` set docs \<longrightarrow> st (path_join dir b) = fs1 (path_join dir b)) \<and> (\<forall>q. q \<notin> work_paths dir \<longrightarrow> st q = fs1 q)"
      using "1.IH" [OF refl, folded fs1_def] 2 "1.prems"(1,2) by simp
    then have "st (path_join dir name) = fs1 (path_join dir name)"
      using name by blast
    then show ?thesis
      using IH f1 docs by auto
  qed
qed auto


lemma write_documents_complete:
  assumes "distinct (map fst docs)" "set (map fst docs) \<subseteq> set work_names" "(name, v) \<in> set docs"
  shows "last (fs # write_documents to_vec dir (replicate (length docs) (Completes, True)) docs fs) (path_join dir name) = Some (document_bytes to_vec v)"
  using assms
proof (induction docs arbitrary: fs)
  case (Cons d docs)
  obtain n u where d: "d = (n, u)"
    by fastforce
  define fs1 where "fs1 = last (fs # write_atomic to_vec Completes True (path_join dir n) u fs)"
  define rest where "rest = write_documents to_vec dir (replicate (length docs) (Completes, True)) docs fs1"
  have n: "n \<in> set work_names" "n \<notin> fst ` set docs"
    using Cons.prems(1,2) by (auto simp: d)
  have "last (fs # (as @ bs)) = last (last (fs # as) # bs)" for as bs :: "file_system list"
    by (simp add: last_append)
  then have l: "last (fs # write_documents to_vec dir (replicate (length (d # docs)) (Completes, True)) (d # docs) fs) = last (fs1 # rest)"
    by (simp add: d fs1_def rest_def Let_def)
  show ?case
  proof (cases "(name, v) \<in> set docs")
    case True
    then show ?thesis
      using Cons.IH [of fs1] Cons.prems(1,2) unfolding l rest_def by simp
  next
    case False
    then have e: "n = name" "u = v"
      using Cons.prems(3) by (auto simp: d)
    have "fs1 (path_join dir n) = Some (document_bytes to_vec u)"
      using write_atomic_completes [OF with_extension_document [OF n(1), of dir, symmetric], where to_vec = to_vec and v = u and fs = fs]
      by (simp add: fs1_def path_join_inj)
    moreover have "st (path_join dir n) = fs1 (path_join dir n)" if "st \<in> set rest" for st
      using write_documents_states [of docs st to_vec dir _ fs1] that n Cons.prems(1,2) unfolding rest_def d by simp
    then have "last (fs1 # rest) (path_join dir n) = fs1 (path_join dir n)"
      using last_states [of fs1 rest] by auto
    ultimately show ?thesis
      unfolding l e by simp
  qed
qed simp

subsection \<open>Properties\<close>

text \<open>
  C19. Readers see whole documents: at every moment of an export, whatever writes break off or
  renames fail, and also if the process dies there, each of the four documents is what it
  was before the export or the complete new one (empty where the serialiser fails, as the
  code has it), and nothing else in the file system has
  changed but the four temporary files; and an export none of whose operations fails leaves
  all four documents new.
\<close>

theorem readers_see_whole_documents:
  fixes js jc ja jp w r
  defines "docs \<equiv> work_documents js jc ja jp w r"
  shows "list_all (\<lambda>st. list_all (\<lambda>(name, v). st (path_join dir name) \<in> {fs (path_join dir name), Some (document_bytes to_vec v)}) docs \<and>
      st |` (- work_paths dir) = fs |` (- work_paths dir)) (write_documents to_vec dir ends docs fs) \<and>
    list_all (\<lambda>(name, v). last (fs # write_documents to_vec dir (replicate 4 (Completes, True)) docs fs) (path_join dir name) =
      Some (document_bytes to_vec v)) docs"
proof -
  have docs: "distinct (map fst docs)" "set (map fst docs) \<subseteq> set work_names" "length docs = 4"
    by (simp_all add: docs_def work_documents_def work_names_def)
  have "list_all (\<lambda>(name, v). st (path_join dir name) \<in> {fs (path_join dir name), Some (document_bytes to_vec v)}) docs \<and>
      st |` (- work_paths dir) = fs |` (- work_paths dir)" if "st \<in> set (write_documents to_vec dir ends docs fs)" for st
    using write_documents_states [OF docs(1,2) that] by (auto simp: list_all_iff restrict_map_def fun_eq_iff)
  moreover have "last (fs # write_documents to_vec dir (replicate 4 (Completes, True)) docs fs) (path_join dir name) = Some (document_bytes to_vec v)"
    if "(name, v) \<in> set docs" for name v
    using write_documents_complete [OF docs(1,2) that] docs(3) by simp
  ultimately show ?thesis
    unfolding list_all_iff by blast
qed

end
