(* ===== verification/Sockets.thy ===== *)
theory Sockets
  imports Prelude
begin

text \<open>
  The loops of \<^verbatim>\<open>crates/mlatd/src/main.rs\<close> around the sockets: the accept loops of the two
  listeners and the loop that dials an SBS consumer. What the operating system answers is the
  sequence of events; what a connection then does is in the theories \<open>Client\<close> and \<open>Downlink\<close>.
\<close>

subsection \<open>Accepting\<close>

datatype accept_event = Accepted | AcceptFails

text \<open>The uids handed to the connections; a failed accept pauses and is tried again.\<close>

fun accept_loop :: "nat \<Rightarrow> accept_event list \<Rightarrow> nat list" where
  "accept_loop uid [] = []"
| "accept_loop uid (Accepted # es) = uid # accept_loop (uid + 1) es"
| "accept_loop uid (AcceptFails # es) = accept_loop uid es"

text \<open>The SBS listener: None when it cannot bind, else the number of consumers served.\<close>

definition sbs_listener :: "bool \<Rightarrow> accept_event list \<Rightarrow> nat option" where
  "sbs_listener binds es = (if binds then Some (length (filter (\<lambda>e. e = Accepted) es)) else None)"

text \<open>Heartbeats are 30 s apart on the scaled clock.\<close>

definition heartbeat_real :: "real \<Rightarrow> real" where
  "heartbeat_real time_scale = 30 / time_scale"

subsection \<open>Dialling\<close>

datatype dial_event = DialConnects | DialFails

datatype dial_line = SbsConnected | SbsClosed | SbsUnavailable

text \<open>
  A connection is served until it closes; after either outcome the loop waits and dials
  again. \<open>announced\<close> is whether the present outage is in the log already.
\<close>

fun dial_loop :: "bool \<Rightarrow> dial_event list \<Rightarrow> dial_line list" where
  "dial_loop announced [] = []"
| "dial_loop announced (DialConnects # es) = SbsConnected # SbsClosed # dial_loop False es"
| "dial_loop announced (DialFails # es) = (if announced then [] else [SbsUnavailable]) @ dial_loop True es"

subsection \<open>Lemmas\<close>

text \<open>No failed accept ends the loop, and the uids of connections are all different.\<close>

lemma accept_loop_uids: "accept_loop uid es = [uid..<uid + length (filter (\<lambda>e. e = Accepted) es)]"
  by (induction uid es rule: accept_loop.induct) (simp_all add: upt_conv_Cons del: upt_Suc)

text \<open>An outage is announced exactly once, however often the dialler fails.\<close>

lemma dial_loop_announced: "dial_loop True (replicate n DialFails @ es) = dial_loop True es"
  by (induction n) simp_all

lemma outage_announced_once:
  "dial_loop False (replicate (Suc n) DialFails @ DialConnects # es) = SbsUnavailable # SbsConnected # SbsClosed # dial_loop False es"
  by (simp add: dial_loop_announced)

end
