(* ===== verification/Spec2Isabelle.thy ===== *)
theory Spec2Isabelle
  imports Frames Traffic Router Shard Output Server Simulation Gates Delivery Perfect Files Sockets
begin

text \<open>
  A verification library for \<^verbatim>\<open>mlatd\<close>, a multilateration server, and the crates
  \<^verbatim>\<open>mb-core\<close>, \<^verbatim>\<open>mb-modes\<close> and \<^verbatim>\<open>mb-proto\<close> it is built on. All paths below are under
  \<^verbatim>\<open>src/crates/\<close>.

  \<^bold>\<open>The program.\<close> Receivers on the ground hear aircraft transponders and connect to the server.
  Each connection (\<^verbatim>\<open>mlatd/src/main.rs\<close>, \<open>handle_client\<close>) makes a handshake, is routed by its
  position to one of several shards (\<open>Router\<close> in \<^verbatim>\<open>mlatd/src/shard.rs\<close>) and then forwards lines of
  JSON, plain or in zlib frames. A shard (\<open>run_shard\<close> over \<open>State\<close> in \<^verbatim>\<open>mlatd/src/state.rs\<close>) owns all
  state of its receivers: slots with generations, clocks synchronised in pairs from messages that
  carry their position, groups of receptions of messages that do not. A sweep solves each
  group for the sender's position and passes fixes through gates to the output task, which
  lets each through only from the shard that owns the ground below it, drops twins, writes
  files and broadcasts to results forwarders and SBS consumers. Two tasks poll the shards for
  statistics and for the files of a work directory.

  \<^bold>\<open>The theories\<close>, in the order of their imports:

  \<^item> \<open>Prelude\<close>: machine types, the float operations of the standard library, \<open>retain\<close> on maps,
    and the locale \<open>kept_by_steps\<close> of an invariant kept by every step, which the state machines
    below interpret.
  \<^item> \<open>Crc\<close> (\<^verbatim>\<open>mb-modes/src/lib.rs\<close>), \<open>Altitude\<close> (\<^verbatim>\<open>alt.rs\<close>), \<open>Cpr\<close> (\<^verbatim>\<open>cpr.rs\<close>), \<open>Frames\<close>
    (\<^verbatim>\<open>frames.rs\<close>, \<^verbatim>\<open>decode.rs\<close>): Mode S frames. Parity against its specification as polynomial
    remainder, bursts detected, altitude and position codes round-trip, whole frames round-trip.
  \<^item> \<open>Geo\<close> and \<open>Simulation\<close> (\<^verbatim>\<open>mb-core/src/lib.rs\<close>): addresses, geodesy; simulation time and the
    seeds of random streams.
  \<^item> \<open>Text\<close>: decimal formatting and parsing, splitting and case as the standard library does
    them on ASCII. \<open>Calendar\<close> and \<open>Lines\<close>: the dates and the lines a fix leaves as
    (\<^verbatim>\<open>state.rs\<close>) and the SBS parser (\<^verbatim>\<open>mb-proto/src/sbs.rs\<close>) that reads them back.
  \<^item> \<open>Traffic\<close> (\<^verbatim>\<open>traffic.rs\<close>), \<open>Clocksync\<close> (\<^verbatim>\<open>clocksync.rs\<close>), \<open>Track\<close> (\<^verbatim>\<open>track.rs\<close>), \<open>Solve\<close>
    (\<^verbatim>\<open>solve.rs\<close>): selective traffic, pair clocks as weighted least squares, the alpha-beta
    filter, and the Gauss-Newton solver over time differences. \<open>Exact\<close>: the solver, iteration
    and all, on data without error.
  \<^item> \<open>State\<close>, \<open>Ingest\<close>, \<open>Publish\<close>, \<open>Export\<close> (\<^verbatim>\<open>state.rs\<close>): the shard's records and slots; the
    intake of messages and expiry; clusters, gates and publication; the status reports.
    \<open>Shard\<close>: their composition as the event machine \<open>run_shard\<close>, with the locale
    \<open>generations\<close> of handles that never come back to life.
  \<^item> \<open>Router\<close> (\<^verbatim>\<open>shard.rs\<close>): the partition of the ground into cells that split, with the relation
    \<open>routed\<close> of reachable routers. \<open>Output\<close> and \<open>Workdir\<close> (\<^verbatim>\<open>main.rs\<close>): the output task
    against a one-pass specification; the statistics round and the merged reports. \<open>Files\<close>
    (\<^verbatim>\<open>main.rs\<close>): \<open>write_atomic\<close> and the documents of the work directory, with every file system
    another process can see on the way.
  \<^item> \<open>Framing\<close> and \<open>Proto\<close> (\<^verbatim>\<open>mb-proto/src/framing.rs\<close>, \<^verbatim>\<open>lib.rs\<close>): zlib frames, wire messages.
    \<open>Downlink\<close> and \<open>Client\<close> (\<^verbatim>\<open>main.rs\<close>): writer, forwarder and SBS feed; handshake, one line,
    ticker. \<open>Sockets\<close>: the accept and dial loops around them. \<open>Server\<close>: connections, router,
    shards and their queues as the relation \<open>serves\<close> of reachable worlds.
  \<^item> \<open>Gates\<close> (\<^verbatim>\<open>state.rs\<close>): when \<open>solve_cluster\<close> publishes, as one condition, and how a track with a
    wrong position recovers. \<open>Perfect\<close>: clocks, clusters, solver and gates on exact arrivals, as
    a worked example of a shard that publishes.
    \<open>Delivery\<close>: the composition of \<open>Server\<close>, the sweep and \<open>Output\<close>: a row followed from the
    receptions of its group to the forwarders it is for.

  \<^bold>\<open>State and operations.\<close> Structs are records and enums datatypes with the source's names; a
  \<^verbatim>\<open>HashMap\<close> is a map, a \<^verbatim>\<open>Vec\<close> or \<^verbatim>\<open>VecDeque\<close> a list; an operation takes the state and gives it
  back updated. Early returns and errors are branches: \<open>None\<close> or \<open>Inl\<close>. A panic is \<open>None\<close> where the
  code could panic (the shift of the leaf search, an index past the shards). A task is a function
  of the events it meets or, where tasks interleave, a rule of \<open>serves\<close>.

  \<^bold>\<open>What the lemmas show.\<close> Well-formedness invariants of shard, router, traffic, output task and
  server, kept by every step from the start; what each gate of publication guarantees; handles
  that stay dead, slots that do not leak and counters that balance over any interleaving; round
  trips of frames, lines, sessions, handshakes and messages; refinement of the output task and of
  the clock model by their specifications; a cluster is published exactly under
  a stated condition; from the true position and exact arrivals the solver stays there with
  error zero (nothing is shown of how far it converges); a published fix is addressed only to connections whose messages were in its
  group, and what the output task publishes in a reachable world passed the gates; readers of
  the work directory see whole documents whatever write fails; loops that return: the leaf search within 32 levels,
  the decoder within 4 MiB, the calendar on any date from 1970 on.

  \<^bold>\<open>Bounds.\<close> Structural recursion or a measure everywhere but in the encoder's loop, which the
  code does not bound; its result is an option, and the theorems prove the result for the inputs
  they name. The calendar's year loop has a measure, and its month loop returns None where the code
  would index past its table, which is proved not to happen for a stamp from 1970 on.
  Generations are 32-bit words, so a dead handle stays dead for fewer than \<open>2\<^sup>3\<^sup>2\<close> events;
  receiver counters are 64 bits, so fewer connections than that are open at once.

  \<^bold>\<open>Idealisations.\<close> A finite \<^verbatim>\<open>f64\<close> is a real number: rounding is not modelled. A sweep reads the
  clock at its start, for the expiry and anew for each cluster (\<open>sweep_clock\<close>); any other call
  reads it once. A JSON number is read back as it was written: \<^verbatim>\<open>serde_json\<close> is built without its
  exact float parser, which can be one unit in the last place off. Channels do not overflow: a \<open>try_send\<close> is an offer. Iteration orders of hash
  tables are parameters or irrelevant to the result. Text is ASCII where its case is changed.

  \<^bold>\<open>Parameters.\<close> Code outside the repository is an argument: the zlib streams of \<^verbatim>\<open>flate2\<close>
  (\<open>z_call\<close>, with \<open>sync_flushes\<close> for what a sync flush promises), \<^verbatim>\<open>serde_json\<close> (\<open>json_api\<close>, with
  \<open>json_laws\<close> and \<open>reads_back\<close>), the hexadecimal decoder \<open>hx\<close>, SHA-256 and ChaCha12, the socket
  \<open>wr\<close>, the serialiser \<open>to_vec\<close>; which write, rename, accept or dial fails is part of the events. Each property that relies on them has a witness with concrete functions.

  \<^bold>\<open>Not modelled.\<close> Command-line parsing, spawning of tasks, the text of log lines, the allocator,
  memory reuse in the decoder and \<^verbatim>\<open>HexMsg::from_bytes\<close>: calls of libraries and of the operating
  system without logic of their own. The unit tests, which are a third of the source lines.
\<close>

end
